(* ===== verification/Gdb_Prelude.thy ===== *)
theory Gdb_Prelude
  imports Main "HOL-Library.Word"
begin

unbundle bit_operations_syntax

text \<open>
  Shared vocabulary of the development: machine integers, the faults a C execution can run
  into and the results that carry them, byte strings, byte arrays with checked writes, and
  the bytes of a machine word. The collection \<open>res_simps\<close> evaluates results,
  \<open>buf_simps\<close> evaluates writes into arrays.
\<close>

section \<open>Machine integers\<close>

type_synonym u8 = "8 word"
type_synonym u16 = "16 word"
type_synonym u32 = "32 word"
type_synonym u64 = "64 word"

section \<open>Faults and results\<close>

text \<open>
  A C execution that dereferences the null pointer, leaves an array, or overflows a signed
  integer has no defined continuation; a failed \<open>assert\<close> calls \<open>assert_fail\<close>, which
  loops for ever (\<open>include/util.h\<close>). Each of these is a fault, and a fault ends the
  execution that meets it.
\<close>

datatype fault = NullDeref | OutOfBounds | AssertFail | IntOverflow

type_synonym 'a res = "fault + 'a"

definition bindR :: "'a res \<Rightarrow> ('a \<Rightarrow> 'b res) \<Rightarrow> 'b res" where
  "bindR m f = (case m of Inl e \<Rightarrow> Inl e | Inr a \<Rightarrow> f a)"

definition assertR :: "bool \<Rightarrow> 'a res \<Rightarrow> 'a res" where
  "assertR b k = (if b then k else Inl AssertFail)"

text \<open>Evaluation does not look into the continuation before its argument is known.\<close>

declare bindR_def [code_unfold]

named_theorems res_simps "evaluation of results"
named_theorems buf_simps "evaluation of writes into byte arrays"

lemma bindR_Inl [simp, res_simps]: "bindR (Inl e) f = Inl e"
  by (simp add: bindR_def)

lemma bindR_Inr [simp, res_simps]: "bindR (Inr a) f = f a"
  by (simp add: bindR_def)

lemma bindR_if [res_simps]: "bindR (if b then m else n) f = (if b then bindR m f else bindR n f)"
  by simp

lemma bindR_assoc: "bindR (bindR m f) g = bindR m (\<lambda>a. bindR (f a) g)"
  by (cases m) auto

lemma bindR_eq_Inr_iff: "bindR m f = Inr b \<longleftrightarrow> (\<exists>a. m = Inr a \<and> f a = Inr b)"
  by (cases m) auto

lemma bindR_InrE:
  assumes "bindR m f = Inr b"
  obtains a where "m = Inr a" and "f a = Inr b"
  using assms by (auto simp: bindR_eq_Inr_iff)

lemma bindR_cong [fundef_cong]:
  "m = m' \<Longrightarrow> (\<And>a. m' = Inr a \<Longrightarrow> f a = f' a) \<Longrightarrow> bindR m f = bindR m' f'"
  by (cases m') auto

lemma assertR_True [simp, res_simps]: "assertR True k = k"
  by (simp add: assertR_def)

lemma assertR_False [simp, res_simps]: "assertR False k = Inl AssertFail"
  by (simp add: assertR_def)

lemma assertR_eq_Inr_iff [simp]: "assertR b k = Inr r \<longleftrightarrow> b \<and> k = Inr r"
  by (simp add: assertR_def)

text \<open>How a result came about, branch by branch.\<close>

lemma case_option_eq_Inr:
  "(case x of None \<Rightarrow> m | Some y \<Rightarrow> f y) = Inr r \<longleftrightarrow> x = None \<and> m = Inr r \<or> (\<exists>y. x = Some y \<and> f y = Inr r)"
  by (cases x) auto

lemma case_sum_eq_Inr:
  "(case x of Inl e \<Rightarrow> g e | Inr y \<Rightarrow> f y) = Inr r \<longleftrightarrow> (\<exists>e. x = Inl e \<and> g e = Inr r) \<or> (\<exists>y. x = Inr y \<and> f y = Inr r)"
  by (cases x) auto

lemma case_list_eq_Inr:
  "(case x of [] \<Rightarrow> m | y # ys \<Rightarrow> f y ys) = Inr r \<longleftrightarrow> x = [] \<and> m = Inr r \<or> (\<exists>y ys. x = y # ys \<and> f y ys = Inr r)"
  by (cases x) auto

lemma if_eq_Inr: "(if c then m else n) = Inr r \<longleftrightarrow> c \<and> m = Inr r \<or> \<not> c \<and> n = Inr r"
  by auto

lemma case_prod_eq_Inr: "(case x of (y, z) \<Rightarrow> f y z) = Inr r \<longleftrightarrow> (\<exists>y z. x = (y, z) \<and> f y z = Inr r)"
  by (cases x) auto

lemmas res_branches = bindR_eq_Inr_iff case_option_eq_Inr case_sum_eq_Inr case_list_eq_Inr if_eq_Inr case_prod_eq_Inr

text \<open>A loop over a list of indices whose body may fault.\<close>

fun iterR :: "('i \<Rightarrow> 's \<Rightarrow> 's res) \<Rightarrow> 'i list \<Rightarrow> 's \<Rightarrow> 's res" where
  "iterR f [] s = Inr s"
| "iterR f (i # is) s = bindR (f i s) (iterR f is)"

lemma iterR_append: "iterR f (is @ js) s = bindR (iterR f is s) (iterR f js)"
  by (induction "is" arbitrary: s) (auto simp: bindR_assoc intro: bindR_cong)

lemma iterR_fold: "(\<And>i s. i \<in> set is \<Longrightarrow> f i s = Inr (g i s)) \<Longrightarrow> iterR f is s = Inr (fold g is s)"
  by (induction "is" arbitrary: s) auto

lemma iterR_invariant:
  assumes "iterR f is s = Inr s'" and "P s"
    and "\<And>i s s'. i \<in> set is \<Longrightarrow> P s \<Longrightarrow> f i s = Inr s' \<Longrightarrow> P s'"
  shows "P s'"
  using assms
proof (induction "is" arbitrary: s)
  case (Cons i js)
  from Cons.prems(1) obtain s1 where "f i s = Inr s1" and "iterR f js s1 = Inr s'"
    by (auto elim: bindR_InrE)
  with Cons.prems Cons.IH [of s1] show ?case
    by (meson list.set_intros)
qed simp

text \<open>A loop whose body cannot fault.\<close>

lemma fold_invariant:
  assumes "P s" and "\<And>i s. i \<in> set is \<Longrightarrow> P s \<Longrightarrow> P (f i s)"
  shows "P (fold f is s)"
  using assms by (induction "is" arbitrary: s) auto

section \<open>Searching loops\<close>

text \<open>\<open>List.find p [0..<n]\<close> is the loop that stops at the first index below \<open>n\<close> with \<open>p\<close>.\<close>

lemma find_map: "List.find p (map f xs) = map_option f (List.find (p \<circ> f) xs)"
  by (induction xs) auto

lemma find_upt_Suc:
  "List.find p [0..<Suc n] = (if p 0 then Some 0 else map_option Suc (List.find (p \<circ> Suc) [0..<n]))"
  by (simp add: upt_conv_Cons map_Suc_upt [symmetric] find_map del: upt_Suc)

lemma find_upt_Some:
  "List.find p [0..<n] = Some i \<longleftrightarrow> i < n \<and> p i \<and> (\<forall>j<i. \<not> p j)"
proof (induction n arbitrary: p i)
  case (Suc n)
  show ?case
    unfolding find_upt_Suc using Suc [of "p \<circ> Suc"] by (cases i) (auto simp: All_less_Suc2 comp_def)
qed simp

lemma find_upt_None: "List.find p [0..<n] = None \<longleftrightarrow> (\<forall>i<n. \<not> p i)"
  by (auto simp: find_None_iff)

section \<open>Byte strings\<close>

text \<open>
  A pointer that is only read and only moves forward is the list of the bytes from it to the
  end of its array: \<open>*p\<close> is the head, \<open>p + 1\<close> the tail, and the empty list is the
  pointer one past the end, whose dereference leaves the array.
\<close>

type_synonym cptr = "u8 list"

definition str :: "string \<Rightarrow> u8 list" where
  "str s = map of_char s"

definition cstr :: "string \<Rightarrow> cptr" where
  "cstr s = str s @ [0]"

lemma str_Nil [simp]: "str [] = []"
  by (simp add: str_def)

lemma str_Cons [simp]: "str (c # s) = of_char c # str s"
  by (simp add: str_def)

lemma length_str [simp]: "length (str s) = length s"
  by (simp add: str_def)

text \<open>The bytes of the C string a pointer points to.\<close>

definition content :: "u8 list \<Rightarrow> u8 list" where
  "content p = takeWhile (\<lambda>c. c \<noteq> 0) p"

lemma content_Nil [simp]: "content [] = []"
  by (simp add: content_def)

lemma content_Cons [simp]: "content (c # p) = (if c = 0 then [] else c # content p)"
  by (simp add: content_def)

lemma content_append_zero: "0 \<notin> set xs \<Longrightarrow> content (xs @ 0 # ys) = xs"
  by (induction xs) auto

lemma zero_notin_content: "0 \<notin> set (content p)"
  by (induction p) auto

section \<open>Byte arrays\<close>

text \<open>An array that is written through a pointer is a list; a pointer into it is an index.\<close>

definition put :: "u8 list \<Rightarrow> nat \<Rightarrow> u8 \<Rightarrow> u8 list res" where
  "put b p v = (if p < length b then Inr (b[p := v]) else Inl OutOfBounds)"

fun put_all :: "u8 list \<Rightarrow> nat \<Rightarrow> u8 list \<Rightarrow> u8 list res" where
  "put_all b p [] = Inr b"
| "put_all b p (v # vs) = bindR (put b p v) (\<lambda>b'. put_all b' (Suc p) vs)"

text \<open>The array after the bytes \<open>vs\<close> have been written from index \<open>p\<close> on.\<close>

definition patch :: "u8 list \<Rightarrow> nat \<Rightarrow> u8 list \<Rightarrow> u8 list" where
  "patch b p vs = take p b @ vs @ drop (p + length vs) b"

lemma length_patch [simp]: "p + length vs \<le> length b \<Longrightarrow> length (patch b p vs) = length b"
  by (simp add: patch_def)

lemma patch_Nil [simp]: "patch b p [] = b"
  by (simp add: patch_def)

lemma patch_Cons:
  "p < length b \<Longrightarrow> patch (b[p := v]) (Suc p) vs = patch b p (v # vs)"
  by (simp add: patch_def take_Suc_conv_app_nth)

lemma put_patch: "p < length b \<Longrightarrow> put b p v = Inr (patch b p [v])"
  using patch_Cons [of p b v "[]"] by (simp add: put_def)

lemma put_all_patch:
  "p + length vs \<le> length b \<Longrightarrow> put_all b p vs = Inr (patch b p vs)"
  by (induction vs arbitrary: b p) (auto simp: put_def patch_Cons)

lemma put_all_overflow:
  "length b < p + length vs \<Longrightarrow> p \<le> length b \<Longrightarrow> put_all b p vs = Inl OutOfBounds"
  by (induction vs arbitrary: b p) (auto simp: put_def)

lemma patch_patch:
  "p + length vs \<le> length b \<Longrightarrow> patch (patch b p vs) (p + length vs) ws = patch b p (vs @ ws)"
  by (simp add: patch_def ac_simps)

lemma patch_patch_over:
  assumes "p \<le> length b" and "p + length vs \<le> length b" and "length vs \<le> length ws"
  shows "patch (patch b p vs) p ws = patch b p ws"
  using assms by (simp add: patch_def ac_simps)

lemma patch_overlap:
  assumes "p + length xs + length ys \<le> length b" and "length ys \<le> length zs"
  shows "patch (patch b p (xs @ ys)) (p + length xs) zs = patch b p (xs @ zs)"
  using assms by (simp add: patch_def ac_simps)

lemma put_all_append:
  "put_all b p (vs @ ws) = bindR (put_all b p vs) (\<lambda>b'. put_all b' (p + length vs) ws)"
  by (induction vs arbitrary: b p) (auto simp: bindR_assoc)

lemma drop_patch: "p \<le> length b \<Longrightarrow> drop p (patch b p vs) = vs @ drop (p + length vs) b"
  by (simp add: patch_def)

lemma take_patch: "p \<le> length b \<Longrightarrow> take p (patch b p vs) = take p b"
  by (simp add: patch_def)

lemma nth_patch_zero: "patch b 0 (vs @ [0]) = vs @ 0 # drop (Suc (length vs)) b"
  by (simp add: patch_def)

lemma content_patch:
  assumes "0 \<notin> set vs"
  shows "content (patch b 0 (vs @ [0])) = vs"
  using assms by (simp add: nth_patch_zero content_append_zero)

section \<open>The bytes of a word\<close>

text \<open>The targets are little-endian: byte \<open>i\<close> of a word is at address \<open>i\<close>.\<close>

definition get_byte :: "'a::len word \<Rightarrow> nat \<Rightarrow> u8" where
  "get_byte w i = ucast (drop_bit (8 * i) w)"

definition set_byte :: "'a::len word \<Rightarrow> nat \<Rightarrow> u8 \<Rightarrow> 'a word" where
  "set_byte w i b = (w AND NOT (push_bit (8 * i) 255)) OR push_bit (8 * i) (ucast b)"

lemma bit_get_byte: "bit (get_byte (w :: 'a::len word) i) n \<longleftrightarrow> n < 8 \<and> bit w (8 * i + n)"
  by (auto simp: get_byte_def bit_ucast_iff bit_drop_bit_eq dest: bit_imp_le_length)

lemma bit_255 [simp]: "bit (255 :: int) n \<longleftrightarrow> n < 8"
proof -
  have "(255 :: int) = mask 8"
    by (simp add: mask_eq_exp_minus_1)
  then have "bit (255 :: int) n = bit (mask 8 :: int) n"
    by (rule arg_cong [where f = "\<lambda>w. bit w n"])
  also have "\<dots> \<longleftrightarrow> possible_bit TYPE(int) n \<and> n < 8"
    by (rule bit_mask_iff)
  finally show ?thesis
    by simp
qed

lemma bit_set_byte:
  "bit (set_byte (w :: 'a::len word) i b) n \<longleftrightarrow>
     (if 8 * i \<le> n \<and> n < 8 * i + 8 then n < LENGTH('a) \<and> bit b (n - 8 * i) else bit w n)"
  by (auto simp: set_byte_def bit_or_iff bit_and_iff bit_not_iff bit_push_bit_iff bit_ucast_iff
      dest: bit_imp_le_length)

lemma get_set_byte:
  "8 * i + 8 \<le> LENGTH('a) \<Longrightarrow>
     get_byte (set_byte (w :: 'a::len word) i b) j = (if i = j then b else get_byte w j)"
  by (rule bit_word_eqI) (auto simp: bit_get_byte bit_set_byte)

lemma word_eq_bytes:
  assumes "\<And>i. i < n \<Longrightarrow> get_byte v i = get_byte (w :: 'a::len word) i" and "LENGTH('a) = 8 * n"
  shows "v = w"
proof (rule bit_word_eqI)
  fix m
  assume "m < LENGTH('a)"
  then have "m div 8 < n"
    using assms(2) by (simp add: less_mult_imp_div_less mult.commute)
  then have "bit (get_byte v (m div 8)) (m mod 8) = bit (get_byte w (m div 8)) (m mod 8)"
    by (simp add: assms(1))
  then show "bit v m = bit w m"
    by (simp add: bit_get_byte)
qed

text \<open>The first \<open>n\<close> bytes of a word in memory order, and a word with its first bytes replaced.\<close>

definition word_bytes :: "nat \<Rightarrow> 'a::len word \<Rightarrow> u8 list" where
  "word_bytes n w = map (get_byte w) [0..<n]"

fun set_bytes :: "'a::len word \<Rightarrow> nat \<Rightarrow> u8 list \<Rightarrow> 'a word" where
  "set_bytes w i [] = w"
| "set_bytes w i (b # bs) = set_bytes (set_byte w i b) (Suc i) bs"

lemma length_word_bytes [simp]: "length (word_bytes n w) = n"
  by (simp add: word_bytes_def)

lemma nth_word_bytes [simp]: "i < n \<Longrightarrow> word_bytes n w ! i = get_byte w i"
  by (simp add: word_bytes_def)

lemma get_set_bytes:
  "8 * (i + length bs) \<le> LENGTH('a) \<Longrightarrow>
     get_byte (set_bytes (w :: 'a::len word) i bs) j =
     (if i \<le> j \<and> j < i + length bs then bs ! (j - i) else get_byte w j)"
  by (induction w i bs rule: set_bytes.induct) (auto simp: get_set_byte nth_Cons')

lemma word_bytes_set_bytes:
  "8 * length bs \<le> LENGTH('a) \<Longrightarrow>
     word_bytes (length bs) (set_bytes (w :: 'a::len word) 0 bs) = bs"
  by (rule nth_equalityI) (auto simp: get_set_bytes)

lemma set_bytes_word_bytes:
  assumes "LENGTH('a) = 8 * n"
  shows "set_bytes (v :: 'a::len word) 0 (word_bytes n w) = w"
  by (rule word_eq_bytes [OF _ assms]) (simp add: get_set_bytes assms)

end
