(* ===== verification/Gdb_Util.thy ===== *)
theory Gdb_Util
  imports Gdb_Prelude
begin

text \<open>
  The string and hexadecimal routines of \<open>src/util.c\<close>: \<open>strlcpy\<close>, \<open>strncmp\<close>,
  \<open>strnlen\<close>, the conversion of hexadecimal digits, of hexadecimal numbers and of
  memory to and from hexadecimal text. The lemmas characterise each loop by what it leaves
  in the array it writes; the locale \<open>byte_codec\<close> carries the round trip of two-digit
  encodings, which the register, memory and checksum code share.
\<close>

section \<open>String routines\<close>

abbreviation ch :: "char \<Rightarrow> u8" where
  "ch \<equiv> of_char"

fun strlcpy_loop :: "u8 list \<Rightarrow> nat \<Rightarrow> cptr \<Rightarrow> nat \<Rightarrow> nat \<Rightarrow> (u8 list \<times> nat) res" where
  "strlcpy_loop dest d [] sz len =
     (if len + 1 < sz then Inl OutOfBounds
      else bindR (put dest (d + len) 0) (\<lambda>dest'. Inr (dest', len)))"
| "strlcpy_loop dest d (c # src) sz len =
     (if len + 1 < sz \<and> c \<noteq> 0
      then bindR (put dest (d + len) c) (\<lambda>dest'. strlcpy_loop dest' d src sz (len + 1))
      else bindR (put dest (d + len) 0) (\<lambda>dest'. Inr (dest', len)))"

definition strlcpy :: "u8 list \<Rightarrow> nat \<Rightarrow> cptr \<Rightarrow> nat \<Rightarrow> (u8 list \<times> nat) res" where
  "strlcpy dest d src sz = strlcpy_loop dest d src sz 0"

fun strncmp :: "cptr \<Rightarrow> cptr \<Rightarrow> nat \<Rightarrow> int res" where
  "strncmp s1 s2 0 = Inr 0"
| "strncmp (a # s1) (b # s2) (Suc n) =
     (let diff = uint a - uint b
      in if diff \<noteq> 0 \<or> a = 0 then Inr diff else strncmp s1 s2 n)"
| "strncmp [] _ (Suc n) = Inl OutOfBounds"
| "strncmp _ [] (Suc n) = Inl OutOfBounds"

fun strnlen :: "cptr \<Rightarrow> nat \<Rightarrow> nat res" where
  "strnlen s 0 = Inr 0"
| "strnlen [] (Suc n) = Inl OutOfBounds"
| "strnlen (c # s) (Suc n) = (if c \<noteq> 0 then bindR (strnlen s n) (\<lambda>len. Inr (Suc len)) else Inr 0)"

section \<open>Hexadecimal digits\<close>

definition hexchar_to_int :: "u8 \<Rightarrow> int" where
  "hexchar_to_int c =
     (if ch CHR ''0'' \<le> c \<and> c \<le> ch CHR ''9'' then uint c - uint (ch CHR ''0'')
      else if ch CHR ''a'' \<le> c \<and> c \<le> ch CHR ''f'' then uint c - uint (ch CHR ''a'') + 10
      else if ch CHR ''A'' \<le> c \<and> c \<le> ch CHR ''F'' then uint c - uint (ch CHR ''A'') + 10
      else -1)"

definition hexchars :: "u8 list" where
  "hexchars = str ''0123456789abcdef''"

definition int_to_hexchar :: "int \<Rightarrow> u8" where
  "int_to_hexchar i = (if i < 0 \<or> i > 15 then -1 else hexchars ! nat i)"

text \<open>The two digits of a byte, and the byte two characters stand for: the second assignment
  adds to the first in an \<open>unsigned char\<close>.\<close>

definition hex_hi :: "u8 \<Rightarrow> u8" where
  "hex_hi c = int_to_hexchar (uint (drop_bit 4 c))"

definition hex_lo :: "u8 \<Rightarrow> u8" where
  "hex_lo c = int_to_hexchar (uint (c mod 16))"

definition hex_byte :: "u8 \<Rightarrow> u8 \<Rightarrow> u8" where
  "hex_byte a b = word_of_int (hexchar_to_int a * 16) + word_of_int (hexchar_to_int b)"

section \<open>Hexadecimal numbers and memory\<close>

fun hexstr_to_int :: "cptr \<Rightarrow> nat \<Rightarrow> u64 \<Rightarrow> (cptr \<times> u64) res" where
  "hexstr_to_int [] n val = Inl OutOfBounds"
| "hexstr_to_int (c # s) 0 val = Inr (c # s, val)"
| "hexstr_to_int (c # s) (Suc n) val =
     (if c = 0 then Inr (c # s, val)
      else (let byte = word_of_int (hexchar_to_int c) :: u8
            in if byte = -1 then Inr (c # s, val)
               else hexstr_to_int s n ((push_bit 4 val) OR ucast (byte AND 0xF))))"

fun mem2hex :: "u8 list \<Rightarrow> u8 list \<Rightarrow> nat \<Rightarrow> nat \<Rightarrow> (u8 list \<times> nat) res" where
  "mem2hex mem buf p 0 = bindR (put buf p 0) (\<lambda>buf'. Inr (buf', p))"
| "mem2hex [] buf p (Suc n) = Inl OutOfBounds"
| "mem2hex (c # mem) buf p (Suc n) =
     bindR (put buf p (hex_hi c)) (\<lambda>buf1.
     bindR (put buf1 (p + 1) (hex_lo c)) (\<lambda>buf2.
     mem2hex mem buf2 (p + 2) n))"

fun hex2mem :: "cptr \<Rightarrow> u8 list \<Rightarrow> nat \<Rightarrow> (cptr \<times> u8 list) res" where
  "hex2mem buf mem 0 = Inr (buf, mem)"
| "hex2mem (a # b # buf) (m # mem) (Suc n) =
     bindR (hex2mem buf mem n) (\<lambda>(buf', mem'). Inr (buf', hex_byte a b # mem'))"
| "hex2mem _ _ (Suc n) = Inl OutOfBounds"

section \<open>What the string routines leave\<close>

lemma strlcpy_loop_patch:
  assumes "0 \<notin> set s" and "d + len + length (take (sz - 1 - len) s) < length b"
  shows "strlcpy_loop b d (s @ 0 # r) sz len =
    Inr (patch b (d + len) (take (sz - 1 - len) s @ [0]), len + length (take (sz - 1 - len) s))"
  using assms
proof (induction s arbitrary: b len)
  case Nil
  then show ?case
    by (simp add: put_patch)
next
  case (Cons c s)
  show ?case
  proof (cases "len + 1 < sz")
    case True
    then obtain m where m: "sz - 1 - len = Suc m" "sz - 1 - Suc len = m"
      by (metis Suc_diff_Suc Suc_eq_plus1 diff_Suc_eq_diff_pred)
    with Cons True show ?thesis
      by (simp add: put_def patch_Cons)
  next
    case False
    with Cons.prems show ?thesis
      by (simp add: put_patch)
  qed
qed

lemma strlcpy_patch:
  assumes "0 \<notin> set s" and "d + length (take (sz - 1) s) < length b"
  shows "strlcpy b d (s @ 0 # r) sz = Inr (patch b d (take (sz - 1) s @ [0]), length (take (sz - 1) s))"
  using strlcpy_loop_patch [of s d 0 sz b r] assms by (simp add: strlcpy_def)

lemma strlcpy_fits:
  assumes "0 \<notin> set s" and "length s < sz" and "d + length s < length b"
  shows "strlcpy b d (s @ [0]) sz = Inr (patch b d (s @ [0]), length s)"
  using strlcpy_patch [of s d sz b "[]"] assms by simp

lemma strncmp_prefix:
  assumes "0 \<in> set s" and "0 \<notin> set t"
  shows "\<exists>d. strncmp s (t @ r) (length t) = Inr d \<and> (d = 0 \<longleftrightarrow> take (length t) s = t)"
  using assms
proof (induction t arbitrary: s)
  case Nil
  then show ?case by simp
next
  case (Cons b t)
  then obtain a s' where s: "s = a # s'"
    by (cases s) auto
  show ?case
  proof (cases "a = b")
    case True
    with Cons.prems s have "0 \<in> set s'"
      by auto
    with Cons.IH [of s'] Cons.prems True s show ?thesis
      by auto
  next
    case False
    then have "uint a \<noteq> uint b"
      by (blast intro: word_uint_eqI)
    with False s show ?thesis
      by (auto simp: Let_def)
  qed
qed

lemma strnlen_content:
  "0 \<in> set s \<Longrightarrow> strnlen s n = Inr (min n (length (content s)))"
proof (induction s n rule: strnlen.induct)
  case (3 c s n)
  then show ?case
    by (cases "c = 0") auto
qed auto

section \<open>Two-digit encodings of bytes\<close>

text \<open>
  The interface of a byte encoding in two printable characters, and what every user of one
  needs: decoding an encoded byte string gives the bytes back, and an encoded byte string has
  two characters per byte, none of them the terminator.
\<close>

definition encode_all :: "(u8 \<Rightarrow> u8) \<Rightarrow> (u8 \<Rightarrow> u8) \<Rightarrow> u8 list \<Rightarrow> u8 list" where
  "encode_all hi lo cs = concat (map (\<lambda>c. [hi c, lo c]) cs)"

fun decode_all :: "(u8 \<Rightarrow> u8 \<Rightarrow> u8) \<Rightarrow> u8 list \<Rightarrow> u8 list" where
  "decode_all dec (a # b # ds) = dec a b # decode_all dec ds"
| "decode_all dec _ = []"

lemma encode_all_Nil [simp]: "encode_all hi lo [] = []"
  by (simp add: encode_all_def)

lemma encode_all_Cons [simp]: "encode_all hi lo (c # cs) = hi c # lo c # encode_all hi lo cs"
  by (simp add: encode_all_def)

lemma length_encode_all [simp]: "length (encode_all hi lo cs) = 2 * length cs"
  by (induction cs) auto

lemma encode_all_append:
  "encode_all hi lo (cs @ ds) = encode_all hi lo cs @ encode_all hi lo ds"
  by (induction cs) auto

locale byte_codec =
  fixes hi :: "u8 \<Rightarrow> u8" and lo :: "u8 \<Rightarrow> u8" and dec :: "u8 \<Rightarrow> u8 \<Rightarrow> u8" and digit :: "u8 \<Rightarrow> bool"
  assumes dec_enc: "dec (hi c) (lo c) = c"
    and hi_digit: "digit (hi c)"
    and lo_digit: "digit (lo c)"
    and digit_nonzero: "digit d \<Longrightarrow> d \<noteq> 0"
begin

lemma decode_encode: "decode_all dec (encode_all hi lo cs) = cs"
  by (induction cs) (auto simp: dec_enc)

lemma encode_digits: "list_all digit (encode_all hi lo cs)"
  by (induction cs) (auto simp: hi_digit lo_digit)

lemma encode_no_terminator: "0 \<notin> set (encode_all hi lo cs)"
  using encode_digits [of cs] digit_nonzero by (induction cs) auto

lemma encode_inj: "encode_all hi lo cs = encode_all hi lo ds \<Longrightarrow> cs = ds"
  by (metis decode_encode)

end

section \<open>Hexadecimal is such an encoding\<close>

definition is_hex :: "u8 \<Rightarrow> bool" where
  "is_hex c \<longleftrightarrow> hexchar_to_int c \<noteq> -1"

lemma nibble_cases:
  fixes i :: int
  assumes "0 \<le> i" and "i \<le> 15"
  shows "i \<in> {0, 1, 2, 3, 4, 5, 6, 7, 8, 9, 10, 11, 12, 13, 14, 15}"
  using assms by (simp; presburger)

lemma hexchar_int_to_hexchar:
  assumes "0 \<le> i" and "i \<le> 15"
  shows "hexchar_to_int (int_to_hexchar i) = i"
  using nibble_cases [OF assms]
  by (elim insertE emptyE) (simp_all add: hexchar_to_int_def int_to_hexchar_def hexchars_def)

lemma hexchar_to_int_bounds: "hexchar_to_int c = -1 \<or> 0 \<le> hexchar_to_int c \<and> hexchar_to_int c \<le> 15"
  by (auto simp: hexchar_to_int_def word_le_def)

lemma is_hex_nonzero: "is_hex d \<Longrightarrow> d \<noteq> 0"
  by (auto simp: is_hex_def hexchar_to_int_def)

lemma uint_hi: "uint (drop_bit 4 (c :: u8)) = uint c div 16"
proof -
  have "uint (drop_bit 4 c) = drop_bit 4 (take_bit 8 (uint c))"
    by (subst unsigned_drop_bit_eq) simp
  also have "take_bit 8 (uint c) = uint c"
    using uint_bounded [of c] by (simp add: take_bit_eq_mod)
  finally show ?thesis
    by (simp add: drop_bit_eq_div)
qed

lemma uint_hi_bounds: "0 \<le> uint (drop_bit 4 (c :: u8))" "uint (drop_bit 4 (c :: u8)) \<le> 15"
proof -
  show "uint (drop_bit 4 c) \<le> 15"
    using uint_bounded [of c] by (simp add: uint_hi)
qed simp

lemma uint_lo_bounds: "0 \<le> uint ((c :: u8) mod 16)" "uint ((c :: u8) mod 16) \<le> 15"
  by (simp_all add: uint_mod_distrib)

lemma hexchar_hi: "hexchar_to_int (hex_hi c) = uint (drop_bit 4 c)"
  unfolding hex_hi_def by (rule hexchar_int_to_hexchar) (rule uint_hi_bounds)+

lemma hexchar_lo: "hexchar_to_int (hex_lo c) = uint (c mod 16)"
  unfolding hex_lo_def by (rule hexchar_int_to_hexchar) (rule uint_lo_bounds)+

lemma hex_byte_digits: "hex_byte (hex_hi c) (hex_lo c) = c"
proof -
  have "hex_byte (hex_hi c) (hex_lo c) = word_of_int (uint (drop_bit 4 c) * 16 + uint (c mod 16))"
    by (simp add: hex_byte_def hexchar_hi hexchar_lo)
  also have "uint (drop_bit 4 c) * 16 + uint (c mod 16) = uint c"
    by (simp add: uint_hi uint_mod_distrib)
  finally show ?thesis
    by simp
qed

interpretation hex: byte_codec hex_hi hex_lo hex_byte is_hex
proof
  show "hex_byte (hex_hi c) (hex_lo c) = c" for c
    by (rule hex_byte_digits)
  show "is_hex (hex_hi c)" for c
    using uint_hi_bounds [of c] unfolding is_hex_def hexchar_hi by linarith
  show "is_hex (hex_lo c)" for c
    using uint_lo_bounds [of c] unfolding is_hex_def hexchar_lo by linarith
  show "d \<noteq> 0" if "is_hex d" for d
    using that by (rule is_hex_nonzero)
qed

abbreviation hex_encode :: "u8 list \<Rightarrow> u8 list" where
  "hex_encode \<equiv> encode_all hex_hi hex_lo"

abbreviation hex_decode :: "u8 list \<Rightarrow> u8 list" where
  "hex_decode \<equiv> decode_all hex_byte"

section \<open>Memory to hexadecimal text and back\<close>

lemma length_hex_encode: "length (hex_encode bs) = 2 * length bs"
  by (induction bs) auto

lemma mem2hex_patch:
  "n \<le> length mem \<Longrightarrow> p + 2 * n < length b \<Longrightarrow>
     mem2hex mem b p n = Inr (patch b p (hex_encode (take n mem) @ [0]), p + 2 * n)"
proof (induction mem b p n rule: mem2hex.induct)
  case (1 mem buf p)
  then show ?case
    by (simp add: put_patch)
next
  case (3 c mem buf p n)
  then show ?case
    by (simp add: put_def patch_Cons)
qed simp

lemma mem2hex_overflow:
  "n \<le> length mem \<Longrightarrow> length b \<le> p + 2 * n \<Longrightarrow> mem2hex mem b p n = Inl OutOfBounds"
proof (induction mem b p n rule: mem2hex.induct)
  case (3 c mem buf p n)
  then show ?case
    by (cases "p + 1 < length buf") (auto simp: put_def)
qed (auto simp: put_def)

lemma hex2mem_decode:
  "n \<le> length mem \<Longrightarrow> 2 * n \<le> length buf \<Longrightarrow>
     hex2mem buf mem n = Inr (drop (2 * n) buf, hex_decode (take (2 * n) buf) @ drop n mem)"
  by (induction buf mem n rule: hex2mem.induct) auto

lemma hex2mem_overflow:
  "length mem < n \<or> length buf < 2 * n \<Longrightarrow> hex2mem buf mem n = Inl OutOfBounds"
  by (induction buf mem n rule: hex2mem.induct) auto

lemma hex2mem_encode:
  assumes "length cs = length mem"
  shows "hex2mem (hex_encode cs @ r) mem (length cs) = Inr (r, cs)"
  using assms hex2mem_decode [of "length cs" mem "hex_encode cs @ r"]
  by (simp add: hex.decode_encode)

section \<open>Hexadecimal numbers\<close>

text \<open>The number a digit sequence adds to an accumulator, in the 64 bits of a word and exactly.\<close>

definition hex_acc :: "u64 \<Rightarrow> u8 list \<Rightarrow> u64" where
  "hex_acc v ds = foldl (\<lambda>a d. 16 * a + word_of_int (hexchar_to_int d)) v ds"

definition hex_number :: "u8 list \<Rightarrow> nat" where
  "hex_number ds = foldl (\<lambda>a d. 16 * a + nat (hexchar_to_int d)) 0 ds"

lemma push_or_nibble:
  assumes "0 \<le> i" and "i \<le> 15"
  shows "push_bit 4 v OR ucast ((word_of_int i :: u8) AND 0xF) = 16 * v + (word_of_int i :: u64)"
proof -
  have nib: "ucast ((word_of_int i :: u8) AND 0xF) = (word_of_int i :: u64)"
    using nibble_cases [OF assms] by (elim insertE emptyE) simp_all
  have low: "\<not> bit (word_of_int i :: u64) n" if "4 \<le> n" for n
  proof -
    have "ucast ((word_of_int i :: u8) AND mask 4) = (word_of_int i :: u64)"
      using nib by (simp add: mask_eq_exp_minus_1)
    then show ?thesis
      using that by (metis bit_and_iff bit_mask_iff bit_ucast_iff not_le)
  qed
  have "push_bit 4 v OR (word_of_int i :: u64) = push_bit 4 v + word_of_int i"
    by (rule disjunctive_add [symmetric]) (use low in \<open>auto simp: bit_push_bit_iff not_le\<close>)
  then show ?thesis
    by (simp add: nib push_bit_eq_mult mult.commute)
qed

lemma word_of_hexchar_eq_minus1:
  "(word_of_int (hexchar_to_int c) :: u8) = -1 \<longleftrightarrow> \<not> is_hex c"
proof (cases "is_hex c")
  case True
  then have "0 \<le> hexchar_to_int c" and "hexchar_to_int c \<le> 15"
    using hexchar_to_int_bounds [of c] by (auto simp: is_hex_def)
  from nibble_cases [OF this] True show ?thesis
    by (elim insertE emptyE) simp_all
qed (simp add: is_hex_def)

lemma hexstr_to_int_spec:
  assumes "0 \<in> set s"
  shows "hexstr_to_int s n v =
    Inr (drop (min n (length (takeWhile is_hex s))) s,
         hex_acc v (take (min n (length (takeWhile is_hex s))) s))"
  using assms
proof (induction s n v rule: hexstr_to_int.induct)
  case (2 c s val)
  then show ?case
    by (simp add: hex_acc_def)
next
  case (3 c s n val)
  show ?case
  proof (cases "is_hex c")
    case True
    then have "0 \<le> hexchar_to_int c" and "hexchar_to_int c \<le> 15" and "c \<noteq> 0"
      using hexchar_to_int_bounds [of c] is_hex_nonzero [of c] by (auto simp: is_hex_def)
    with 3 True show ?thesis
      by (simp add: Let_def word_of_hexchar_eq_minus1 push_or_nibble hex_acc_def)
  next
    case False
    then show ?thesis
      by (simp add: Let_def word_of_hexchar_eq_minus1 hex_acc_def)
  qed
qed simp

lemma hex_number_snoc: "hex_number (ds @ [d]) = 16 * hex_number ds + nat (hexchar_to_int d)"
  by (simp add: hex_number_def)

lemma hex_number_bound: "list_all is_hex ds \<Longrightarrow> hex_number ds < 16 ^ length ds"
proof (induction ds rule: rev_induct)
  case Nil
  then show ?case by (simp add: hex_number_def)
next
  case (snoc d ds)
  then have "nat (hexchar_to_int d) \<le> 15"
    using hexchar_to_int_bounds [of d] by auto
  moreover have "hex_number ds < 16 ^ length ds"
    using snoc by simp
  ultimately show ?case
    by (simp add: hex_number_snoc)
qed

lemma hex_acc_number: "list_all is_hex ds \<Longrightarrow> hex_acc 0 ds = of_nat (hex_number ds)"
proof (induction ds rule: rev_induct)
  case Nil
  then show ?case by (simp add: hex_number_def hex_acc_def)
next
  case (snoc d ds)
  then have "0 \<le> hexchar_to_int d"
    using hexchar_to_int_bounds [of d] by (auto simp: is_hex_def)
  then have "(word_of_int (hexchar_to_int d) :: u64) = of_nat (nat (hexchar_to_int d))"
    by (simp add: of_nat_nat)
  with snoc show ?case
    by (simp add: hex_number_snoc) (simp add: hex_acc_def)
qed

lemma unat_hex_acc:
  assumes "list_all is_hex ds" and "length ds \<le> 16"
  shows "unat (hex_acc 0 ds) = hex_number ds"
proof -
  have "hex_number ds < 16 ^ length ds"
    using assms(1) by (rule hex_number_bound)
  also have "(16 :: nat) ^ length ds \<le> 16 ^ 16"
    using assms(2) by (intro power_increasing) auto
  finally show ?thesis
    using assms(1) by (simp add: hex_acc_number unat_of_nat)
qed

lemma hexstr_digits:
  assumes "list_all is_hex ds" and "length ds \<le> 16" and "0 \<in> set r" and "\<not> is_hex (hd r)"
  shows "\<exists>v. hexstr_to_int (ds @ r) 16 0 = Inr (r, v) \<and> unat v = hex_number ds"
proof -
  have "r \<noteq> []"
    using assms(3) by auto
  then have "takeWhile is_hex (ds @ r) = ds"
    using assms(1,4) by (cases r) (auto simp: list_all_iff)
  then show ?thesis
    using assms hexstr_to_int_spec [of "ds @ r" 16 0] unat_hex_acc [of ds] by simp
qed

section \<open>Properties\<close>

text \<open>Round trip of the hexadecimal codec: \<open>hex2mem\<close> reads back from the text that
  \<open>mem2hex\<close> wrote exactly the bytes that went in, and stops at the terminator.\<close>

lemma mem2hex_hex2mem:
  assumes "p + 2 * length cs < length b" and "length mem = length cs"
  shows "\<exists>b' q. mem2hex cs b p (length cs) = Inr (b', q) \<and> length b' = length b \<and> b' ! q = 0 \<and>
    hex2mem (drop p b') mem (length cs) = Inr (drop q b', cs)"
proof -
  let ?b = "patch b p (hex_encode cs @ [0])"
  have "drop p ?b = hex_encode cs @ 0 # drop (p + 2 * length cs + 1) b"
    using assms(1) by (simp add: drop_patch)
  moreover from this have "drop (p + 2 * length cs) ?b = 0 # drop (p + 2 * length cs + 1) b"
    using drop_drop [of "2 * length cs" p ?b] by (simp add: add.commute)
  moreover from this have "?b ! (p + 2 * length cs) = 0"
    using assms(1) by (simp add: Cons_nth_drop_Suc [symmetric])
  ultimately show ?thesis
    using assms by (simp add: mem2hex_patch hex2mem_encode)
qed

text \<open>\<open>hexstr_to_int\<close> with room for sixteen digits parses a hexadecimal number of up to
  sixteen digits exactly (no wrap-around) and returns a pointer to what follows it.\<close>

lemma hexstr_to_int_exact:
  assumes "list_all is_hex ds" and "length ds \<le> 16" and "0 \<in> set r" and "\<not> is_hex (hd r)"
  shows "\<exists>v. hexstr_to_int (ds @ r) 16 0 = Inr (r, v) \<and> unat v = hex_number ds"
  using assms by (rule hexstr_digits)

text \<open>\<open>strlcpy\<close> copies at most \<open>sz - 1\<close> characters, always terminates what it wrote, and
  touches no byte outside the copied text and its terminator.\<close>

lemma strlcpy_bounded:
  assumes "0 \<in> set src" and "0 < sz" and "d + min (sz - 1) (length (content src)) < length b"
  shows "strlcpy b d src sz = Inr (patch b d (take (sz - 1) (content src) @ [0]), min (sz - 1) (length (content src)))"
proof -
  obtain r where src: "src = content src @ 0 # r"
    using assms(1) unfolding content_def
    by (metis (mono_tags, lifting) dropWhile_eq_Nil_conv hd_dropWhile list.collapse takeWhile_dropWhile_id)
  have len: "length (take (sz - 1) (content src)) = min (sz - 1) (length (content src))"
    by (simp add: min.commute)
  from strlcpy_patch [of "content src" d sz b r] zero_notin_content [of src] assms(3) show ?thesis
    unfolding src [symmetric] len by simp
qed


text \<open>Comparing a C string with a literal for the length of the literal is a test for a
  prefix: this is how every packet is dispatched.\<close>

lemma strncmp_is_prefix_test:
  assumes "0 \<in> set s" and "0 \<notin> set (str t)"
  shows "\<exists>d. strncmp s (cstr t) (length t) = Inr d \<and> (d = 0 \<longleftrightarrow> take (length t) s = str t)"
  using strncmp_prefix [OF assms, of "[0]"] by (simp add: cstr_def)


end
