(* ===== verification/Gdb_State.thy ===== *)
theory Gdb_State
  imports Gdb_Util
begin

text \<open>
  The state of the library: the records of \<open>include/gdb.h\<close>, the globals of \<open>src/gdb.c\<close>,
  and the interface of the code that is not in the repository (the seL4 system calls and
  constants), which is a parameter of every definition that uses it.

  A pointer to an inferior is its index in the array \<open>inferiors\<close>, a pointer to a thread the
  pair of the indices of its inferior and of its slot in \<open>threads\<close>; the null pointer is
  \<open>None\<close>. Arrays of a fixed extent are functions from indices; every access whose index the
  code does not bound is checked by the model.
\<close>

section \<open>Constants\<close>

definition MAX_PDS :: nat where
  "MAX_PDS = 64"

definition MAX_THREADS :: nat where
  "MAX_THREADS = 256"

definition MAX_SW_BREAKS :: nat where
  "MAX_SW_BREAKS = 32"

definition BUFSIZE :: nat where
  "BUFSIZE = 2048"

definition INT_MAX :: nat where
  "INT_MAX = 2147483647"

section \<open>Registers\<close>

text \<open>
  The registers of \<open>seL4_UserContext\<close> that the library names. The fields it does not name
  are the record's extension.
\<close>

record user_context =
  uc_x0 :: u64
  uc_x1 :: u64
  uc_x2 :: u64
  uc_x3 :: u64
  uc_x4 :: u64
  uc_x5 :: u64
  uc_x6 :: u64
  uc_x7 :: u64
  uc_x8 :: u64
  uc_x9 :: u64
  uc_x10 :: u64
  uc_x11 :: u64
  uc_x12 :: u64
  uc_x13 :: u64
  uc_x14 :: u64
  uc_x15 :: u64
  uc_x16 :: u64
  uc_x17 :: u64
  uc_x18 :: u64
  uc_x19 :: u64
  uc_x20 :: u64
  uc_x21 :: u64
  uc_x22 :: u64
  uc_x23 :: u64
  uc_x24 :: u64
  uc_x25 :: u64
  uc_x26 :: u64
  uc_x27 :: u64
  uc_x28 :: u64
  uc_x29 :: u64
  uc_x30 :: u64
  uc_sp :: u64
  uc_pc :: u64
  uc_spsr :: u64

definition zero_context :: user_context where
  "zero_context = \<lparr>uc_x0 = 0, uc_x1 = 0, uc_x2 = 0, uc_x3 = 0, uc_x4 = 0, uc_x5 = 0, uc_x6 = 0,
     uc_x7 = 0, uc_x8 = 0, uc_x9 = 0, uc_x10 = 0, uc_x11 = 0, uc_x12 = 0, uc_x13 = 0, uc_x14 = 0,
     uc_x15 = 0, uc_x16 = 0, uc_x17 = 0, uc_x18 = 0, uc_x19 = 0, uc_x20 = 0, uc_x21 = 0,
     uc_x22 = 0, uc_x23 = 0, uc_x24 = 0, uc_x25 = 0, uc_x26 = 0, uc_x27 = 0, uc_x28 = 0,
     uc_x29 = 0, uc_x30 = 0, uc_sp = 0, uc_pc = 0, uc_spsr = 0\<rparr>"

section \<open>The kernel interface\<close>

text \<open>
  The system calls take and return the kernel state. A call that can fail returns its error
  code, zero for success. \<open>TCB_ReadRegisters\<close> takes the register structure it may fill in.
\<close>

datatype mr = ExceptionReason | FaultIP | TriggerAddress | BreakpointNumber

record ('k, 'r) kernel =
  seL4_NumExclusiveBreakpoints :: nat
  seL4_NumExclusiveWatchpoints :: nat
  seL4_FirstBreakpoint :: u64
  seL4_FirstWatchpoint :: u64
  seL4_InstructionBreakpoint :: u64
  seL4_DataBreakpoint :: u64
  seL4_SingleStep :: u64
  seL4_SoftwareBreakRequest :: u64
  seL4_BreakOnRead :: u64
  seL4_BreakOnWrite :: u64
  seL4_BreakOnReadWrite :: u64
  seL4_Fault_DebugException :: u64
  VSpace_Read_Word :: "'k \<Rightarrow> u64 \<Rightarrow> u64 \<Rightarrow> (u64 \<times> u64) \<times> 'k"
  VSpace_Write_Word :: "'k \<Rightarrow> u64 \<Rightarrow> u64 \<Rightarrow> u64 \<Rightarrow> u64 \<times> 'k"
  TCB_SetBreakpoint :: "'k \<Rightarrow> u64 \<Rightarrow> u64 \<Rightarrow> u64 \<Rightarrow> u64 \<Rightarrow> u64 \<Rightarrow> u64 \<Rightarrow> u64 \<times> 'k"
  TCB_UnsetBreakpoint :: "'k \<Rightarrow> u64 \<Rightarrow> u64 \<Rightarrow> 'k"
  TCB_ConfigureSingleStepping :: "'k \<Rightarrow> u64 \<Rightarrow> u64 \<Rightarrow> u64 \<Rightarrow> 'k"
  TCB_ReadRegisters :: "'k \<Rightarrow> u64 \<Rightarrow> 'r user_context_scheme \<Rightarrow> (u64 \<times> 'r user_context_scheme) \<times> 'k"
  TCB_WriteRegisters :: "'k \<Rightarrow> u64 \<Rightarrow> 'r user_context_scheme \<Rightarrow> u64 \<times> 'k"
  TCB_Suspend :: "'k \<Rightarrow> u64 \<Rightarrow> 'k"
  TCB_Resume :: "'k \<Rightarrow> u64 \<Rightarrow> 'k"
  GetMR :: "'k \<Rightarrow> mr \<Rightarrow> u64"

section \<open>Breakpoints, threads, inferiors\<close>

record hw_watch =
  hw_addr :: u64
  hw_size :: u64
  hw_type :: u64

record hw_break =
  hb_addr :: u64

record sw_break =
  sb_addr :: u64
  sb_orig_word :: u64

record gdb_thread =
  t_enabled :: bool
  t_wakeup :: bool
  t_ss_enabled :: bool
  t_inferior :: "nat option"
  t_id :: u64
  t_gdb_id :: u16
  t_tcb :: u64

record gdb_inferior =
  i_enabled :: bool
  i_id :: u64
  i_gdb_id :: u16
  i_vspace :: u64
  i_curr_thread_idx :: nat
  i_threads :: "nat \<Rightarrow> gdb_thread"
  i_sw :: "nat \<Rightarrow> sw_break"
  i_hb :: "nat \<Rightarrow> hw_break"
  i_hw :: "nat \<Rightarrow> hw_watch"

text \<open>What \<open>memset\<close> to zero and static initialisation leave.\<close>

definition zero_thread :: gdb_thread where
  "zero_thread = \<lparr>t_enabled = False, t_wakeup = False, t_ss_enabled = False, t_inferior = None,
     t_id = 0, t_gdb_id = 0, t_tcb = 0\<rparr>"

definition zero_sw :: sw_break where
  "zero_sw = \<lparr>sb_addr = 0, sb_orig_word = 0\<rparr>"

definition zero_hb :: hw_break where
  "zero_hb = \<lparr>hb_addr = 0\<rparr>"

definition zero_hw :: hw_watch where
  "zero_hw = \<lparr>hw_addr = 0, hw_size = 0, hw_type = 0\<rparr>"

definition zero_inferior :: gdb_inferior where
  "zero_inferior = \<lparr>i_enabled = False, i_id = 0, i_gdb_id = 0, i_vspace = 0, i_curr_thread_idx = 0,
     i_threads = (\<lambda>_. zero_thread), i_sw = (\<lambda>_. zero_sw), i_hb = (\<lambda>_. zero_hb), i_hw = (\<lambda>_. zero_hw)\<rparr>"

datatype DebuggerError = NoError | AlreadyRegistered | InsufficientResources | InvalidArguments

section \<open>The library's state\<close>

record 'k gdb =
  curr_inferior_idx :: nat
  inferiors :: "nat \<Rightarrow> gdb_inferior"
  target_thread :: "(nat \<times> nat) option"
  handled :: "nat \<Rightarrow> nat \<Rightarrow> bool"
  ks :: 'k

definition init_gdb :: "'k \<Rightarrow> 'k gdb" where
  "init_gdb k = \<lparr>curr_inferior_idx = 0, inferiors = (\<lambda>_. zero_inferior), target_thread = None,
     handled = (\<lambda>_ _. False), ks = k\<rparr>"

definition upd_inf :: "nat \<Rightarrow> (gdb_inferior \<Rightarrow> gdb_inferior) \<Rightarrow> 'k gdb \<Rightarrow> 'k gdb" where
  "upd_inf i f s = s\<lparr>inferiors := (inferiors s)(i := f (inferiors s i))\<rparr>"

definition upd_thr :: "nat \<Rightarrow> nat \<Rightarrow> (gdb_thread \<Rightarrow> gdb_thread) \<Rightarrow> 'k gdb \<Rightarrow> 'k gdb" where
  "upd_thr i j f = upd_inf i (\<lambda>I. I\<lparr>i_threads := (i_threads I)(j := f (i_threads I j))\<rparr>)"

abbreviation thr :: "'k gdb \<Rightarrow> nat \<Rightarrow> nat \<Rightarrow> gdb_thread" where
  "thr s i j \<equiv> i_threads (inferiors s i) j"

text \<open>Dereferencing a pointer that may be null.\<close>

definition deref :: "'a option \<Rightarrow> ('a \<Rightarrow> 'b res) \<Rightarrow> 'b res" where
  "deref p f = (case p of None \<Rightarrow> Inl NullDeref | Some a \<Rightarrow> f a)"

lemma deref_None [simp, res_simps]: "deref None f = Inl NullDeref"
  by (simp add: deref_def)

lemma deref_Some [simp, res_simps]: "deref (Some a) f = f a"
  by (simp add: deref_def)

lemma deref_eq_Inr_iff: "deref p f = Inr b \<longleftrightarrow> (\<exists>a. p = Some a \<and> f a = Inr b)"
  by (cases p) auto

lemma upd_inf_sel [simp]:
  "curr_inferior_idx (upd_inf i f s) = curr_inferior_idx s"
  "target_thread (upd_inf i f s) = target_thread s"
  "handled (upd_inf i f s) = handled s"
  "ks (upd_inf i f s) = ks s"
  "inferiors (upd_inf i f s) = (inferiors s)(i := f (inferiors s i))"
  by (simp_all add: upd_inf_def)

lemma upd_thr_sel [simp]:
  "curr_inferior_idx (upd_thr i j f s) = curr_inferior_idx s"
  "target_thread (upd_thr i j f s) = target_thread s"
  "handled (upd_thr i j f s) = handled s"
  "ks (upd_thr i j f s) = ks s"
  "inferiors (upd_thr i j f s) =
     (inferiors s)(i := (inferiors s i)\<lparr>i_threads := (i_threads (inferiors s i))(j := f (thr s i j))\<rparr>)"
  by (simp_all add: upd_thr_def)

end
