(* ===== verification/Gdb_Regs.thy ===== *)
theory Gdb_Regs
  imports Gdb_State
begin

text \<open>
  Registers as hexadecimal text: \<open>regs2hex\<close> and \<open>hex2regs\<close> of
  \<open>src/arch/arm/64/gdb.c\<close>. The code converts the general purpose registers, the stack
  pointer and the program counter in this order, eight bytes each, and the first four bytes
  of the status register.
\<close>

type_synonym 'r field =
  "('r user_context_scheme \<Rightarrow> u64) \<times> ((u64 \<Rightarrow> u64) \<Rightarrow> 'r user_context_scheme \<Rightarrow> 'r user_context_scheme)"

text \<open>The registers that \<open>regs2hex\<close> converts one after the other, and those that \<open>hex2regs\<close>
  stores to.\<close>

definition hex_sources :: "('r user_context_scheme \<Rightarrow> u64) list" where
  "hex_sources =
  [uc_x0, uc_x1, uc_x2, uc_x3, uc_x4, uc_x5, uc_x6, uc_x7, uc_x8, uc_x9,
   uc_x10, uc_x11, uc_x12, uc_x13, uc_x14, uc_x15, uc_x16, uc_x17, uc_x18, uc_x19,
   uc_x20, uc_x21, uc_x22, uc_x23, uc_x24, uc_x25, uc_x26, uc_x27, uc_x28, uc_x29,
   uc_x30, uc_sp, uc_pc]"

definition hex_targets :: "'r field list" where
  "hex_targets =
  [(uc_x0, uc_x0_update), (uc_x1, uc_x1_update), (uc_x2, uc_x2_update),
   (uc_x3, uc_x3_update), (uc_x4, uc_x4_update), (uc_x5, uc_x5_update),
   (uc_x6, uc_x6_update), (uc_x7, uc_x7_update), (uc_x8, uc_x8_update),
   (uc_x9, uc_x9_update), (uc_x10, uc_x10_update), (uc_x11, uc_x11_update),
   (uc_x12, uc_x12_update), (uc_x13, uc_x13_update), (uc_x14, uc_x14_update),
   (uc_x15, uc_x15_update), (uc_x16, uc_x16_update), (uc_x17, uc_x17_update),
   (uc_x18, uc_x18_update), (uc_x19, uc_x19_update), (uc_x20, uc_x20_update),
   (uc_x21, uc_x21_update), (uc_x22, uc_x22_update), (uc_x23, uc_x23_update),
   (uc_x24, uc_x24_update), (uc_x25, uc_x25_update), (uc_x26, uc_x26_update),
   (uc_x27, uc_x27_update), (uc_x28, uc_x28_update), (uc_x29, uc_x29_update),
   (uc_x30, uc_x30_update), (uc_sp, uc_sp_update), (uc_pc, uc_pc_update)]"

text \<open>\<open>mem2hex\<close> and \<open>hex2mem\<close> on the first \<open>n\<close> bytes of a word.\<close>

definition word2hex :: "nat \<Rightarrow> u64 \<Rightarrow> u8 list \<Rightarrow> nat \<Rightarrow> (u8 list \<times> nat) res" where
  "word2hex n w buf p = mem2hex (word_bytes n w) buf p n"

definition hex2word :: "nat \<Rightarrow> cptr \<Rightarrow> u64 \<Rightarrow> (cptr \<times> u64) res" where
  "hex2word n buf w = bindR (hex2mem buf (word_bytes n w) n) (\<lambda>(buf', bs). Inr (buf', set_bytes w 0 bs))"

fun fields2hex :: "('r user_context_scheme \<Rightarrow> u64) list \<Rightarrow> 'r user_context_scheme \<Rightarrow> u8 list \<Rightarrow> nat \<Rightarrow> (u8 list \<times> nat) res" where
  "fields2hex [] regs buf p = Inr (buf, p)"
| "fields2hex (get # fs) regs buf p =
     bindR (word2hex 8 (get regs) buf p) (\<lambda>(buf', p'). fields2hex fs regs buf' p')"

fun hex2fields :: "'r field list \<Rightarrow> 'r user_context_scheme \<Rightarrow> cptr \<Rightarrow> (cptr \<times> 'r user_context_scheme) res" where
  "hex2fields [] regs buf = Inr (buf, regs)"
| "hex2fields ((get, upd) # fs) regs buf =
     bindR (hex2word 8 buf (get regs)) (\<lambda>(buf', w). hex2fields fs (upd (\<lambda>_. w) regs) buf')"

definition regs2hex :: "'r user_context_scheme \<Rightarrow> u8 list \<Rightarrow> nat \<Rightarrow> (u8 list \<times> nat) res" where
  "regs2hex regs buf p =
     bindR (fields2hex hex_sources regs buf p) (\<lambda>(buf', p'). word2hex 4 (uc_spsr regs) buf' p')"

definition hex2regs :: "'r user_context_scheme \<Rightarrow> cptr \<Rightarrow> (cptr \<times> 'r user_context_scheme) res" where
  "hex2regs regs buf =
     bindR (hex2fields hex_targets regs buf) (\<lambda>(buf', regs').
     bindR (hex2word 4 buf' (uc_spsr regs')) (\<lambda>(buf'', w). Inr (buf'', regs'\<lparr>uc_spsr := w\<rparr>)))"

section \<open>What the conversions compute\<close>

lemma word2hex_patch:
  "p + 2 * n < length b \<Longrightarrow> word2hex n w b p = Inr (patch b p (hex_encode (word_bytes n w) @ [0]), p + 2 * n)"
  using mem2hex_patch [of n "word_bytes n w" p b] by (simp add: word2hex_def)

lemma hex2word_encode:
  "n \<le> 8 \<Longrightarrow> hex2word n (hex_encode (word_bytes n v) @ r) w = Inr (r, set_bytes w 0 (word_bytes n v))"
  using hex2mem_encode [of "word_bytes n v" "word_bytes n w" r] by (simp add: hex2word_def)

text \<open>
  The register packet as GDB numbers the registers of AArch64: the general purpose registers
  from 0 to 30, then the stack pointer and the program counter, each of eight bytes, and the
  status register, of four.
\<close>

definition gdb_registers :: "'r user_context_scheme \<Rightarrow> u64 list" where
  "gdb_registers r =
  [uc_x0 r, uc_x1 r, uc_x2 r, uc_x3 r, uc_x4 r, uc_x5 r, uc_x6 r, uc_x7 r,
   uc_x8 r, uc_x9 r, uc_x10 r, uc_x11 r, uc_x12 r, uc_x13 r, uc_x14 r, uc_x15 r,
   uc_x16 r, uc_x17 r, uc_x18 r, uc_x19 r, uc_x20 r, uc_x21 r, uc_x22 r, uc_x23 r,
   uc_x24 r, uc_x25 r, uc_x26 r, uc_x27 r, uc_x28 r, uc_x29 r, uc_x30 r, uc_sp r,
   uc_pc r]"

definition words_bytes :: "u64 list \<Rightarrow> u8 list" where
  "words_bytes ws = concat (map (word_bytes 8) ws)"

definition reg_bytes :: "'r user_context_scheme \<Rightarrow> u8 list" where
  "reg_bytes regs = words_bytes (gdb_registers regs) @ word_bytes 4 (uc_spsr regs)"

lemma words_bytes_simps [simp]:
  "words_bytes [] = []" "words_bytes (w # ws) = word_bytes 8 w @ words_bytes ws"
  by (simp_all add: words_bytes_def)

lemma length_words_bytes [simp]: "length (words_bytes ws) = 8 * length ws"
  by (induction ws) auto

lemma length_gdb_registers [simp]: "length (gdb_registers r) = 33"
  by (simp add: gdb_registers_def)

lemma length_reg_bytes [simp]: "length (reg_bytes regs) = 268"
  by (simp add: reg_bytes_def)

text \<open>The code goes through the registers in this order.\<close>

lemma hex_sources_registers: "map (\<lambda>get. get r) hex_sources = gdb_registers r"
  by (simp add: hex_sources_def gdb_registers_def)

lemma length_hex_sources [simp]: "length (hex_sources :: ('r user_context_scheme \<Rightarrow> u64) list) = 33"
  by (simp add: hex_sources_def)

lemma length_hex_targets [simp]: "length (hex_targets :: 'r field list) = 33"
  by (simp add: hex_targets_def)

lemma fields2hex_patch:
  "p + 16 * length fs + 2 * n < length b \<Longrightarrow>
     bindR (fields2hex fs regs b p) (\<lambda>(b', p'). word2hex n w b' p') =
     Inr (patch b p (hex_encode (words_bytes (map (\<lambda>get. get regs) fs) @ word_bytes n w) @ [0]), p + 16 * length fs + 2 * n)"
proof (induction fs arbitrary: b p)
  case Nil
  then show ?case
    by (simp add: word2hex_patch)
next
  case (Cons get fs)
  define e where "e = hex_encode (word_bytes 8 (get regs))"
  have e: "length e = 16"
    by (simp add: e_def)
  have "word2hex 8 (get regs) b p = Inr (patch b p (e @ [0]), p + 16)"
    using Cons.prems word2hex_patch [of p 8 b "get regs"] by (simp add: e_def)
  then show ?case
    using Cons.prems Cons.IH [of "p + 16" "patch b p (e @ [0])"] e
      patch_overlap [of p e "[0]" b "hex_encode (words_bytes (map (\<lambda>get. get regs) fs) @ word_bytes n w) @ [0]"]
    by (simp add: bindR_assoc encode_all_append e_def [symmetric])
qed

lemma regs2hex_patch:
  assumes "p + 536 < length b"
  shows "regs2hex regs b p = Inr (patch b p (hex_encode (reg_bytes regs) @ [0]), p + 536)"
  using fields2hex_patch [of p hex_sources 4 b regs "uc_spsr regs"] assms
  by (simp add: regs2hex_def reg_bytes_def hex_sources_registers)

lemma hex2fields_encode:
  "length fs = length ws \<Longrightarrow> hex2fields fs r (hex_encode (words_bytes ws) @ rest) =
     Inr (rest, fold (\<lambda>((get, upd), w) r. upd (\<lambda>_. w) r) (zip fs ws) r)"
proof (induction fs ws arbitrary: r rule: list_induct2)
  case (Cons f fs w ws)
  obtain get upd where f: "f = (get, upd)"
    by fastforce
  have "set_bytes x 0 (word_bytes 8 w) = w" for x :: u64
    by (rule set_bytes_word_bytes) simp
  then show ?case
    using Cons by (simp add: f encode_all_append hex2word_encode)
qed simp

text \<open>What reading a register packet into a structure leaves there.\<close>

definition with_registers :: "'r user_context_scheme \<Rightarrow> 'r user_context_scheme \<Rightarrow> 'r user_context_scheme" where
  "with_registers v r = (fold (\<lambda>((get, upd), w) r. upd (\<lambda>_. w) r) (zip hex_targets (gdb_registers v)) r)
     \<lparr>uc_spsr := set_bytes (uc_spsr r) 0 (word_bytes 4 (uc_spsr v))\<rparr>"

lemma hex2regs_encode: "hex2regs r (hex_encode (reg_bytes v) @ rest) = Inr (rest, with_registers v r)"
proof -
  have "uc_spsr (fold (\<lambda>((get, upd), w) r. upd (\<lambda>_. w) r) (zip hex_targets (gdb_registers v)) r) = uc_spsr r"
    by (simp add: hex_targets_def gdb_registers_def)
  then show ?thesis
    by (simp add: hex2regs_def reg_bytes_def encode_all_append hex2fields_encode hex2word_encode with_registers_def)
qed

lemma with_registers_sel:
  "gdb_registers (with_registers v r) = gdb_registers v"
  "word_bytes 4 (uc_spsr (with_registers v r)) = word_bytes 4 (uc_spsr v)"
  "user_context.more (with_registers v r) = user_context.more r"
  using word_bytes_set_bytes [of "word_bytes 4 (uc_spsr v)" "uc_spsr r"]
  by (simp_all add: with_registers_def hex_targets_def gdb_registers_def)

lemma with_registers_bytes: "reg_bytes (with_registers v r) = reg_bytes v"
  by (simp add: reg_bytes_def with_registers_sel)

section \<open>Properties\<close>

text \<open>Round trip of the register packet: reading back the text that \<open>regs2hex\<close> wrote
  restores every register of the packet, from any register structure to start with, and leaves
  the fields the packet does not carry alone.\<close>

lemma regs_round_trip:
  fixes v r :: "'r user_context_scheme"
  assumes "536 < length b"
  shows "\<exists>b' w. regs2hex v b 0 = Inr (b', 536) \<and> length (content b') = 536 \<and>
    hex2regs r b' = Inr (drop 536 b', w) \<and> reg_bytes w = reg_bytes v \<and>
    user_context.more w = user_context.more r"
proof -
  let ?t = "hex_encode (reg_bytes v)"
  have "regs2hex v b 0 = Inr (patch b 0 (?t @ [0]), 536)"
    using regs2hex_patch [of 0 b v] assms by simp
  moreover have "content (patch b 0 (?t @ [0])) = ?t"
    by (rule content_patch) (rule hex.encode_no_terminator)
  moreover have "patch b 0 (?t @ [0]) = ?t @ 0 # drop 537 b"
    by (simp add: nth_patch_zero)
  ultimately show ?thesis
    using hex2regs_encode [of r v "0 # drop 537 b"] with_registers_bytes [of v r] with_registers_sel(3) [of v r] by simp
qed

end
