(* ===== verification/Gdb_Arch.thy ===== *)
theory Gdb_Arch
  imports Gdb_Regs
begin

unbundle bit_operations_syntax

text \<open>
  Breakpoints, watchpoints, single-stepping and debuggee memory:
  \<open>src/arch/arm/64/gdb.c\<close>. Software breakpoints rewrite an instruction in the memory of
  the inferior and remember the word they replaced; hardware breakpoints and watchpoints are
  installed in every enabled thread of the inferior through the kernel and recorded in a
  table; the memory routines read and write the memory of the inferior word by word.
\<close>

section \<open>Software breakpoints\<close>

definition AARCH64_BREAK_KGDB_DYN_DBG :: u64 where
  "AARCH64_BREAK_KGDB_DYN_DBG = 0xd4200000 OR push_bit 5 0x400"

definition set_software_breakpoint ::
  "('k, 'r) kernel \<Rightarrow> nat \<Rightarrow> u64 \<Rightarrow> 'k gdb \<Rightarrow> bool \<times> 'k gdb" where
  "set_software_breakpoint K i address s =
    (let vs = i_vspace (inferiors s i);
         ((err, val), k1) = VSpace_Read_Word K (ks s) vs address;
         s1 = s\<lparr>ks := k1\<rparr>
     in if err \<noteq> 0 then (False, s1)
        else let tmp = \<lparr>sb_addr = address, sb_orig_word = val\<rparr>;
                 val' = AARCH64_BREAK_KGDB_DYN_DBG OR (0xFFFFFFFF00000000 AND val);
                 (werr, k2) = VSpace_Write_Word K k1 vs address val';
                 s2 = s\<lparr>ks := k2\<rparr>
             in if werr \<noteq> 0 then (False, s2)
                else (case List.find (\<lambda>n. sb_addr (i_sw (inferiors s i) n) = 0) [0..<MAX_SW_BREAKS] of
                        Some n \<Rightarrow> (True, upd_inf i (\<lambda>I. I\<lparr>i_sw := (i_sw I)(n := tmp)\<rparr>) s2)
                      | None \<Rightarrow> (let (_, k3) = VSpace_Write_Word K k2 vs address (sb_orig_word tmp)
                                 in (False, s\<lparr>ks := k3\<rparr>))))"

definition unset_software_breakpoint ::
  "('k, 'r) kernel \<Rightarrow> nat \<Rightarrow> u64 \<Rightarrow> 'k gdb \<Rightarrow> bool \<times> 'k gdb" where
  "unset_software_breakpoint K i address s =
    (case List.find (\<lambda>n. sb_addr (i_sw (inferiors s i) n) = address) [0..<MAX_SW_BREAKS] of
       Some n \<Rightarrow>
         (let (err, k1) = VSpace_Write_Word K (ks s) (i_vspace (inferiors s i)) address
                            (sb_orig_word (i_sw (inferiors s i) n));
              s1 = s\<lparr>ks := k1\<rparr>
          in (err = 0,
              if err = 0
              then upd_inf i (\<lambda>I. I\<lparr>i_sw := (i_sw I)(n := (i_sw I n)\<lparr>sb_addr := 0\<rparr>)\<rparr>) s1
              else s1))
     | None \<Rightarrow> (True, s))"

section \<open>Hardware breakpoints and watchpoints\<close>

text \<open>The loop over the threads of an inferior that both kinds share: it stops at the first error.\<close>

fun set_in_threads ::
  "('k, 'r) kernel \<Rightarrow> (nat \<Rightarrow> gdb_thread) \<Rightarrow> u64 \<Rightarrow> u64 \<Rightarrow> u64 \<Rightarrow> u64 \<Rightarrow> u64 \<Rightarrow> nat list \<Rightarrow> 'k \<Rightarrow> bool \<times> 'k" where
  "set_in_threads K ths num addr type sz rw [] k = (True, k)"
| "set_in_threads K ths num addr type sz rw (j # js) k =
     (if t_enabled (ths j)
      then (let (err, k') = TCB_SetBreakpoint K k (t_tcb (ths j)) num addr type sz rw
            in if err \<noteq> 0 then (False, k') else set_in_threads K ths num addr type sz rw js k')
      else set_in_threads K ths num addr type sz rw js k)"

definition unset_in_threads ::
  "('k, 'r) kernel \<Rightarrow> (nat \<Rightarrow> gdb_thread) \<Rightarrow> u64 \<Rightarrow> nat list \<Rightarrow> 'k \<Rightarrow> 'k" where
  "unset_in_threads K ths num js k =
     fold (\<lambda>j k. if t_enabled (ths j) then TCB_UnsetBreakpoint K k (t_tcb (ths j)) num else k) js k"

definition set_hardware_breakpoint ::
  "('k, 'r) kernel \<Rightarrow> nat \<Rightarrow> u64 \<Rightarrow> 'k gdb \<Rightarrow> bool \<times> 'k gdb" where
  "set_hardware_breakpoint K i address s =
    (case List.find (\<lambda>n. hb_addr (i_hb (inferiors s i) n) = 0) [0..<seL4_NumExclusiveBreakpoints K] of
       None \<Rightarrow> (False, s)
     | Some n \<Rightarrow>
         (let (ok, k') = set_in_threads K (i_threads (inferiors s i)) (seL4_FirstBreakpoint K + of_nat n)
                address (seL4_InstructionBreakpoint K) 0 (seL4_BreakOnRead K) [0..<MAX_THREADS] (ks s);
              s' = s\<lparr>ks := k'\<rparr>
          in if ok
             then (True, upd_inf i (\<lambda>I. I\<lparr>i_hb := (i_hb I)(n := (i_hb I n)\<lparr>hb_addr := address\<rparr>)\<rparr>) s')
             else (False, s')))"

definition thread_enable_nth_hw_breakpoint ::
  "('k, 'r) kernel \<Rightarrow> nat \<times> nat \<Rightarrow> nat \<Rightarrow> 'k gdb \<Rightarrow> (bool \<times> 'k gdb) res" where
  "thread_enable_nth_hw_breakpoint K p n s =
    (let t = thr s (fst p) (snd p)
     in assertR (n < seL4_NumExclusiveBreakpoints K) (deref (t_inferior t) (\<lambda>i.
        let bp = i_hb (inferiors s i) n
        in if hb_addr bp = 0 then Inr (True, s)
           else let (err, k') = TCB_SetBreakpoint K (ks s) (t_tcb t) (seL4_FirstBreakpoint K + of_nat n)
                      (hb_addr bp) (seL4_InstructionBreakpoint K) 0 (seL4_BreakOnRead K)
                in Inr (err = 0, s\<lparr>ks := k'\<rparr>))))"

definition unset_hardware_breakpoint ::
  "('k, 'r) kernel \<Rightarrow> nat \<Rightarrow> u64 \<Rightarrow> 'k gdb \<Rightarrow> bool \<times> 'k gdb" where
  "unset_hardware_breakpoint K i address s =
    (case List.find (\<lambda>n. hb_addr (i_hb (inferiors s i) n) = address) [0..<seL4_NumExclusiveBreakpoints K] of
       None \<Rightarrow> (False, s)
     | Some n \<Rightarrow>
         (True, upd_inf i (\<lambda>I. I\<lparr>i_hb := (i_hb I)(n := (i_hb I n)\<lparr>hb_addr := 0\<rparr>)\<rparr>)
            (s\<lparr>ks := unset_in_threads K (i_threads (inferiors s i)) (seL4_FirstBreakpoint K + of_nat n)
                       [0..<MAX_THREADS] (ks s)\<rparr>)))"

definition set_hardware_watchpoint ::
  "('k, 'r) kernel \<Rightarrow> nat \<Rightarrow> u64 \<Rightarrow> u64 \<Rightarrow> u64 \<Rightarrow> 'k gdb \<Rightarrow> bool \<times> 'k gdb" where
  "set_hardware_watchpoint K i address type sz s =
    (case List.find (\<lambda>n. hw_addr (i_hw (inferiors s i) n) = 0) [0..<seL4_NumExclusiveWatchpoints K] of
       None \<Rightarrow> (False, s)
     | Some n \<Rightarrow>
         (let (ok, k') = set_in_threads K (i_threads (inferiors s i)) (seL4_FirstWatchpoint K + of_nat n)
                address (seL4_DataBreakpoint K) sz type [0..<MAX_THREADS] (ks s);
              s' = s\<lparr>ks := k'\<rparr>
          in if ok
             then (True, upd_inf i (\<lambda>I. I\<lparr>i_hw := (i_hw I)(n :=
                     \<lparr>hw_addr = address, hw_size = sz, hw_type = type\<rparr>)\<rparr>) s')
             else (False, s')))"

definition thread_enable_nth_hw_watchpoint ::
  "('k, 'r) kernel \<Rightarrow> nat \<times> nat \<Rightarrow> nat \<Rightarrow> 'k gdb \<Rightarrow> (bool \<times> 'k gdb) res" where
  "thread_enable_nth_hw_watchpoint K p n s =
    (let t = thr s (fst p) (snd p)
     in assertR (n < seL4_NumExclusiveWatchpoints K) (deref (t_inferior t) (\<lambda>i.
        let wp = i_hw (inferiors s i) n
        in if hw_addr wp = 0 then Inr (True, s)
           else let (err, k') = TCB_SetBreakpoint K (ks s) (t_tcb t) (seL4_FirstWatchpoint K + of_nat n)
                      (hw_addr wp) (seL4_DataBreakpoint K) (hw_size wp) (hw_type wp)
                in Inr (err = 0, s\<lparr>ks := k'\<rparr>))))"

definition unset_hardware_watchpoint ::
  "('k, 'r) kernel \<Rightarrow> nat \<Rightarrow> u64 \<Rightarrow> u64 \<Rightarrow> u64 \<Rightarrow> 'k gdb \<Rightarrow> bool \<times> 'k gdb" where
  "unset_hardware_watchpoint K i address type sz s =
    (case List.find (\<lambda>n. hw_addr (i_hw (inferiors s i) n) = address \<and>
                         hw_type (i_hw (inferiors s i) n) = type \<and>
                         hw_size (i_hw (inferiors s i) n) = sz) [0..<seL4_NumExclusiveWatchpoints K] of
       None \<Rightarrow> (False, s)
     | Some n \<Rightarrow>
         (True, upd_inf i (\<lambda>I. I\<lparr>i_hw := (i_hw I)(n := (i_hw I n)\<lparr>hw_addr := 0\<rparr>)\<rparr>)
            (s\<lparr>ks := unset_in_threads K (i_threads (inferiors s i)) (seL4_FirstWatchpoint K + of_nat n)
                       [0..<MAX_THREADS] (ks s)\<rparr>)))"

section \<open>Single-stepping\<close>

definition enable_single_step :: "('k, 'r) kernel \<Rightarrow> nat \<times> nat \<Rightarrow> 'k gdb \<Rightarrow> bool \<times> 'k gdb" where
  "enable_single_step K p s =
    (let s1 = upd_thr (fst p) (snd p) (\<lambda>t. t\<lparr>t_ss_enabled := True\<rparr>) s
     in (True, s1\<lparr>ks := TCB_ConfigureSingleStepping K (ks s1) (t_tcb (thr s1 (fst p) (snd p))) 0 1\<rparr>))"

definition disable_single_step :: "('k, 'r) kernel \<Rightarrow> nat \<times> nat \<Rightarrow> 'k gdb \<Rightarrow> bool \<times> 'k gdb" where
  "disable_single_step K p s =
    (True, s\<lparr>ks := TCB_ConfigureSingleStepping K (ks s) (t_tcb (thr s (fst p) (snd p))) 0 0\<rparr>)"

section \<open>Debuggee memory\<close>

text \<open>
  \<open>inf_mem2hex\<close> returns the null pointer with an error code (\<open>Inl\<close>) or the end of the text
  it wrote (\<open>Inr\<close>). In the loops, \<open>i\<close> is the loop counter and the last numeral the number
  of iterations left.
\<close>

fun inf_mem2hex_loop ::
  "('k, 'r) kernel \<Rightarrow> u64 \<Rightarrow> u64 \<Rightarrow> u64 \<Rightarrow> u8 list \<Rightarrow> nat \<Rightarrow> 'k \<Rightarrow> nat \<Rightarrow> nat \<Rightarrow> ((u64 + nat) \<times> u8 list \<times> 'k) res" where
  "inf_mem2hex_loop K vs mem curr_word buf p k i 0 = bindR (put buf p 0) (\<lambda>buf'. Inr (Inr p, buf', k))"
| "inf_mem2hex_loop K vs mem curr_word buf p k i (Suc n) =
     (let ((err, val), k1) = (if i mod 8 = 0 then VSpace_Read_Word K k vs mem else ((0, curr_word), k));
          mem1 = (if i mod 8 = 0 then mem + 8 else mem)
      in if err \<noteq> 0 then Inr (Inl err, buf, k1)
         else let c = get_byte val (i mod 8)
              in bindR (put buf p (hex_hi c)) (\<lambda>buf1.
                 bindR (put buf1 (p + 1) (hex_lo c)) (\<lambda>buf2.
                 inf_mem2hex_loop K vs mem1 val buf2 (p + 2) k1 (i + 1) n)))"

definition inf_mem2hex ::
  "('k, 'r) kernel \<Rightarrow> nat \<times> nat \<Rightarrow> u64 \<Rightarrow> u8 list \<Rightarrow> nat \<Rightarrow> int \<Rightarrow> 'k gdb \<Rightarrow> ((u64 + nat) \<times> u8 list \<times> 'k gdb) res" where
  "inf_mem2hex K t mem buf p sz s =
    (if sz \<le> 0 then bindR (put buf p 0) (\<lambda>buf'. Inr (Inr p, buf', s))
     else deref (t_inferior (thr s (fst t) (snd t))) (\<lambda>i.
       bindR (inf_mem2hex_loop K (i_vspace (inferiors s i)) mem 0 buf p (ks s) 0 (nat sz)) (\<lambda>(r, buf', k').
       Inr (r, buf', s\<lparr>ks := k'\<rparr>))))"

fun inf_hex2mem_loop ::
  "('k, 'r) kernel \<Rightarrow> u64 \<Rightarrow> cptr \<Rightarrow> u64 \<Rightarrow> u64 \<Rightarrow> 'k \<Rightarrow> nat \<Rightarrow> nat \<Rightarrow> (u64 \<times> 'k) res" where
  "inf_hex2mem_loop K vs buf mem curr_word k i 0 = Inr (mem + of_nat i, k)"
| "inf_hex2mem_loop K vs buf mem curr_word k i (Suc n) =
     (let ((err, val), k1) = (if i mod 8 = 0 then VSpace_Read_Word K k vs mem else ((0, curr_word), k))
      in if err \<noteq> 0 then Inr (mem + of_nat i, k1)
         else (case buf of
                 a # b # buf' \<Rightarrow>
                   (let curr_word1 = set_byte val (i mod 8) (hex_byte a b)
                    in if i mod 8 = 7 \<or> n = 0
                       then (let (werr, k2) = VSpace_Write_Word K k1 vs (mem + of_nat (i div 8)) curr_word1
                             in if werr \<noteq> 0 then Inr (mem + of_nat i, k2)
                                else inf_hex2mem_loop K vs buf' (mem + 8 + 1) curr_word1 k2 (i + 1) n)
                       else inf_hex2mem_loop K vs buf' (mem + 1) curr_word1 k1 (i + 1) n)
               | _ \<Rightarrow> Inl OutOfBounds))"

definition inf_hex2mem ::
  "('k, 'r) kernel \<Rightarrow> nat \<times> nat \<Rightarrow> cptr \<Rightarrow> u64 \<Rightarrow> int \<Rightarrow> 'k gdb \<Rightarrow> (u64 \<times> 'k gdb) res" where
  "inf_hex2mem K t buf mem sz s =
    (if sz \<le> 0 then Inr (mem, s)
     else deref (t_inferior (thr s (fst t) (snd t))) (\<lambda>i.
       bindR (inf_hex2mem_loop K (i_vspace (inferiors s i)) buf mem 0 (ks s) 0 (nat sz)) (\<lambda>(r, k').
       Inr (r, s\<lparr>ks := k'\<rparr>))))"

end
