(* ===== verification/Gdb_Memory.thy ===== *)
theory Gdb_Memory
  imports Gdb_Prelude
begin

unbundle bit_operations_syntax

text \<open>
  The two memory routines of \<open>src/util.c\<close> that work a machine word at a time:
  \<open>memset\<close>, which fills head and tail bytewise and the middle with 32-bit and 64-bit
  stores, and \<open>memchr\<close>, which searches with a carry trick on whole words. Memory is a
  total function from 64-bit addresses to bytes, so that the alignment arithmetic on
  addresses is the code's. Each routine is proved equal to its bytewise specification.
\<close>

type_synonym memory = "u64 \<Rightarrow> u8"

section \<open>Stores and loads\<close>

definition store32 :: "memory \<Rightarrow> u64 \<Rightarrow> u32 \<Rightarrow> memory" where
  "store32 m a v =
     m(a := get_byte v 0, a + 1 := get_byte v 1, a + 2 := get_byte v 2, a + 3 := get_byte v 3)"

definition store64 :: "memory \<Rightarrow> u64 \<Rightarrow> u64 \<Rightarrow> memory" where
  "store64 m a v =
     m(a := get_byte v 0, a + 1 := get_byte v 1, a + 2 := get_byte v 2, a + 3 := get_byte v 3,
       a + 4 := get_byte v 4, a + 5 := get_byte v 5, a + 6 := get_byte v 6, a + 7 := get_byte v 7)"

definition load64 :: "memory \<Rightarrow> u64 \<Rightarrow> u64" where
  "load64 m a =
     set_bytes 0 0 [m a, m (a + 1), m (a + 2), m (a + 3), m (a + 4), m (a + 5), m (a + 6), m (a + 7)]"

section \<open>memset\<close>

function memset_loop :: "memory \<Rightarrow> u64 \<Rightarrow> u64 \<Rightarrow> u64 \<Rightarrow> memory" where
  "memset_loop m s n c64 =
     (if n \<ge> 32
      then (let m = store64 m (s + 0) c64;
                m = store64 m (s + 8) c64;
                m = store64 m (s + 16) c64;
                m = store64 m (s + 24) c64
            in memset_loop m (s + 32) (n - 32) c64)
      else m)"
  by pat_completeness auto
termination
proof (relation "measure (\<lambda>(m, s, n, c64). unat n)", goal_cases)
  case (2 m s n c64)
  then have "unat (n - 32) = unat n - 32" and "32 \<le> unat n"
    by (simp_all add: word_le_nat_alt unat_sub)
  then show ?case
    by simp
qed simp

declare memset_loop.simps [simp del]

definition memset :: "memory \<Rightarrow> u64 \<Rightarrow> u32 \<Rightarrow> u64 \<Rightarrow> memory" where
  "memset m s c n =
    (if n = 0 then m else
     let b = ucast c :: u8;
         m = m(s + (n - 1) := b); m = m(s := b) in
     if n \<le> 2 then m else
     let m = m(s + (n - 2) := b); m = m(s + 1 := b);
         m = m(s + (n - 3) := b); m = m(s + 2 := b) in
     if n \<le> 6 then m else
     let m = m(s + (n - 4) := b); m = m(s + 3 := b) in
     if n \<le> 8 then m else
     let k = (- s) AND 3; s = s + k; n = n - k; n = n AND (- 4);
         c32 = ((- 1) div 255) * (ucast b :: u32);
         m = store32 m (s + 0) c32;
         m = store32 m (s + n - 4) c32 in
     if n \<le> 8 then m else
     let m = store32 m (s + 4) c32;
         m = store32 m (s + 8) c32;
         m = store32 m (s + n - 12) c32;
         m = store32 m (s + n - 8) c32 in
     if n \<le> 24 then m else
     let m = store32 m (s + 12) c32;
         m = store32 m (s + 16) c32;
         m = store32 m (s + 20) c32;
         m = store32 m (s + 24) c32;
         m = store32 m (s + n - 28) c32;
         m = store32 m (s + n - 24) c32;
         m = store32 m (s + n - 20) c32;
         m = store32 m (s + n - 16) c32;
         k = 24 + (s AND 4); s = s + k; n = n - k;
         c64 = (ucast c32 :: u64) OR push_bit 32 (ucast c32)
     in memset_loop m s n c64)"

text \<open>Memory whose bytes at the offsets from \<open>lo\<close> to below \<open>hi\<close> of \<open>d\<close> have been set.\<close>

definition fill :: "memory \<Rightarrow> u64 \<Rightarrow> u8 \<Rightarrow> nat \<Rightarrow> nat \<Rightarrow> memory" where
  "fill m d b lo hi = (\<lambda>a. if lo \<le> unat (a - d) \<and> unat (a - d) < hi then b else m a)"

lemma unat_small [simp]: "k < 2 ^ 64 \<Longrightarrow> unat (of_nat k :: u64) = k"
  by (simp add: unat_of_nat)

lemma address_offset:
  assumes "k < 2 ^ 64"
  shows "a = (d :: u64) + of_nat k \<longleftrightarrow> unat (a - d) = k"
proof
  assume "unat (a - d) = k"
  then have "of_nat k = a - d"
    by auto
  then show "a = d + of_nat k"
    by simp
qed (use assms in simp)

lemma fill_empty [simp]: "fill m d b lo lo = m"
  by (rule ext) (auto simp: fill_def)

lemma store_fill:
  assumes "k < 2 ^ 64"
  shows "m(d + of_nat k := b) = fill m d b k (Suc k)"
  using address_offset [OF assms, of _ d] by (auto simp: fill_def)

lemma fill_fill:
  "lo \<le> mid \<Longrightarrow> mid \<le> hi \<Longrightarrow> fill (fill m d b lo mid) d b mid hi = fill m d b lo hi"
  by (auto simp: fill_def)

lemma store_run:
  assumes "k + n \<le> 2 ^ 64"
  shows "fold (\<lambda>i m. m(d + of_nat (k + i) := b)) [0..<n] m = fill m d b k (k + n)"
  using assms
proof (induction n)
  case 0
  then show ?case by simp
next
  case (Suc n)
  then show ?case
    by (simp add: store_fill fill_fill del: of_nat_add fun_upd_apply)
qed

text \<open>A word all of whose bytes are \<open>b\<close>.\<close>

lemma store32_fill:
  assumes "k + 4 \<le> 2 ^ 64" and "\<And>i. i < 4 \<Longrightarrow> get_byte v i = b"
  shows "store32 m (d + of_nat k) v = fill m d b k (k + 4)"
  using assms(2) store_run [OF assms(1), of d b m]
  by (simp add: store32_def upt_rec add.assoc)

lemma store64_fill:
  assumes "k + 8 \<le> 2 ^ 64" and "\<And>i. i < 8 \<Longrightarrow> get_byte v i = b"
  shows "store64 m (d + of_nat k) v = fill m d b k (k + 8)"
  using assms(2) store_run [OF assms(1), of d b m]
  by (simp add: store64_def upt_rec add.assoc)

lemma unat_get_byte: "unat (get_byte (w :: 'a::len word) i) = unat w div 2 ^ (8 * i) mod 256"
proof -
  have "unat (drop_bit (8 * i) w) = unat w div 2 ^ (8 * i)"
    by (subst unsigned_drop_bit_eq) (simp add: drop_bit_eq_div take_bit_nat_eq_self)
  then show ?thesis
    by (simp add: get_byte_def unsigned_ucast_eq take_bit_eq_mod)
qed

lemma get_byte_c32:
  assumes "i < 4"
  shows "get_byte (((- 1) div 255) * (ucast b :: u32)) i = (b :: u8)"
proof -
  define B where "B = unat b"
  have "unat b < 2 ^ LENGTH(8)"
    by (rule unsigned_less)
  then have B: "B < 256"
    by (simp add: B_def)
  have "unat (((- 1) div 255) * (ucast b :: u32)) = 16843009 * B"
    using B by (simp add: unat_word_ariths unsigned_ucast_eq take_bit_eq_mod B_def [symmetric])
  moreover have "16843009 * B div 2 ^ (8 * i) mod 256 = B"
  proof -
    have div: "16843009 * B div 256 = 65793 * B" "16843009 * B div 65536 = 257 * B"
      "16843009 * B div 16777216 = B"
      by (rule div_nat_eqI; use B in simp)+
    have "(B + 256 * c) mod 256 = B" for c
      using B by simp
    from this [of "65793 * B"] this [of "257 * B"] this [of B] this [of 0]
    have mod: "16843009 * B mod 256 = B" "65793 * B mod 256 = B" "257 * B mod 256 = B" "B mod 256 = B"
      by (simp_all add: mult.assoc [symmetric] del: mod_mult_self1)
    from assms consider "i = 0" | "i = 1" | "i = 2" | "i = 3"
      by linarith
    then show ?thesis
      by cases (simp_all add: div mod)
  qed
  ultimately show ?thesis
    by (intro word_unat_eq_iff [THEN iffD2]) (simp add: unat_get_byte B_def)
qed

lemma get_byte_c64:
  assumes "\<And>i. i < 4 \<Longrightarrow> get_byte (v :: u32) i = b" and "i < 8"
  shows "get_byte ((ucast v :: u64) OR push_bit 32 (ucast v)) i = b"
proof (rule bit_word_eqI)
  fix n
  assume "n < LENGTH(8)"
  then have n: "n < 8"
    by simp
  have v: "bit v (8 * j + n) = bit b n" if "j < 4" for j
    using assms(1) [OF that] n bit_get_byte [of v j n] by simp
  show "bit (get_byte ((ucast v :: u64) OR push_bit 32 (ucast v)) i) n = bit b n"
  proof (cases "i < 4")
    case True
    with n v [of i] show ?thesis
      by (simp add: bit_get_byte bit_or_iff bit_push_bit_iff bit_ucast_iff)
  next
    case False
    with assms(2) n v [of "i - 4"] show ?thesis
      by (auto simp: bit_get_byte bit_or_iff bit_push_bit_iff bit_ucast_iff diff_mult_distrib2
          dest: bit_imp_le_length)
  qed
qed

lemma memset_loop_fill:
  assumes "k + unat n \<le> 2 ^ 64" and "\<And>i. i < 8 \<Longrightarrow> get_byte c64 i = b"
  shows "memset_loop m (d + of_nat k) n c64 = fill m d b k (k + 32 * (unat n div 32))"
  using assms(1)
proof (induction "unat n" arbitrary: m n k rule: less_induct)
  case less
  note unfold = memset_loop.simps [of m "d + of_nat k" n c64]
  show ?case
  proof (cases "n \<ge> 32")
    case True
    then have n: "32 \<le> unat n" "unat (n - 32) = unat n - 32"
      by (simp_all add: word_le_nat_alt unat_sub)
    then have q: "32 * (unat n div 32) = 32 + 32 * (unat (n - 32) div 32)"
      by (simp add: le_div_geq)
    have st: "store64 m' (d + of_nat k + of_nat j) c64 = fill m' d b (k + j) (k + j + 8)"
      if "j \<le> 24" for j m'
      using store64_fill [of "k + j" c64 b m' d] that less.prems n(1) assms(2)
      by (simp add: add.assoc)
    have IH: "memset_loop m' (d + of_nat (k + 32)) (n - 32) c64 =
        fill m' d b (k + 32) (k + 32 + 32 * (unat (n - 32) div 32))" for m'
      by (rule less.hyps) (use n less.prems in linarith)+
    show ?thesis
      using st [of 0] st [of 8] st [of 16] st [of 24] True IH
      by (simp add: unfold Let_def fill_fill q add.assoc add.commute)
  next
    case False
    then have "unat n < 32"
      by (simp add: not_le word_less_nat_alt)
    with False show ?thesis
      by (simp add: unfold)
  qed
qed

text \<open>The offsets of the stores of \<open>memset\<close>, counted from either end of the region.\<close>

lemma store_head: "j < 2 ^ 64 \<Longrightarrow> m(d + of_nat j := b) = fill m d b j (Suc j)"
  by (rule store_fill)

lemma tail_offset: "j \<le> unat n \<Longrightarrow> (n :: u64) - of_nat j = of_nat (unat n - j)"
  by simp

lemma unat_less_64: "unat (n :: u64) < 2 ^ 64"
proof -
  have "unat n < 2 ^ LENGTH(64)"
    by (rule unsigned_less)
  then show ?thesis
    by simp
qed

lemma store_tail:
  assumes "j \<le> unat n" and "0 < j"
  shows "m(d + ((n :: u64) - of_nat j) := b) = fill m d b (unat n - j) (Suc (unat n - j))"
  using store_fill [of "unat n - j" m d b] unat_less_64 [of n] assms
  by (simp only: tail_offset)

lemma fill_cover:
  assumes "\<And>x. (lo \<le> x \<and> x < hi) \<or> P x \<longleftrightarrow> Q x"
  shows "fill (\<lambda>a. if P (unat (a - d)) then b else m a) d b lo hi =
    (\<lambda>a. if Q (unat (a - d)) then b else m a)"
  using assms by (auto simp: fill_def fun_eq_iff)

lemma memset_small:
  assumes "unat n \<le> 8"
  shows "memset m d c n = fill m d (ucast c) 0 (unat n)"
proof -
  let ?b = "ucast c :: u8"
  note head = store_head [of 0 _ d ?b, simplified] store_head [of 1 _ d ?b, simplified]
    store_head [of 2 _ d ?b, simplified] store_head [of 3 _ d ?b, simplified]
  note tail = store_tail [of 1 n _ d ?b, simplified] store_tail [of 2 n _ d ?b, simplified]
    store_tail [of 3 n _ d ?b, simplified] store_tail [of 4 n _ d ?b, simplified]
  have le: "n \<le> 2 \<longleftrightarrow> unat n \<le> 2" "n \<le> 6 \<longleftrightarrow> unat n \<le> 6" "n \<le> 8 \<longleftrightarrow> unat n \<le> 8"
    "n = 0 \<longleftrightarrow> unat n = 0"
    by (simp_all add: word_le_nat_alt unat_eq_zero)
  consider "unat n = 0" | "0 < unat n" "unat n \<le> 2" | "2 < unat n" "unat n \<le> 6" | "6 < unat n"
    by linarith
  then show ?thesis
  proof cases
    case 1
    then show ?thesis
      by (simp add: memset_def le)
  next
    case 2
    then show ?thesis
      by (simp add: memset_def le head tail Let_def del: fun_upd_apply) (auto simp: fill_def fun_eq_iff)
  next
    case 3
    then show ?thesis
      by (simp add: memset_def le head tail Let_def del: fun_upd_apply) (auto simp: fill_def fun_eq_iff)
  next
    case 4
    with assms show ?thesis
      by (simp add: memset_def le head tail Let_def del: fun_upd_apply) (auto simp: fill_def fun_eq_iff)
  qed
qed

text \<open>The aligned middle of the region: \<open>k\<close> bytes in, a multiple of four bytes long.\<close>

lemma unat_and_3: "unat ((x :: u64) AND 3) = unat x mod 4"
proof -
  have "x AND 3 = x AND mask 2"
    by (simp add: mask_eq_exp_minus_1)
  then have "x AND 3 = x mod 4"
    by (simp add: take_bit_eq_mask [symmetric] take_bit_eq_mod)
  then show ?thesis
    by (simp add: unat_mod)
qed

lemma and_plus_and_not: "(x AND y) + (x AND NOT y) = (x :: u64)"
proof -
  have "(x AND y) + (x AND NOT y) = (x AND y) OR (x AND NOT y)"
    by (rule disjunctive_add) (auto simp: bit_and_iff bit_not_iff)
  also have "\<dots> = x"
    by (rule bit_word_eqI) (auto simp: bit_and_iff bit_or_iff bit_not_iff)
  finally show ?thesis .
qed

lemma unat_and_minus_4: "unat ((x :: u64) AND (- 4)) = unat x - unat x mod 4"
proof -
  have "x AND (- 4) = x - (x AND 3)"
    using and_plus_and_not [of x 3] by (simp add: algebra_simps)
  then show ?thesis
    by (simp add: unat_sub word_le_nat_alt unat_and_3)
qed

lemma round_down_4:
  assumes "6 \<le> (x :: nat)"
  shows "4 \<le> x - x mod 4" and "x - x mod 4 \<le> x" and "x < x - x mod 4 + 4"
  using assms by presburger+

lemma middle_of_region:
  assumes "8 < unat (n :: u64)"
  obtains k M where "k \<le> 3" and "- d AND 3 = (of_nat k :: u64)"
    and "(n - of_nat k) AND (- 4) = of_nat M" and "M < 2 ^ 64"
    and "4 \<le> M" and "k + M \<le> unat n" and "unat n < k + M + 4"
    and "M mod 4 = 0"
proof -
  define k where "k = unat ((- d) AND 3)"
  define M where "M = unat ((n - of_nat k) AND (- 4))"
  have k: "k \<le> 3"
    by (simp add: k_def unat_and_3)
  have "unat (n - of_nat k) = unat n - k"
    using k assms by (subst unat_sub) (simp_all add: word_le_nat_alt)
  then have M: "M = (unat n - k) - (unat n - k) mod 4"
    by (simp add: M_def unat_and_minus_4)
  have "6 \<le> unat n - k"
    using k assms by linarith
  with M have "4 \<le> M" "M \<le> unat n - k" "unat n - k < M + 4"
    using round_down_4 by blast+
  with k assms have "4 \<le> M" "k + M \<le> unat n" "unat n < k + M + 4"
    by linarith+
  moreover have "- d AND 3 = (of_nat k :: u64)" "(n - of_nat k) AND (- 4) = of_nat M"
    by (simp_all add: k_def M_def)
  moreover have "M < 2 ^ 64"
    unfolding M_def by (rule unat_less_64)
  moreover have "M mod 4 = 0"
    using M by (simp add: minus_mod_eq_mult_div)
  ultimately show thesis
    by (intro that [of k M] k)
qed

lemma skip_of_loop:
  obtains k where "24 + ((s :: u64) AND 4) = of_nat k" and "24 \<le> k" and "k \<le> 28"
    and "k mod 4 = 0"
proof -
  have "(s AND 4) AND 3 = s AND (4 AND 3)"
    by (rule and.assoc)
  then have "unat (s AND 4) mod 4 = 0"
    using unat_and_3 [of "s AND 4"] by simp
  have "unat (s AND 4) \<le> 4"
    using word_and_le1 [of s 4] by (simp add: word_le_nat_alt)
  then have "unat (24 + (s AND 4)) = 24 + unat (s AND 4)"
    by (simp add: unat_word_ariths)
  with \<open>unat (s AND 4) \<le> 4\<close> \<open>unat (s AND 4) mod 4 = 0\<close> show thesis
    by (intro that [of "unat (24 + (s AND 4))"]) (simp_all add: mod_add_eq [symmetric])
qed

lemma memset_bytes:
  assumes "8 < unat (n :: u64)"
  shows "m(d + (n - 1) := b, d := b, d + (n - 2) := b, d + 1 := b, d + (n - 3) := b, d + 2 := b,
      d + (n - 4) := b, d + 3 := b) =
    fill (fill m d b 0 4) d b (unat n - 4) (unat n)"
proof -
  note head = store_head [of 0 _ d b, simplified] store_head [of 1 _ d b, simplified]
    store_head [of 2 _ d b, simplified] store_head [of 3 _ d b, simplified]
  note tail = store_tail [of 1 n _ d b, simplified] store_tail [of 2 n _ d b, simplified]
    store_tail [of 3 n _ d b, simplified] store_tail [of 4 n _ d b, simplified]
  show ?thesis
    using assms
    by (simp add: head tail del: fun_upd_apply) (auto simp: fill_def fun_eq_iff)
qed

text \<open>Which offsets a sequence of fills covers; seven words in a row cover 28 bytes.\<close>

definition paint :: "memory \<Rightarrow> u64 \<Rightarrow> u8 \<Rightarrow> nat set \<Rightarrow> memory" where
  "paint m d b S = (\<lambda>a. if unat (a - d) \<in> S then b else m a)"

lemma fill_paint: "fill m d b lo hi = paint m d b {lo..<hi}"
  by (simp add: fill_def paint_def)

lemma paint_paint: "paint (paint m d b S) d b T = paint m d b (S \<union> T)"
  by (auto simp: paint_def)

lemma seven_words:
  "{a..<a + 4} \<union> ({a + 4..<a + 8} \<union> ({a + 8..<a + 12} \<union> ({a + 12..<a + 16} \<union>
    ({a + 16..<a + 20} \<union> ({a + 20..<a + 24} \<union> {a + 24..<a + 28}))))) = {a..<a + (28 :: nat)}"
  by (simp add: ivl_disj_un_two(3))

lemma loop_cover:
  assumes "k \<le> (M :: nat)" and "M mod 4 = 0" and "k mod 4 = 0"
  shows "32 * ((M - k) div 32) \<le> M - k" and "M \<le> k + 32 * ((M - k) div 32) + 28"
proof -
  define w where "w = M - k"
  have "w mod 4 = 0"
    using assms by (simp add: w_def mod_eq_0_iff_dvd)
  then have "w mod 32 mod 4 = 0"
    by (simp add: mod_mod_cancel)
  moreover have "y mod 4 = 0 \<Longrightarrow> y < 32 \<Longrightarrow> y \<le> 28" for y :: nat
    by presburger
  from this [of "w mod 32"] have "w mod 32 mod 4 = 0 \<Longrightarrow> w mod 32 \<le> 28"
    by simp
  ultimately have "w mod 32 \<le> 28"
    by simp
  moreover have "32 * (w div 32) + w mod 32 = w"
    by simp
  ultimately have "w \<le> 32 * (w div 32) + 28"
    by linarith
  then show "M \<le> k + 32 * ((M - k) div 32) + 28"
    using assms(1) unfolding w_def by linarith
qed simp

lemma region_cover:
  assumes "k \<le> 3" and "k2 \<le> (28 :: nat)" and "k \<le> u" and "u \<le> e" and "e \<le> u + 28"
    and "u + 28 \<le> N" and "N < u + 32"
  shows "{0..<4} \<union> {N - 4..<N} \<union> {k..<k + 28} \<union> {u..<u + 28} \<union> {k + k2..<e} = {0..<N}"
  using assms by auto

lemma memset_large:
  assumes big: "8 < unat n"
  shows "memset m d c n = fill m d (ucast c) 0 (unat n)"
proof -
  obtain k M where k: "k \<le> 3" "- d AND 3 = (of_nat k :: u64)"
    and n2: "(n - of_nat k) AND (- 4) = of_nat M" and "M < 2 ^ 64"
    and M: "4 \<le> M" "k + M \<le> unat n" "unat n < k + M + 4" "M mod 4 = 0"
    using middle_of_region [OF big, of d] by blast
  obtain k2 where k2: "24 + ((d + of_nat k) AND 4) = of_nat k2" "24 \<le> k2" "k2 \<le> 28" "k2 mod 4 = 0"
    by (rule skip_of_loop)
  define b where "b = (ucast c :: u8)"
  define c32 where "c32 = 16843009 * (ucast b :: u32)"
  have c32: "\<And>i. i < 4 \<Longrightarrow> get_byte c32 i = b"
    using get_byte_c32 [of _ b] by (simp add: c32_def)
  have store_front: "store32 m' (d + of_nat k + of_nat j) c32 = fill m' d b (k + j) (k + j + 4)"
    if "j \<le> 24" for m' j
    using store32_fill [of "k + j" c32 b m' d] c32 that k by (simp add: add.assoc)
  have store_back: "store32 m' (d + of_nat k + of_nat M - of_nat j) c32 = fill m' d b (k + M - j) (k + M - j + 4)"
    if "4 \<le> j" "j \<le> k + M" for m' j
  proof -
    have eq: "d + of_nat k + of_nat M - of_nat j = d + of_nat (k + M - j)"
      using that by (simp add: of_nat_diff algebra_simps)
    show ?thesis
      unfolding eq by (rule store32_fill) (use c32 that M unat_less_64 [of n] in simp_all)
  qed
  have loop: "memset_loop m' (d + of_nat k + of_nat k2) (of_nat M - of_nat k2)
      (ucast c32 OR push_bit 32 (ucast c32)) =
      fill m' d b (k + k2) (k + k2 + 32 * ((M - k2) div 32))" if "k2 \<le> M" for m'
  proof -
    have eq: "d + of_nat k + of_nat k2 = d + of_nat (k + k2)"
      "(of_nat M - of_nat k2 :: u64) = of_nat (M - k2)"
      using that by (simp_all add: of_nat_diff add.assoc)
    have small: "M - k2 < 2 ^ 64"
      using \<open>M < 2 ^ 64\<close> by simp
    show ?thesis
      unfolding eq using memset_loop_fill [of "k + k2" "of_nat (M - k2)" _ b m' d]
        get_byte_c64 [of c32 b] c32 that M unat_less_64 [of n] unat_small [OF small]
      by (simp del: of_nat_add)
  qed
  have cond: "n \<noteq> 0" "\<not> n \<le> 2" "\<not> n \<le> 6" "\<not> n \<le> 8"
    using big by (auto simp: word_le_nat_alt)
  have le: "(of_nat M :: u64) \<le> 8 \<longleftrightarrow> M \<le> 8" "(of_nat M :: u64) \<le> 24 \<longleftrightarrow> M \<le> 24"
    using \<open>M < 2 ^ 64\<close> by (simp_all add: word_le_nat_alt)
  note step = memset_def Let_def cond if_False b_def [symmetric] c32_def [symmetric]
    k(2) n2 memset_bytes [OF big] le k2(1)
  note front = store_front [of 0, simplified] store_front [of 4, simplified] store_front [of 8, simplified]
    store_front [of 12, simplified] store_front [of 16, simplified] store_front [of 20, simplified] store_front [of 24, simplified]
  note rear = store_back [of 4, simplified] store_back [of 8, simplified] store_back [of 12, simplified]
    store_back [of 16, simplified] store_back [of 20, simplified] store_back [of 24, simplified]
    store_back [of 28, simplified]
  have "M \<le> 8 \<or> 12 \<le> M \<and> M \<le> 24 \<or> 28 \<le> M"
    using M(4) by presburger
  then consider "M \<le> 8" | "12 \<le> M" "M \<le> 24" | "28 \<le> M"
    by blast
  then show ?thesis
  proof cases
    case 1
    with M k(1) show ?thesis
      by (simp add: step front rear del: fun_upd_apply) (auto simp: fill_def fun_eq_iff b_def [symmetric])
  next
    case 2
    with M k(1) show ?thesis
      by (simp add: step front rear del: fun_upd_apply) (auto simp: fill_def fun_eq_iff b_def [symmetric])
  next
    case 3
    define u where "u = k + M - 28"
    have u: "k + M = u + 28"
      using 3 by (simp add: u_def)
    have "memset m d c n = paint m d b ({0..<4} \<union> {unat n - 4..<unat n} \<union> {k..<k + 28} \<union>
        {u..<u + 28} \<union> {k + k2..<k + k2 + 32 * ((M - k2) div 32)})"
      using 3 k2(2,3)
      by (simp add: step front rear loop u fill_paint paint_paint del: fun_upd_apply)
        (rule arg_cong [where f = "paint m d b"], unfold seven_words [symmetric], simp only: ac_simps)
    also have "{0..<4} \<union> {unat n - 4..<unat n} \<union> {k..<k + 28} \<union> {u..<u + 28} \<union>
        {k + k2..<k + k2 + 32 * ((M - k2) div 32)} = {0..<unat n}"
      by (rule region_cover) (use loop_cover [of k2 M] 3 k M k2 u in linarith)+
    finally show ?thesis
      by (simp add: fill_paint b_def)
  qed
qed

lemma memset_fill: "memset m d c n = fill m d (ucast c) 0 (unat n)"
  by (cases "unat n \<le> 8") (auto intro: memset_small memset_large)

section \<open>Stores and loads byte by byte\<close>

lemma get_byte_load64:
  assumes "i < 8"
  shows "get_byte (load64 m a) i = m (a + of_nat i)"
proof -
  have "i \<in> {0, 1, 2, 3, 4, 5, 6, 7}"
    using assms by auto
  then show ?thesis
    by (elim insertE emptyE) (simp_all add: load64_def get_set_byte)
qed

lemma load64_cong:
  assumes "\<And>i. i < 8 \<Longrightarrow> m (a + of_nat i) = m' (a + of_nat i)"
  shows "load64 m a = load64 m' a"
  by (rule word_eq_bytes [of 8]) (simp_all add: get_byte_load64 assms)

lemma store64_byte:
  "store64 m a v x = (if unat (x - a) < 8 then get_byte v (unat (x - a)) else m x)"
proof -
  have "x = a + of_nat i \<longleftrightarrow> unat (x - a) = i" if "i < 8" for i
    using address_offset [of i x a] that by simp
  from this [of 0] this [of 1] this [of 2] this [of 3] this [of 4] this [of 5] this [of 6] this [of 7]
  have eqs: "x = a \<longleftrightarrow> unat (x - a) = 0" "x = a + 1 \<longleftrightarrow> unat (x - a) = 1"
    "x = a + 2 \<longleftrightarrow> unat (x - a) = 2" "x = a + 3 \<longleftrightarrow> unat (x - a) = 3"
    "x = a + 4 \<longleftrightarrow> unat (x - a) = 4" "x = a + 5 \<longleftrightarrow> unat (x - a) = 5"
    "x = a + 6 \<longleftrightarrow> unat (x - a) = 6" "x = a + 7 \<longleftrightarrow> unat (x - a) = 7"
    by simp_all
  show ?thesis
  proof (cases "unat (x - a) < 8")
    case True
    then have "unat (x - a) \<in> {0, 1, 2, 3, 4, 5, 6, 7}"
      by auto
    then show ?thesis
      by (elim insertE emptyE) (simp_all add: store64_def eqs)
  next
    case False
    then show ?thesis
      by (simp add: store64_def eqs)
  qed
qed

lemma store64_load64: "store64 m a (load64 m a) = m"
  by (rule ext) (simp add: store64_byte get_byte_load64)

lemma store64_store64: "store64 (store64 m a v) a w = store64 m a w"
  by (rule ext) (simp add: store64_byte)

lemma load64_store64: "load64 (store64 m a v) a = v"
  by (rule word_eq_bytes [of 8]) (simp_all add: get_byte_load64 store64_byte)

section \<open>Properties\<close>

text \<open>C29: The optimised \<open>memset\<close> (head, tail, alignment, unrolled words) stores the byte
  \<open>c\<close> at exactly the \<open>n\<close> addresses from \<open>d\<close> on, for every length and alignment, and
  changes no other byte.\<close>

theorem memset_exact: "memset m d c n a = (if unat (a - d) < unat n then ucast c else m a)"
  by (simp add: memset_fill fill_def)

end
