(* ===== verification/Gdb_Kernel.thy ===== *)
theory Gdb_Kernel
  imports Gdb_State Gdb_Memory
begin

text \<open>
  The documented behaviour of the kernel calls that the library relies on, as laws about the
  kernel parameter, and a machine that obeys all of them, used to instantiate the theorems
  that assume a law.
\<close>

section \<open>The kernel's memory calls\<close>

text \<open>
  \<open>M k vs\<close> is the memory of the address space \<open>vs\<close> and \<open>P vs a\<close> says that the word at \<open>a\<close> is
  mapped: a call on a mapped word succeeds, and any other fails and changes no memory.
\<close>

definition word_memory ::
  "('k, 'r) kernel \<Rightarrow> ('k \<Rightarrow> u64 \<Rightarrow> memory) \<Rightarrow> (u64 \<Rightarrow> u64 \<Rightarrow> bool) \<Rightarrow> bool" where
  "word_memory K M P \<longleftrightarrow>
    (\<forall>k vs a. M (snd (VSpace_Read_Word K k vs a)) = M k \<and>
       (P vs a \<longrightarrow> fst (VSpace_Read_Word K k vs a) = (0, load64 (M k vs) a)) \<and>
       (\<not> P vs a \<longrightarrow> fst (fst (VSpace_Read_Word K k vs a)) \<noteq> 0)) \<and>
    (\<forall>k vs a v. (P vs a \<longrightarrow> fst (VSpace_Write_Word K k vs a v) = 0 \<and>
         M (snd (VSpace_Write_Word K k vs a v)) = (M k)(vs := store64 (M k vs) a v)) \<and>
       (\<not> P vs a \<longrightarrow> fst (VSpace_Write_Word K k vs a v) \<noteq> 0 \<and>
         M (snd (VSpace_Write_Word K k vs a v)) = M k))"

lemma word_memoryD:
  assumes "word_memory K M P"
  shows "M (snd (VSpace_Read_Word K k vs a)) = M k"
    and "P vs a \<Longrightarrow> fst (VSpace_Read_Word K k vs a) = (0, load64 (M k vs) a)"
    and "\<not> P vs a \<Longrightarrow> fst (fst (VSpace_Read_Word K k vs a)) \<noteq> 0"
    and "P vs a \<Longrightarrow> fst (VSpace_Write_Word K k vs a v) = 0"
    and "P vs a \<Longrightarrow> M (snd (VSpace_Write_Word K k vs a v)) = (M k)(vs := store64 (M k vs) a v)"
    and "\<not> P vs a \<Longrightarrow> fst (VSpace_Write_Word K k vs a v) \<noteq> 0"
    and "\<not> P vs a \<Longrightarrow> M (snd (VSpace_Write_Word K k vs a v)) = M k"
  using assms unfolding word_memory_def by blast+

lemma word_read_ok:
  assumes "word_memory K M P" and "P vs a"
  obtains k' where "VSpace_Read_Word K k vs a = ((0, load64 (M k vs) a), k')" and "M k' = M k"
  using word_memoryD(1,2) [OF assms(1)] assms(2) that by (metis prod.collapse)

lemma word_read_fail:
  assumes "word_memory K M P" and "\<not> P vs a"
  obtains e v k' where "VSpace_Read_Word K k vs a = ((e, v), k')" and "e \<noteq> 0" and "M k' = M k"
  using word_memoryD(1,3) [OF assms(1)] assms(2) that by (metis prod.collapse)

lemma word_write_ok:
  assumes "word_memory K M P" and "P vs a"
  obtains k' where "VSpace_Write_Word K k vs a v = (0, k')"
    and "M k' = (M k)(vs := store64 (M k vs) a v)"
  using word_memoryD(4,5) [OF assms(1)] assms(2) that by (metis prod.collapse)

lemma word_write_fail:
  assumes "word_memory K M P" and "\<not> P vs a"
  obtains e k' where "VSpace_Write_Word K k vs a v = (e, k')" and "e \<noteq> 0" and "M k' = M k"
  using word_memoryD(6,7) [OF assms(1)] assms(2) that by (metis prod.collapse)

section \<open>The kernel's breakpoint calls\<close>

text \<open>
  \<open>B k tcb num\<close> is what breakpoint register \<open>num\<close> of a thread holds: the address, the type,
  the size and the access. A call that fails leaves the registers as they were.
\<close>

type_synonym breakpoint_regs = "u64 \<Rightarrow> u64 \<rightharpoonup> u64 \<times> u64 \<times> u64 \<times> u64"

definition breakpoint_unit :: "('k, 'r) kernel \<Rightarrow> ('k \<Rightarrow> breakpoint_regs) \<Rightarrow> bool" where
  "breakpoint_unit K B \<longleftrightarrow>
    (\<forall>k tcb num addr type sz rw.
       B (snd (TCB_SetBreakpoint K k tcb num addr type sz rw)) =
         (if fst (TCB_SetBreakpoint K k tcb num addr type sz rw) = 0
          then (B k)(tcb := (B k tcb)(num \<mapsto> (addr, type, sz, rw))) else B k)) \<and>
    (\<forall>k tcb num. B (TCB_UnsetBreakpoint K k tcb num) = (B k)(tcb := (B k tcb)(num := None)))"

text \<open>A breakpoint call does not touch the memory of the threads.\<close>

definition breakpoints_keep_memory :: "('k, 'r) kernel \<Rightarrow> ('k \<Rightarrow> u64 \<Rightarrow> memory) \<Rightarrow> bool" where
  "breakpoints_keep_memory K M \<longleftrightarrow>
    (\<forall>k tcb num addr type sz rw. M (snd (TCB_SetBreakpoint K k tcb num addr type sz rw)) = M k) \<and>
    (\<forall>k tcb num. M (TCB_UnsetBreakpoint K k tcb num) = M k) \<and>
    (\<forall>k tcb n on. M (TCB_ConfigureSingleStepping K k tcb n on) = M k)"

section \<open>The kernel's scheduling calls\<close>

definition scheduler :: "('k, 'r) kernel \<Rightarrow> ('k \<Rightarrow> u64 \<Rightarrow> bool) \<Rightarrow> bool" where
  "scheduler K running \<longleftrightarrow>
    (\<forall>k tcb. running (TCB_Suspend K k tcb) = (running k)(tcb := False)) \<and>
    (\<forall>k tcb. running (TCB_Resume K k tcb) = (running k)(tcb := True))"

section \<open>The kernel's register calls\<close>

text \<open>Reading and writing the registers of a thread always succeeds on a valid capability.\<close>

definition register_file :: "('k, 'r) kernel \<Rightarrow> ('k \<Rightarrow> u64 \<Rightarrow> 'r user_context_scheme) \<Rightarrow> bool" where
  "register_file K R \<longleftrightarrow>
    (\<forall>k tcb c. snd (fst (TCB_ReadRegisters K k tcb c)) = R k tcb \<and>
       R (snd (TCB_ReadRegisters K k tcb c)) = R k) \<and>
    (\<forall>k tcb c. R (snd (TCB_WriteRegisters K k tcb c)) = (R k)(tcb := c))"

section \<open>A machine that obeys the laws\<close>

record machine =
  mc_mem :: "u64 \<Rightarrow> memory"
  mc_bp :: breakpoint_regs
  mc_step :: "u64 \<Rightarrow> bool"
  mc_run :: "u64 \<Rightarrow> bool"
  mc_regs :: "u64 \<Rightarrow> user_context"
  mc_mr :: "mr \<Rightarrow> u64"

text \<open>The first page is not mapped.\<close>

definition mc_mapped :: "u64 \<Rightarrow> u64 \<Rightarrow> bool" where
  "mc_mapped vs a \<longleftrightarrow> 4096 \<le> a"

definition machine_kernel :: "(machine, unit) kernel" where
  "machine_kernel = \<lparr>
    seL4_NumExclusiveBreakpoints = 6,
    seL4_NumExclusiveWatchpoints = 4,
    seL4_FirstBreakpoint = 0,
    seL4_FirstWatchpoint = 6,
    seL4_InstructionBreakpoint = 0,
    seL4_DataBreakpoint = 1,
    seL4_SingleStep = 2,
    seL4_SoftwareBreakRequest = 3,
    seL4_BreakOnRead = 0,
    seL4_BreakOnWrite = 1,
    seL4_BreakOnReadWrite = 2,
    seL4_Fault_DebugException = 7,
    VSpace_Read_Word = (\<lambda>k vs a. (if mc_mapped vs a then (0, load64 (mc_mem k vs) a) else (1, 0), k)),
    VSpace_Write_Word = (\<lambda>k vs a v. if mc_mapped vs a
       then (0, k\<lparr>mc_mem := (mc_mem k)(vs := store64 (mc_mem k vs) a v)\<rparr>) else (1, k)),
    TCB_SetBreakpoint = (\<lambda>k tcb num addr type sz rw.
       (0, k\<lparr>mc_bp := (mc_bp k)(tcb := (mc_bp k tcb)(num \<mapsto> (addr, type, sz, rw)))\<rparr>)),
    TCB_UnsetBreakpoint = (\<lambda>k tcb num. k\<lparr>mc_bp := (mc_bp k)(tcb := (mc_bp k tcb)(num := None))\<rparr>),
    TCB_ConfigureSingleStepping = (\<lambda>k tcb n on. k\<lparr>mc_step := (mc_step k)(tcb := (on \<noteq> 0))\<rparr>),
    TCB_ReadRegisters = (\<lambda>k tcb c. ((0, mc_regs k tcb), k)),
    TCB_WriteRegisters = (\<lambda>k tcb c. (0, k\<lparr>mc_regs := (mc_regs k)(tcb := c)\<rparr>)),
    TCB_Suspend = (\<lambda>k tcb. k\<lparr>mc_run := (mc_run k)(tcb := False)\<rparr>),
    TCB_Resume = (\<lambda>k tcb. k\<lparr>mc_run := (mc_run k)(tcb := True)\<rparr>),
    GetMR = (\<lambda>k r. mc_mr k r)\<rparr>"

definition machine0 :: machine where
  "machine0 = \<lparr>mc_mem = (\<lambda>_ _. 0), mc_bp = (\<lambda>_ _. None), mc_step = (\<lambda>_. False),
     mc_run = (\<lambda>_. True), mc_regs = (\<lambda>_. zero_context), mc_mr = (\<lambda>_. 0)\<rparr>"

lemma machine_laws:
  "word_memory machine_kernel mc_mem mc_mapped"
  "breakpoint_unit machine_kernel mc_bp"
  "breakpoints_keep_memory machine_kernel mc_mem"
  "scheduler machine_kernel mc_run"
  "register_file machine_kernel mc_regs"
  by (simp_all add: machine_kernel_def word_memory_def breakpoint_unit_def
      breakpoints_keep_memory_def scheduler_def register_file_def)

lemma machine_constants [simp]:
  "seL4_NumExclusiveBreakpoints machine_kernel = 6"
  "seL4_NumExclusiveWatchpoints machine_kernel = 4"
  "seL4_FirstBreakpoint machine_kernel = 0"
  "seL4_FirstWatchpoint machine_kernel = 6"
  "seL4_InstructionBreakpoint machine_kernel = 0"
  "seL4_DataBreakpoint machine_kernel = 1"
  "seL4_SingleStep machine_kernel = 2"
  "seL4_SoftwareBreakRequest machine_kernel = 3"
  "seL4_BreakOnRead machine_kernel = 0"
  "seL4_BreakOnWrite machine_kernel = 1"
  "seL4_BreakOnReadWrite machine_kernel = 2"
  "seL4_Fault_DebugException machine_kernel = 7"
  by (simp_all add: machine_kernel_def)

end
