(* ===== verification/Gdb_Hardware.thy ===== *)
theory Gdb_Hardware
  imports Gdb_Arch Gdb_Kernel
begin

text \<open>
  Hardware breakpoints and watchpoints (\<open>src/arch/arm/64/gdb.c\<close>) are two instances of one
  table: a slot is free or holds what the kernel installs in a breakpoint register of every
  enabled thread of the inferior. The locale \<open>hw_table\<close> states the contract of the two, and
  its lemmas keep the table and the registers of the threads in step.
\<close>

section \<open>The registers of the threads of an inferior\<close>

definition thread_tcbs :: "gdb_inferior \<Rightarrow> u64 set" where
  "thread_tcbs I = {t_tcb (i_threads I j) | j. j < MAX_THREADS \<and> t_enabled (i_threads I j)}"

lemma breakpoint_unit_set:
  "breakpoint_unit K B \<Longrightarrow> B (snd (TCB_SetBreakpoint K k tcb num addr type sz rw)) =
     (if fst (TCB_SetBreakpoint K k tcb num addr type sz rw) = 0
      then (B k)(tcb := (B k tcb)(num \<mapsto> (addr, type, sz, rw))) else B k)"
  unfolding breakpoint_unit_def by blast

lemma breakpoint_unit_unset:
  "breakpoint_unit K B \<Longrightarrow> B (TCB_UnsetBreakpoint K k tcb num) = (B k)(tcb := (B k tcb)(num := None))"
  unfolding breakpoint_unit_def by blast

lemma set_in_threads_regs:
  assumes "breakpoint_unit K B" and "set_in_threads K ths num addr type sz rw js k = (True, k')"
  shows "B k' = (\<lambda>tcb. if \<exists>j\<in>set js. t_enabled (ths j) \<and> t_tcb (ths j) = tcb
    then (B k tcb)(num \<mapsto> (addr, type, sz, rw)) else B k tcb)"
  using assms(2)
proof (induction js arbitrary: k)
  case Nil
  then show ?case by simp
next
  case (Cons j js)
  show ?case
  proof (cases "t_enabled (ths j)")
    case False
    with Cons show ?thesis by auto
  next
    case True
    obtain e k1 where 1: "TCB_SetBreakpoint K k (t_tcb (ths j)) num addr type sz rw = (e, k1)"
      by (cases "TCB_SetBreakpoint K k (t_tcb (ths j)) num addr type sz rw")
    with True Cons.prems have "e = 0" and rest: "set_in_threads K ths num addr type sz rw js k1 = (True, k')"
      by (simp_all split: if_splits)
    have "B k1 = (B k)(t_tcb (ths j) := (B k (t_tcb (ths j)))(num \<mapsto> (addr, type, sz, rw)))"
      using breakpoint_unit_set [OF assms(1), of k "t_tcb (ths j)" num addr type sz rw] 1 \<open>e = 0\<close> by simp
    then show ?thesis
      using True by (simp add: Cons.IH [OF rest] fun_eq_iff) blast
  qed
qed

lemma unset_in_threads_regs:
  assumes "breakpoint_unit K B"
  shows "B (unset_in_threads K ths num js k) = (\<lambda>tcb. if \<exists>j\<in>set js. t_enabled (ths j) \<and> t_tcb (ths j) = tcb
    then (B k tcb)(num := None) else B k tcb)"
proof (induction js arbitrary: k)
  case Nil
  then show ?case by (simp add: unset_in_threads_def)
next
  case (Cons j js)
  show ?case
    using Cons [unfolded unset_in_threads_def]
    by (simp add: unset_in_threads_def breakpoint_unit_unset [OF assms] fun_eq_iff) blast
qed

lemma exists_thread: "(\<exists>j\<in>set [0..<MAX_THREADS]. t_enabled (i_threads I j) \<and> t_tcb (i_threads I j) = tcb) \<longleftrightarrow>
    tcb \<in> thread_tcbs I"
  by (auto simp: thread_tcbs_def)

section \<open>The contract of a table\<close>

type_synonym hw_entry = "u64 \<times> u64 \<times> u64 \<times> u64"

definition synced :: "(u64 \<rightharpoonup> hw_entry) \<Rightarrow> u64 \<Rightarrow> nat \<Rightarrow> (nat \<Rightarrow> hw_entry option) \<Rightarrow> bool" where
  "synced regs first count tab \<longleftrightarrow> (\<forall>n<count. regs (first + of_nat n) = tab n)"

lemma of_nat_eq_64:
  "n < 2 ^ 64 \<Longrightarrow> m < 2 ^ 64 \<Longrightarrow> (of_nat n :: u64) = of_nat m \<longleftrightarrow> n = m"
  by (metis unat_small)

lemma synced_update:
  assumes "n < count" and "count \<le> 2 ^ 64" and "synced regs first count tab"
  shows "synced (regs(first + of_nat n := v)) first count (tab(n := v))"
  using assms by (auto simp: synced_def of_nat_eq_64)

text \<open>
  \<open>entry\<close> reads a slot, \<open>fill\<close> and \<open>free\<close> change it, \<open>good\<close> are the requests that do not
  look like a free slot, and \<open>value_of\<close> is what a request installs. \<open>set_op\<close> and \<open>clear_op\<close>
  are the operations, \<open>enable_op\<close> installs one slot in one more thread.
\<close>

locale hw_table =
  fixes count :: "('k, 'r) kernel \<Rightarrow> nat"
    and first :: "('k, 'r) kernel \<Rightarrow> u64"
    and entry :: "('k, 'r) kernel \<Rightarrow> gdb_inferior \<Rightarrow> nat \<Rightarrow> hw_entry option"
    and good :: "'q \<Rightarrow> bool"
    and value_of :: "('k, 'r) kernel \<Rightarrow> 'q \<Rightarrow> hw_entry"
    and fill :: "'q \<Rightarrow> nat \<Rightarrow> gdb_inferior \<Rightarrow> gdb_inferior"
    and free :: "nat \<Rightarrow> gdb_inferior \<Rightarrow> gdb_inferior"
    and set_op :: "('k, 'r) kernel \<Rightarrow> nat \<Rightarrow> 'q \<Rightarrow> 'k gdb \<Rightarrow> bool \<times> 'k gdb"
    and clear_op :: "('k, 'r) kernel \<Rightarrow> nat \<Rightarrow> 'q \<Rightarrow> 'k gdb \<Rightarrow> bool \<times> 'k gdb"
    and enable_op :: "('k, 'r) kernel \<Rightarrow> nat \<times> nat \<Rightarrow> nat \<Rightarrow> 'k gdb \<Rightarrow> (bool \<times> 'k gdb) res"
  assumes fill_threads: "i_threads (fill q n I) = i_threads I"
    and free_threads: "i_threads (free n I) = i_threads I"
    and fill_entry: "good q \<Longrightarrow> entry K (fill q n I) = (entry K I)(n := Some (value_of K q))"
    and free_entry: "entry K (free n I) = (entry K I)(n := None)"
    and set_op_eq: "set_op K i q s =
      (case List.find (\<lambda>n. entry K (inferiors s i) n = None) [0..<count K] of
         None \<Rightarrow> (False, s)
       | Some n \<Rightarrow>
           (let (addr, type, sz, rw) = value_of K q;
                (ok, k') = set_in_threads K (i_threads (inferiors s i)) (first K + of_nat n)
                  addr type sz rw [0..<MAX_THREADS] (ks s)
            in if ok then (True, upd_inf i (fill q n) (s\<lparr>ks := k'\<rparr>)) else (False, s\<lparr>ks := k'\<rparr>)))"
    and clear_op_eq: "good q \<Longrightarrow> clear_op K i q s =
      (case List.find (\<lambda>n. entry K (inferiors s i) n = Some (value_of K q)) [0..<count K] of
         None \<Rightarrow> (False, s)
       | Some n \<Rightarrow> (True, upd_inf i (free n) (s\<lparr>ks := unset_in_threads K (i_threads (inferiors s i))
           (first K + of_nat n) [0..<MAX_THREADS] (ks s)\<rparr>)))"
    and enable_op_eq: "n < count K \<Longrightarrow> t_inferior (thr s i j) = Some i' \<Longrightarrow> enable_op K (i, j) n s =
      (case entry K (inferiors s i') n of
         None \<Rightarrow> Inr (True, s)
       | Some (addr, type, sz, rw) \<Rightarrow>
           (let (err, k') = TCB_SetBreakpoint K (ks s) (t_tcb (thr s i j)) (first K + of_nat n) addr type sz rw
            in Inr (err = 0, s\<lparr>ks := k'\<rparr>)))"
begin

lemma set_op_full:
  assumes "\<And>n. n < count K \<Longrightarrow> entry K (inferiors s i) n \<noteq> None"
  shows "set_op K i q s = (False, s)"
proof -
  have "List.find (\<lambda>n. entry K (inferiors s i) n = None) [0..<count K] = None"
    using assms by (simp add: find_upt_None)
  then show ?thesis
    by (simp add: set_op_eq)
qed

lemma set_op_ok:
  assumes bu: "breakpoint_unit K B" and "good q" and "set_op K i q s = (True, s')"
  obtains n where "n < count K" and "entry K (inferiors s i) n = None"
    and "\<And>m. m < n \<Longrightarrow> entry K (inferiors s i) m \<noteq> None"
    and "inferiors s' = (inferiors s)(i := fill q n (inferiors s i))"
    and "entry K (inferiors s' i) = (entry K (inferiors s i))(n \<mapsto> value_of K q)"
    and "B (ks s') = (\<lambda>tcb. if tcb \<in> thread_tcbs (inferiors s i)
      then (B (ks s) tcb)(first K + of_nat n \<mapsto> value_of K q) else B (ks s) tcb)"
proof -
  obtain addr type sz rw where v: "value_of K q = (addr, type, sz, rw)"
    by (cases "value_of K q")
  obtain n where n: "List.find (\<lambda>n. entry K (inferiors s i) n = None) [0..<count K] = Some n"
    using assms(3) by (auto simp: set_op_eq split: option.splits)
  obtain ok k' where k': "set_in_threads K (i_threads (inferiors s i)) (first K + of_nat n)
      addr type sz rw [0..<MAX_THREADS] (ks s) = (ok, k')"
    by (cases "set_in_threads K (i_threads (inferiors s i)) (first K + of_nat n)
      addr type sz rw [0..<MAX_THREADS] (ks s)")
  have "ok" and s': "s' = upd_inf i (fill q n) (s\<lparr>ks := k'\<rparr>)"
    using assms(3) by (simp_all add: set_op_eq n v k' split: if_splits)
  with k' have "set_in_threads K (i_threads (inferiors s i)) (first K + of_nat n)
      addr type sz rw [0..<MAX_THREADS] (ks s) = (True, k')"
    by simp
  note regs = set_in_threads_regs [OF bu this]
  show thesis
    using n by (intro that [of n])
      (auto simp: find_upt_Some s' regs fill_entry [OF assms(2)] v thread_tcbs_def fun_eq_iff)
qed

lemma clear_op_ok:
  assumes bu: "breakpoint_unit K B" and "good q" and "clear_op K i q s = (True, s')"
  obtains n where "n < count K" and "entry K (inferiors s i) n = Some (value_of K q)"
    and "inferiors s' = (inferiors s)(i := free n (inferiors s i))"
    and "entry K (inferiors s' i) = (entry K (inferiors s i))(n := None)"
    and "B (ks s') = (\<lambda>tcb. if tcb \<in> thread_tcbs (inferiors s i)
      then (B (ks s) tcb)(first K + of_nat n := None) else B (ks s) tcb)"
proof -
  obtain n where n: "List.find (\<lambda>n. entry K (inferiors s i) n = Some (value_of K q)) [0..<count K] = Some n"
    using assms(3) by (auto simp: clear_op_eq [OF assms(2)] split: option.splits)
  have s': "s' = upd_inf i (free n) (s\<lparr>ks := unset_in_threads K (i_threads (inferiors s i))
      (first K + of_nat n) [0..<MAX_THREADS] (ks s)\<rparr>)"
    using assms(3) by (simp add: clear_op_eq [OF assms(2)] n)
  show thesis
    using n by (intro that [of n])
      (auto simp: find_upt_Some s' unset_in_threads_regs [OF bu] free_entry thread_tcbs_def fun_eq_iff)
qed

lemma clear_op_absent:
  assumes "good q" and "\<And>n. n < count K \<Longrightarrow> entry K (inferiors s i) n \<noteq> Some (value_of K q)"
  shows "clear_op K i q s = (False, s)"
proof -
  have "List.find (\<lambda>n. entry K (inferiors s i) n = Some (value_of K q)) [0..<count K] = None"
    using assms by (simp add: find_upt_None)
  then show ?thesis
    by (simp add: clear_op_eq [OF assms(1)])
qed

text \<open>The registers of the table's own range stay in step with it.\<close>

lemma set_op_synced:
  assumes "breakpoint_unit K B" and "good q" and "count K \<le> 2 ^ 64" and "set_op K i q s = (True, s')"
    and "\<And>tcb. tcb \<in> thread_tcbs (inferiors s i) \<Longrightarrow>
      synced (B (ks s) tcb) (first K) (count K) (entry K (inferiors s i))"
    and "tcb \<in> thread_tcbs (inferiors s i)"
  shows "synced (B (ks s') tcb) (first K) (count K) (entry K (inferiors s' i))"
proof -
  obtain n where "n < count K" "entry K (inferiors s' i) = (entry K (inferiors s i))(n \<mapsto> value_of K q)"
    "B (ks s') = (\<lambda>tcb. if tcb \<in> thread_tcbs (inferiors s i)
      then (B (ks s) tcb)(first K + of_nat n \<mapsto> value_of K q) else B (ks s) tcb)"
    by (rule set_op_ok [OF assms(1,2,4)])
  then show ?thesis
    using synced_update [OF _ assms(3) assms(5) [OF assms(6)]] assms(6) by simp
qed

lemma clear_op_synced:
  assumes "breakpoint_unit K B" and "good q" and "count K \<le> 2 ^ 64" and "clear_op K i q s = (True, s')"
    and "\<And>tcb. tcb \<in> thread_tcbs (inferiors s i) \<Longrightarrow>
      synced (B (ks s) tcb) (first K) (count K) (entry K (inferiors s i))"
    and "tcb \<in> thread_tcbs (inferiors s i)"
  shows "synced (B (ks s') tcb) (first K) (count K) (entry K (inferiors s' i))"
proof -
  obtain n where "n < count K" "entry K (inferiors s' i) = (entry K (inferiors s i))(n := None)"
    "B (ks s') = (\<lambda>tcb. if tcb \<in> thread_tcbs (inferiors s i)
      then (B (ks s) tcb)(first K + of_nat n := None) else B (ks s) tcb)"
    by (rule clear_op_ok [OF assms(1,2,4)])
  then show ?thesis
    using synced_update [OF _ assms(3) assms(5) [OF assms(6)]] assms(6) by simp
qed

text \<open>Registers outside the table's range keep their value.\<close>

lemma set_op_frame:
  assumes "breakpoint_unit K B" and "good q" and "set_op K i q s = (True, s')"
    and "\<And>n. n < count K \<Longrightarrow> num \<noteq> first K + of_nat n"
  shows "B (ks s') tcb num = B (ks s) tcb num"
  by (rule set_op_ok [OF assms(1-3)]) (use assms(4) in auto)

lemma clear_op_frame:
  assumes "breakpoint_unit K B" and "good q" and "clear_op K i q s = (True, s')"
    and "\<And>n. n < count K \<Longrightarrow> num \<noteq> first K + of_nat n"
  shows "B (ks s') tcb num = B (ks s) tcb num"
  by (rule clear_op_ok [OF assms(1-3)]) (use assms(4) in auto)

lemma set_op_threads:
  "fst (set_op K i q s) \<Longrightarrow> i_threads (inferiors (snd (set_op K i q s)) i) = i_threads (inferiors s i)"
  by (auto simp: set_op_eq fill_threads Let_def split: option.splits prod.splits if_splits)

lemma clear_op_threads:
  "good q \<Longrightarrow> i_threads (inferiors (snd (clear_op K i q s)) i) = i_threads (inferiors s i)"
  by (simp add: clear_op_eq free_threads split: option.split)

text \<open>A request that was granted can be taken back, which frees a slot that holds it.\<close>

lemma set_then_clear:
  assumes "breakpoint_unit K B" and "good q" and "count K \<le> 2 ^ 64" and "set_op K i q s = (True, s1)"
    and "\<And>n. n < count K \<Longrightarrow> entry K (inferiors s i) n \<noteq> Some (value_of K q)"
    and "\<And>tcb. tcb \<in> thread_tcbs (inferiors s i) \<Longrightarrow>
      synced (B (ks s) tcb) (first K) (count K) (entry K (inferiors s i))"
  shows "\<exists>s2. clear_op K i q s1 = (True, s2) \<and> entry K (inferiors s2 i) = entry K (inferiors s i) \<and>
    B (ks s2) = B (ks s)"
proof -
  obtain n where n: "n < count K" "entry K (inferiors s i) n = None"
    "inferiors s1 = (inferiors s)(i := fill q n (inferiors s i))"
    "entry K (inferiors s1 i) = (entry K (inferiors s i))(n \<mapsto> value_of K q)"
    "B (ks s1) = (\<lambda>tcb. if tcb \<in> thread_tcbs (inferiors s i)
      then (B (ks s) tcb)(first K + of_nat n \<mapsto> value_of K q) else B (ks s) tcb)"
    by (rule set_op_ok [OF assms(1,2,4)])
  have "List.find (\<lambda>m. entry K (inferiors s1 i) m = Some (value_of K q)) [0..<count K] = Some n"
    using n(1) assms(5) by (auto simp: find_upt_Some n(4))
  then obtain s2 where s2: "clear_op K i q s1 = (True, s2)"
    by (simp add: clear_op_eq [OF assms(2)])
  obtain n' where n': "n' < count K" "entry K (inferiors s1 i) n' = Some (value_of K q)"
    "entry K (inferiors s2 i) = (entry K (inferiors s1 i))(n' := None)"
    "B (ks s2) = (\<lambda>tcb. if tcb \<in> thread_tcbs (inferiors s1 i)
      then (B (ks s1) tcb)(first K + of_nat n' := None) else B (ks s1) tcb)"
    by (rule clear_op_ok [OF assms(1,2) s2])
  have "n' = n"
    using n' n(4) assms(5) [of n'] by (auto split: if_splits)
  have same: "thread_tcbs (inferiors s1 i) = thread_tcbs (inferiors s i)"
    by (simp add: n(3) thread_tcbs_def fill_threads)
  have empty: "B (ks s) tcb (first K + of_nat n) = None" if "tcb \<in> thread_tcbs (inferiors s i)" for tcb
    using assms(6) [OF that] n(1,2) by (simp add: synced_def)
  have "B (ks s2) = B (ks s)"
    using empty by (auto simp: n'(4) n(5) same \<open>n' = n\<close> fun_eq_iff)
  moreover have "entry K (inferiors s2 i) = entry K (inferiors s i)"
    using n(2) by (simp add: n'(3) n(4) \<open>n' = n\<close> fun_upd_idem)
  ultimately show ?thesis
    using s2 by blast
qed

end

section \<open>The two tables of the library\<close>

definition hb_entry :: "('k, 'r) kernel \<Rightarrow> gdb_inferior \<Rightarrow> nat \<Rightarrow> hw_entry option" where
  "hb_entry K I n = (if hb_addr (i_hb I n) = 0 then None
     else Some (hb_addr (i_hb I n), seL4_InstructionBreakpoint K, 0, seL4_BreakOnRead K))"

definition hw_entry :: "('k, 'r) kernel \<Rightarrow> gdb_inferior \<Rightarrow> nat \<Rightarrow> hw_entry option" where
  "hw_entry K I n = (if hw_addr (i_hw I n) = 0 then None
     else Some (hw_addr (i_hw I n), seL4_DataBreakpoint K, hw_size (i_hw I n), hw_type (i_hw I n)))"

lemma find_cong: "(\<And>x. P x = Q x) \<Longrightarrow> List.find P xs = List.find Q xs"
  by (induction xs) auto

abbreviation hb_value :: "('k, 'r) kernel \<Rightarrow> u64 \<Rightarrow> hw_entry" where
  "hb_value K a \<equiv> (a, seL4_InstructionBreakpoint K, 0, seL4_BreakOnRead K)"

abbreviation hw_value :: "('k, 'r) kernel \<Rightarrow> u64 \<times> u64 \<times> u64 \<Rightarrow> hw_entry" where
  "hw_value K q \<equiv> (case q of (a, ty, sz) \<Rightarrow> (a, seL4_DataBreakpoint K, sz, ty))"

lemma hb_entry_find:
  "List.find (\<lambda>n. hb_addr (i_hb I n) = 0) ns = List.find (\<lambda>n. hb_entry K I n = None) ns"
  "a \<noteq> 0 \<Longrightarrow> List.find (\<lambda>n. hb_addr (i_hb I n) = a) ns = List.find (\<lambda>n. hb_entry K I n = Some (hb_value K a)) ns"
  by (rule find_cong, auto simp: hb_entry_def)+

lemma hw_entry_find:
  "List.find (\<lambda>n. hw_addr (i_hw I n) = 0) ns = List.find (\<lambda>n. hw_entry K I n = None) ns"
  "a \<noteq> 0 \<Longrightarrow> List.find (\<lambda>n. hw_addr (i_hw I n) = a \<and> hw_type (i_hw I n) = ty \<and> hw_size (i_hw I n) = sz) ns =
     List.find (\<lambda>n. hw_entry K I n = Some (hw_value K (a, ty, sz))) ns"
  by (rule find_cong, auto simp: hw_entry_def)+

interpretation hb: hw_table seL4_NumExclusiveBreakpoints seL4_FirstBreakpoint hb_entry
  "\<lambda>a. a \<noteq> 0" hb_value
  "\<lambda>a n I. I\<lparr>i_hb := (i_hb I)(n := (i_hb I n)\<lparr>hb_addr := a\<rparr>)\<rparr>"
  "\<lambda>n I. I\<lparr>i_hb := (i_hb I)(n := (i_hb I n)\<lparr>hb_addr := 0\<rparr>)\<rparr>"
  set_hardware_breakpoint unset_hardware_breakpoint thread_enable_nth_hw_breakpoint
proof (unfold_locales, goal_cases)
  case (5 K i q s)
  show ?case
    by (simp add: set_hardware_breakpoint_def Let_def split_def hb_entry_find [where K = K] cong: if_cong split: option.split)
next
  case (6 q K i s)
  then show ?case
    by (simp add: unset_hardware_breakpoint_def hb_entry_find [where K = K])
next
  case (7 n K s i j i')
  then show ?case
    by (simp add: thread_enable_nth_hw_breakpoint_def hb_entry_def assertR_def split_def Let_def)
qed (simp_all add: hb_entry_def fun_eq_iff)

interpretation hw: hw_table seL4_NumExclusiveWatchpoints seL4_FirstWatchpoint hw_entry
  "\<lambda>(a, ty, sz). a \<noteq> 0" hw_value
  "\<lambda>(a, ty, sz) n I. I\<lparr>i_hw := (i_hw I)(n := \<lparr>hw_addr = a, hw_size = sz, hw_type = ty\<rparr>)\<rparr>"
  "\<lambda>n I. I\<lparr>i_hw := (i_hw I)(n := (i_hw I n)\<lparr>hw_addr := 0\<rparr>)\<rparr>"
  "\<lambda>K i (a, ty, sz). set_hardware_watchpoint K i a ty sz"
  "\<lambda>K i (a, ty, sz). unset_hardware_watchpoint K i a ty sz"
  thread_enable_nth_hw_watchpoint
proof (unfold_locales, goal_cases)
  case (5 K i q s)
  show ?case
    by (cases q) (simp add: set_hardware_watchpoint_def Let_def split_def hw_entry_find(1) [where K = K] cong: if_cong split: option.split)
next
  case (6 q K i s)
  then show ?case
    by (cases q) (simp add: unset_hardware_watchpoint_def hw_entry_find(2) [where K = K])
next
  case (7 n K s i j i')
  then show ?case
    by (simp add: thread_enable_nth_hw_watchpoint_def hw_entry_def assertR_def split_def Let_def)
qed (auto simp: hw_entry_def fun_eq_iff split: if_splits)

section \<open>Both tables and the registers of the threads\<close>

definition hw_synced :: "('k, 'r) kernel \<Rightarrow> ('k \<Rightarrow> breakpoint_regs) \<Rightarrow> 'k \<Rightarrow> gdb_inferior \<Rightarrow> bool" where
  "hw_synced K B k I \<longleftrightarrow> (\<forall>tcb\<in>thread_tcbs I.
     synced (B k tcb) (seL4_FirstBreakpoint K) (seL4_NumExclusiveBreakpoints K) (hb_entry K I) \<and>
     synced (B k tcb) (seL4_FirstWatchpoint K) (seL4_NumExclusiveWatchpoints K) (hw_entry K I))"

text \<open>The two kinds of registers have different numbers.\<close>

definition register_ranges :: "('k, 'r) kernel \<Rightarrow> bool" where
  "register_ranges K \<longleftrightarrow> seL4_NumExclusiveBreakpoints K \<le> 2 ^ 64 \<and> seL4_NumExclusiveWatchpoints K \<le> 2 ^ 64 \<and>
     (\<forall>n < seL4_NumExclusiveBreakpoints K. \<forall>m < seL4_NumExclusiveWatchpoints K.
        seL4_FirstBreakpoint K + of_nat n \<noteq> seL4_FirstWatchpoint K + of_nat m)"

lemma register_ranges_ne:
  "register_ranges K \<Longrightarrow> n < seL4_NumExclusiveBreakpoints K \<Longrightarrow> m < seL4_NumExclusiveWatchpoints K \<Longrightarrow>
     seL4_FirstBreakpoint K + of_nat n \<noteq> seL4_FirstWatchpoint K + of_nat m"
  unfolding register_ranges_def by blast

lemma machine_ranges: "register_ranges machine_kernel"
proof -
  have "(of_nat n :: u64) \<noteq> 6 + of_nat m" if "n < 6" "m < 4" for n m
  proof -
    have "(of_nat n :: u64) = of_nat (6 + m) \<longleftrightarrow> n = 6 + m"
      using that by (intro of_nat_eq_64) simp_all
    then show ?thesis
      using that by simp
  qed
  then show ?thesis
    by (simp add: register_ranges_def)
qed

lemma synced_frame:
  assumes "synced (regs tcb) first count tab"
    and "\<And>n. n < count \<Longrightarrow> regs' tcb (first + of_nat n) = regs tcb (first + of_nat n)"
  shows "synced (regs' tcb) first count tab"
  using assms by (simp add: synced_def)

datatype hw_request =
    BreakSet u64
  | BreakClear u64
  | WatchSet u64 u64 u64
  | WatchClear u64 u64 u64

fun hw_step :: "('k, 'r) kernel \<Rightarrow> nat \<Rightarrow> hw_request \<Rightarrow> 'k gdb \<Rightarrow> bool \<times> 'k gdb" where
  "hw_step K i (BreakSet a) s = set_hardware_breakpoint K i a s"
| "hw_step K i (BreakClear a) s = unset_hardware_breakpoint K i a s"
| "hw_step K i (WatchSet a ty sz) s = set_hardware_watchpoint K i a ty sz s"
| "hw_step K i (WatchClear a ty sz) s = unset_hardware_watchpoint K i a ty sz s"

fun hw_target :: "hw_request \<Rightarrow> u64" where
  "hw_target (BreakSet a) = a"
| "hw_target (BreakClear a) = a"
| "hw_target (WatchSet a ty sz) = a"
| "hw_target (WatchClear a ty sz) = a"

lemma hb_step_synced:
  assumes laws: "breakpoint_unit K B" "register_ranges K" and "a \<noteq> 0"
    and op: "set_hardware_breakpoint K i a s = (True, s') \<or> unset_hardware_breakpoint K i a s = (True, s')"
    and inv: "hw_synced K B (ks s) (inferiors s i)"
  shows "hw_synced K B (ks s') (inferiors s' i)"
proof -
  have count: "seL4_NumExclusiveBreakpoints K \<le> 2 ^ 64"
    using laws(2) by (simp add: register_ranges_def)
  have kept: "thread_tcbs (inferiors s' i) = thread_tcbs (inferiors s i)"
    "hw_entry K (inferiors s' i) = hw_entry K (inferiors s i)"
    using op
    by (auto elim!: hb.set_op_ok [OF laws(1) assms(3)] hb.clear_op_ok [OF laws(1) assms(3)]
        simp: thread_tcbs_def hw_entry_def fun_eq_iff)
  have own: "synced (B (ks s') tcb) (seL4_FirstBreakpoint K) (seL4_NumExclusiveBreakpoints K)
      (hb_entry K (inferiors s' i))" if "tcb \<in> thread_tcbs (inferiors s i)" for tcb
    using op hb.set_op_synced [OF laws(1) assms(3) count _ _ that]
      hb.clear_op_synced [OF laws(1) assms(3) count _ _ that] inv
    unfolding hw_synced_def by blast
  have other: "synced (B (ks s') tcb) (seL4_FirstWatchpoint K) (seL4_NumExclusiveWatchpoints K)
      (hw_entry K (inferiors s i))" if "tcb \<in> thread_tcbs (inferiors s i)" for tcb
  proof (rule synced_frame [of "B (ks s)"])
    show "synced (B (ks s) tcb) (seL4_FirstWatchpoint K) (seL4_NumExclusiveWatchpoints K)
        (hw_entry K (inferiors s i))"
      using inv that by (simp add: hw_synced_def)
    show "B (ks s') tcb (seL4_FirstWatchpoint K + of_nat n) = B (ks s) tcb (seL4_FirstWatchpoint K + of_nat n)"
      if n: "n < seL4_NumExclusiveWatchpoints K" for n
    proof -
      have ne: "seL4_FirstWatchpoint K + of_nat n \<noteq> seL4_FirstBreakpoint K + of_nat m"
        if "m < seL4_NumExclusiveBreakpoints K" for m
        by (rule not_sym) (rule register_ranges_ne [OF laws(2) that n])
      show ?thesis
        using op by (rule disjE) (erule hb.set_op_frame [OF laws(1) assms(3) _ ne], assumption,
          erule hb.clear_op_frame [OF laws(1) assms(3) _ ne])
    qed
  qed
  show ?thesis
    using own other by (simp add: hw_synced_def kept)
qed

lemma hw_step_synced_watch:
  assumes laws: "breakpoint_unit K B" "register_ranges K" and "a \<noteq> 0"
    and op: "set_hardware_watchpoint K i a ty sz s = (True, s') \<or>
      unset_hardware_watchpoint K i a ty sz s = (True, s')"
    and inv: "hw_synced K B (ks s) (inferiors s i)"
  shows "hw_synced K B (ks s') (inferiors s' i)"
proof -
  have count: "seL4_NumExclusiveWatchpoints K \<le> 2 ^ 64"
    using laws(2) by (simp add: register_ranges_def)
  note ok = hw.set_op_ok [OF laws(1), of "(a, ty, sz)", simplified]
    and ok' = hw.clear_op_ok [OF laws(1), of "(a, ty, sz)", simplified]
  have kept: "thread_tcbs (inferiors s' i) = thread_tcbs (inferiors s i)"
    "hb_entry K (inferiors s' i) = hb_entry K (inferiors s i)"
    using op
    by (auto elim!: ok [OF assms(3)] ok' [OF assms(3)] simp: thread_tcbs_def hb_entry_def fun_eq_iff)
  have own: "synced (B (ks s') tcb) (seL4_FirstWatchpoint K) (seL4_NumExclusiveWatchpoints K)
      (hw_entry K (inferiors s' i))" if "tcb \<in> thread_tcbs (inferiors s i)" for tcb
    using op hw.set_op_synced [OF laws(1), of "(a, ty, sz)", simplified, OF assms(3) count [simplified] _ _ that]
      hw.clear_op_synced [OF laws(1), of "(a, ty, sz)", simplified, OF assms(3) count [simplified] _ _ that] inv
    unfolding hw_synced_def by blast
  have other: "synced (B (ks s') tcb) (seL4_FirstBreakpoint K) (seL4_NumExclusiveBreakpoints K)
      (hb_entry K (inferiors s i))" if "tcb \<in> thread_tcbs (inferiors s i)" for tcb
  proof (rule synced_frame [of "B (ks s)"])
    show "synced (B (ks s) tcb) (seL4_FirstBreakpoint K) (seL4_NumExclusiveBreakpoints K)
        (hb_entry K (inferiors s i))"
      using inv that by (simp add: hw_synced_def)
    show "B (ks s') tcb (seL4_FirstBreakpoint K + of_nat n) = B (ks s) tcb (seL4_FirstBreakpoint K + of_nat n)"
      if n: "n < seL4_NumExclusiveBreakpoints K" for n
    proof -
      have ne: "seL4_FirstBreakpoint K + of_nat n \<noteq> seL4_FirstWatchpoint K + of_nat m"
        if "m < seL4_NumExclusiveWatchpoints K" for m
        by (rule register_ranges_ne [OF laws(2) n that])
      show ?thesis
        using op by (rule disjE)
          (erule hw.set_op_frame [OF laws(1), of "(a, ty, sz)", simplified, OF assms(3) _ ne], assumption,
          erule hw.clear_op_frame [OF laws(1), of "(a, ty, sz)", simplified, OF assms(3) _ ne])
    qed
  qed
  show ?thesis
    using own other by (simp add: hw_synced_def kept)
qed

lemma hw_step_synced:
  assumes "breakpoint_unit K B" and "register_ranges K" and "hw_target q \<noteq> 0"
    and "hw_step K i q s = (True, s')" and "hw_synced K B (ks s) (inferiors s i)"
  shows "hw_synced K B (ks s') (inferiors s' i)"
  using assms(3,4) hb_step_synced [OF assms(1,2) _ _ assms(5)]
    hw_step_synced_watch [OF assms(1,2) _ _ assms(5)]
  by (cases q; simp; blast)

section \<open>Properties\<close>


definition one_thread :: "machine gdb" where
  "one_thread = upd_thr 0 0 (\<lambda>t. t\<lparr>t_enabled := True, t_inferior := Some 0, t_id := 5, t_gdb_id := 1, t_tcb := 9\<rparr>)
     (upd_inf 0 (\<lambda>I. I\<lparr>i_enabled := True, i_id := 3, i_gdb_id := 1, i_vspace := 4, i_curr_thread_idx := 1\<rparr>)
       (init_gdb machine0)\<lparr>curr_inferior_idx := 1, target_thread := Some (0, 0)\<rparr>)"

lemma one_thread_synced: "hw_synced machine_kernel mc_bp (ks one_thread) (inferiors one_thread 0)"
  by (simp add: hw_synced_def synced_def one_thread_def init_gdb_def machine0_def hb_entry_def hw_entry_def
      zero_inferior_def zero_hb_def zero_hw_def)


text \<open>Round trip of a watchpoint: clearing a watchpoint that was just granted succeeds, and
  both the table and the breakpoint registers of every thread are what they were.\<close>

lemma watchpoint_set_then_clear:
  assumes "breakpoint_unit K B" and "register_ranges K" and "a \<noteq> 0"
    and "set_hardware_watchpoint K i a ty sz s = (True, s1)"
    and "\<And>n. n < seL4_NumExclusiveWatchpoints K \<Longrightarrow>
      hw_entry K (inferiors s i) n \<noteq> Some (a, seL4_DataBreakpoint K, sz, ty)"
    and "hw_synced K B (ks s) (inferiors s i)"
  shows "\<exists>s2. unset_hardware_watchpoint K i a ty sz s1 = (True, s2) \<and>
    hw_entry K (inferiors s2 i) = hw_entry K (inferiors s i) \<and> B (ks s2) = B (ks s)"
proof -
  have "seL4_NumExclusiveWatchpoints K \<le> 2 ^ 64"
    using assms(2) by (simp add: register_ranges_def)
  then show ?thesis
    using hw.set_then_clear [OF assms(1), of "(a, ty, sz)" i s s1] assms(3-6)
    by (simp add: hw_synced_def)
qed

end
