(* ===== verification/Gdb_Reply.thy ===== *)
theory Gdb_Reply
  imports Gdb_State
begin

text \<open>
  Replies. Every handler of \<open>src/gdb.c\<close> builds its reply in the output buffer, by copying
  strings with \<open>strlcpy\<close> and appending thread identifiers with \<open>write_thread_id\<close>.
  \<open>reply b xs\<close> is the buffer \<open>b\<close> holding the C string \<open>xs\<close>; the collection \<open>buf_simps\<close>
  evaluates the routines on it.
\<close>

section \<open>Thread identifiers in replies\<close>

definition write_thread_id :: "'k gdb \<Rightarrow> nat \<times> nat \<Rightarrow> u8 list \<Rightarrow> nat \<Rightarrow> (u8 list \<times> nat) res" where
  "write_thread_id s t buf p =
    bindR (put buf p (ch CHR ''p'')) (\<lambda>buf1.
    deref (t_inferior (thr s (fst t) (snd t))) (\<lambda>i.
    bindR (mem2hex (word_bytes 2 (i_gdb_id (inferiors s i))) buf1 (p + 1) 1) (\<lambda>(buf2, p2).
    bindR (put buf2 p2 (ch CHR ''.'')) (\<lambda>buf3.
    mem2hex (word_bytes 2 (t_gdb_id (thr s (fst t) (snd t)))) buf3 (p2 + 1) 1))))"

text \<open>The identifier of a thread whose inferior has the GDB identifier \<open>g\<close>.\<close>

definition id_text :: "u16 \<Rightarrow> u16 \<Rightarrow> u8 list" where
  "id_text g h = ch CHR ''p'' # hex_encode [ucast g] @ ch CHR ''.'' # hex_encode [ucast h]"

definition thread_text :: "'k gdb \<Rightarrow> nat \<times> nat \<Rightarrow> u8 list" where
  "thread_text s t = id_text (case t_inferior (thr s (fst t) (snd t)) of
     None \<Rightarrow> 0 | Some i \<Rightarrow> i_gdb_id (inferiors s i)) (t_gdb_id (thr s (fst t) (snd t)))"

lemma length_id_text [simp]: "length (id_text g h) = 6"
  by (simp add: id_text_def)

lemma length_thread_text [simp]: "length (thread_text s t) = 6"
  by (simp add: thread_text_def)

lemma hex_encode_no_zero [simp]: "0 \<notin> set (hex_encode cs)"
  by (rule hex.encode_no_terminator)

lemma id_text_no_zero [simp]: "0 \<notin> set (id_text g h)"
  using hex_encode_no_zero [of "[ucast g]"] hex_encode_no_zero [of "[ucast h]"]
  by (simp add: id_text_def)

lemma thread_text_no_zero [simp]: "0 \<notin> set (thread_text s t)"
  by (simp add: thread_text_def)

lemma word_bytes_take_1: "take 1 (word_bytes 2 (w :: u16)) = [ucast w]"
  by (simp add: word_bytes_def get_byte_def upt_rec)

lemma mem2hex_gdb_id:
  "p + 2 < length b \<Longrightarrow> mem2hex (word_bytes 2 (w :: u16)) b p 1 =
     Inr (patch b p (hex_encode [ucast w] @ [0]), p + 2)"
  using mem2hex_patch [of 1 "word_bytes 2 w" p b] by (simp add: word_bytes_take_1 [simplified])

lemma write_thread_id_patch:
  assumes "t_inferior (thr s (fst t) (snd t)) = Some i" and "p + 6 < length b"
  shows "write_thread_id s t b p = Inr (patch b p (thread_text s t @ [0]), p + 6)"
proof -
  let ?g = "hex_encode [ucast (i_gdb_id (inferiors s i))]" and ?h = "hex_encode [ucast (t_gdb_id (thr s (fst t) (snd t)))]"
  let ?b1 = "patch b p [ch CHR ''p'']" and ?b2 = "patch b p (ch CHR ''p'' # ?g @ [0])"
    and ?b3 = "patch b p (ch CHR ''p'' # ?g @ [ch CHR ''.''])"
  have len: "length ?b1 = length b" "length ?b2 = length b" "length ?b3 = length b"
    using assms(2) by (subst length_patch; simp)+
  have 1: "put b p (ch CHR ''p'') = Inr ?b1"
    using assms(2) by (simp add: put_patch)
  have 2: "mem2hex (word_bytes 2 (i_gdb_id (inferiors s i))) ?b1 (p + 1) 1 = Inr (?b2, p + 3)"
    using assms(2) patch_patch [of p "[ch CHR ''p'']" b "?g @ [0]"] len mem2hex_gdb_id [of "p + 1" ?b1 "i_gdb_id (inferiors s i)"]
    by simp
  have 3: "put ?b2 (p + 3) (ch CHR ''.'') = Inr ?b3"
    using assms(2) len patch_overlap [of p "ch CHR ''p'' # ?g" "[0]" b "[ch CHR ''.'']"] put_patch [of "p + 3" ?b2 "ch CHR ''.''"]
    by (simp add: numeral_3_eq_3)
  have 4: "mem2hex (word_bytes 2 (t_gdb_id (thr s (fst t) (snd t)))) ?b3 (p + 4) 1 =
      Inr (patch b p (ch CHR ''p'' # ?g @ ch CHR ''.'' # ?h @ [0]), p + 6)"
    using assms(2) len patch_patch [of p "ch CHR ''p'' # ?g @ [ch CHR ''.'']" b "?h @ [0]"]
      mem2hex_gdb_id [of "p + 4" ?b3 "t_gdb_id (thr s (fst t) (snd t))"]
    by (simp add: numeral_eq_Suc)
  from 1 2 3 4 show ?thesis
    unfolding write_thread_id_def thread_text_def id_text_def assms(1)
    by (simp add: numeral_eq_Suc)
qed

section \<open>A buffer that holds a string\<close>

definition reply :: "u8 list \<Rightarrow> u8 list \<Rightarrow> u8 list" where
  "reply b xs = patch b 0 (xs @ [0])"

lemma length_reply [simp, buf_simps]: "length xs < length b \<Longrightarrow> length (reply b xs) = length b"
  by (simp add: reply_def)

lemma content_reply [simp, buf_simps]: "0 \<notin> set xs \<Longrightarrow> content (reply b xs) = xs"
  by (simp add: reply_def content_patch)

lemma reply_append: "length xs + length ys < length b \<Longrightarrow>
    patch (reply b xs) (length xs) (ys @ [0]) = reply b (xs @ ys)"
  using patch_overlap [of 0 xs "[0]" b "ys @ [0]"] by (simp add: reply_def)

lemma reply_reply [simp, buf_simps]: "length xs \<le> length ys \<Longrightarrow> length xs < length b \<Longrightarrow> reply (reply b xs) ys = reply b ys"
  by (simp add: reply_def patch_patch_over)

lemma zero_in_reply [simp]: "0 \<in> set (reply b xs)"
  by (simp add: reply_def patch_def)

lemma reply_empty: "0 < length b \<Longrightarrow> b[0 := 0] = reply b []"
  using put_patch [of 0 b 0] by (simp add: reply_def put_def)

lemma strlcpy_reply [buf_simps]:
  assumes "length xs + length s < length b" and "length s < BUFSIZE" and "0 \<notin> set (str s)"
  shows "strlcpy (reply b xs) (length xs) (cstr s) BUFSIZE = Inr (reply b (xs @ str s), length s)"
  using strlcpy_fits [of "str s" BUFSIZE "length xs" "reply b xs"] assms
  by (simp add: cstr_def reply_append)

lemma strlcpy_first [buf_simps]:
  assumes "length s < length b" and "length s < BUFSIZE" and "0 \<notin> set (str s)"
  shows "strlcpy b 0 (cstr s) BUFSIZE = Inr (reply b (str s), length s)"
  using strlcpy_fits [of "str s" BUFSIZE 0 b] assms by (simp add: cstr_def reply_def)

lemma strnlen_reply [buf_simps]:
  "0 \<notin> set xs \<Longrightarrow> length xs \<le> BUFSIZE \<Longrightarrow> strnlen (reply b xs) BUFSIZE = Inr (length xs)"
  by (simp add: strnlen_content min_def)

lemma write_thread_id_reply [buf_simps]:
  assumes "t_inferior (thr s (fst t) (snd t)) = Some i" and "length xs + 6 < length b"
  shows "write_thread_id s t (reply b xs) (length xs) =
    Inr (reply b (xs @ thread_text s t), length xs + 6)"
  using write_thread_id_patch [OF assms(1), of "length xs" "reply b xs"] assms(2)
  by (simp add: reply_append)

text \<open>A reply over any buffer, whatever it held.\<close>

definition copy_reply :: "u8 list \<Rightarrow> string \<Rightarrow> u8 list res" where
  "copy_reply b s = bindR (strlcpy b 0 (cstr s) BUFSIZE) (\<lambda>(b', _). Inr b')"

lemma copy_reply_eq [simp, buf_simps]:
  "length s < length b \<Longrightarrow> length s < BUFSIZE \<Longrightarrow> 0 \<notin> set (str s) \<Longrightarrow> copy_reply b s = Inr (reply b (str s))"
  by (simp add: copy_reply_def strlcpy_first)

end
