(* ===== verification/Gdb_Registry.thy ===== *)
theory Gdb_Registry
  imports Gdb_Hardware Gdb_Reply
begin

text \<open>
  The registry of inferiors and threads of \<open>src/gdb.c\<close>: registration, lookup by the
  client's identifiers and by the identifiers told to GDB, exit of a thread, and the calls
  that suspend and resume the whole system.
\<close>

section \<open>Lookup by the client's identifiers\<close>

definition lookup_inferior_from_id :: "u64 \<Rightarrow> 'k gdb \<Rightarrow> nat option" where
  "lookup_inferior_from_id inferior_id s =
     List.find (\<lambda>i. i_enabled (inferiors s i) \<and> i_id (inferiors s i) = inferior_id) [0..<MAX_PDS]"

definition lookup_thread_from_id :: "nat \<Rightarrow> u64 \<Rightarrow> 'k gdb \<Rightarrow> nat option" where
  "lookup_thread_from_id i thread_id s =
     List.find (\<lambda>j. t_enabled (thr s i j) \<and> t_id (thr s i j) = thread_id) [0..<MAX_THREADS]"

section \<open>Lookup by the identifiers told to GDB\<close>

text \<open>\<open>%\<close> of C takes the sign of the dividend; \<open>x - 1\<close> overflows for the least \<open>int\<close>.\<close>

definition c_mod :: "int \<Rightarrow> int \<Rightarrow> int" where
  "c_mod a b = (if 0 \<le> a then a mod b else - ((- a) mod b))"

definition id_to_idx :: "int \<Rightarrow> nat \<Rightarrow> int res" where
  "id_to_idx x cap = (if x = - 2147483648 then Inl IntOverflow else Inr (c_mod (x - 1) (int cap)))"

definition array_idx :: "int \<Rightarrow> nat \<Rightarrow> nat res" where
  "array_idx x cap = (if 0 \<le> x \<and> x < int cap then Inr (nat x) else Inl OutOfBounds)"

definition lookup_inferior_from_gdb_id :: "int \<Rightarrow> 'k gdb \<Rightarrow> nat option res" where
  "lookup_inferior_from_gdb_id proc_id s =
    bindR (id_to_idx proc_id MAX_PDS) (\<lambda>x.
    bindR (array_idx x MAX_PDS) (\<lambda>i.
    Inr (if uint (i_gdb_id (inferiors s i)) \<noteq> proc_id then None else Some i)))"

definition lookup_thread_from_gdb_id :: "int \<Rightarrow> int \<Rightarrow> 'k gdb \<Rightarrow> (nat \<times> nat) option res" where
  "lookup_thread_from_gdb_id proc_id thread_id s =
    bindR (id_to_idx proc_id MAX_PDS) (\<lambda>x.
    bindR (array_idx x MAX_PDS) (\<lambda>i.
    if uint (i_gdb_id (inferiors s i)) \<noteq> proc_id then Inr None
    else bindR (id_to_idx thread_id MAX_THREADS) (\<lambda>y.
         bindR (array_idx y MAX_THREADS) (\<lambda>j.
         Inr (if uint (t_gdb_id (thr s i j)) \<noteq> thread_id then None else Some (i, j))))))"

section \<open>Registration\<close>

text \<open>
  The loop over the slots from the running index on: \<open>next_free used c n\<close> looks at \<open>n\<close>
  indices, and returns the free one (\<open>None\<close> if there is none) and the index where it stopped.
\<close>

fun next_free :: "(nat \<Rightarrow> bool) \<Rightarrow> nat \<Rightarrow> nat \<Rightarrow> nat option \<times> nat" where
  "next_free used c 0 = (None, c)"
| "next_free used c (Suc n) = (if used c then next_free used (c + 1) n else (Some c, c))"

definition gdb_register_inferior :: "u64 \<Rightarrow> u64 \<Rightarrow> 'k gdb \<Rightarrow> (DebuggerError \<times> 'k gdb) res" where
  "gdb_register_inferior inferior_id vspace s =
    (case lookup_inferior_from_id inferior_id s of
       Some i \<Rightarrow> Inr (if i_vspace (inferiors s i) = vspace then AlreadyRegistered else InvalidArguments, s)
     | None \<Rightarrow>
         if curr_inferior_idx s + MAX_PDS > INT_MAX then Inl IntOverflow
         else (case next_free (\<lambda>c. i_enabled (inferiors s (c mod MAX_PDS))) (curr_inferior_idx s) MAX_PDS of
                 (None, c) \<Rightarrow> Inr (InsufficientResources, s\<lparr>curr_inferior_idx := c\<rparr>)
               | (Some _, c) \<Rightarrow>
                   Inr (NoError, upd_inf (c mod MAX_PDS) (\<lambda>I. I\<lparr>i_enabled := True, i_id := inferior_id,
                       i_gdb_id := of_nat (c + 1), i_vspace := vspace, i_curr_thread_idx := 0,
                       i_threads := (\<lambda>_. zero_thread), i_sw := (\<lambda>_. zero_sw), i_hb := (\<lambda>_. zero_hb),
                       i_hw := (\<lambda>_. zero_hw)\<rparr>) (s\<lparr>curr_inferior_idx := c + 1\<rparr>))))"

text \<open>The reply that announces a thread, when there was one before.\<close>

definition announce_clone :: "'k gdb \<Rightarrow> nat \<times> nat \<Rightarrow> nat \<times> nat \<Rightarrow> u8 list \<Rightarrow> u8 list res" where
  "announce_clone s t target output =
    bindR (strlcpy output 0 (cstr ''T05clone:'') BUFSIZE) (\<lambda>(o1, _).
    bindR (strnlen o1 BUFSIZE) (\<lambda>n1.
    bindR (write_thread_id s t o1 n1) (\<lambda>(o2, p2).
    bindR (strlcpy o2 p2 (cstr '';thread:'') BUFSIZE) (\<lambda>(o3, _).
    bindR (strnlen o3 BUFSIZE) (\<lambda>n3.
    bindR (write_thread_id s target o3 n3) (\<lambda>(o4, p4).
    bindR (strlcpy o4 p4 (cstr '';'') BUFSIZE) (\<lambda>(o5, _). Inr o5)))))))"

definition enable_hw :: "('k, 'r) kernel \<Rightarrow> nat \<times> nat \<Rightarrow> 'k gdb \<Rightarrow> 'k gdb res" where
  "enable_hw K t s =
    bindR (iterR (\<lambda>n s. bindR (thread_enable_nth_hw_breakpoint K t n s) (\<lambda>(_, s'). Inr s'))
             [0..<seL4_NumExclusiveBreakpoints K] s)
      (iterR (\<lambda>n s. bindR (thread_enable_nth_hw_watchpoint K t n s) (\<lambda>(_, s'). Inr s'))
             [0..<seL4_NumExclusiveWatchpoints K])"

text \<open>The fields of the new thread, and the running index past its slot.\<close>

definition add_thread :: "nat \<Rightarrow> nat \<Rightarrow> u64 \<Rightarrow> u64 \<Rightarrow> 'k gdb \<Rightarrow> 'k gdb" where
  "add_thread i c thread_id tcb s =
     upd_thr i (c mod MAX_THREADS) (\<lambda>t. t\<lparr>t_enabled := True, t_wakeup := False,
         t_ss_enabled := False, t_inferior := Some i, t_id := thread_id,
         t_gdb_id := of_nat (c + 1), t_tcb := tcb\<rparr>)
       (upd_inf i (\<lambda>I. I\<lparr>i_curr_thread_idx := c + 1\<rparr>) s)"

definition gdb_register_thread ::
  "('k, 'r) kernel \<Rightarrow> u64 \<Rightarrow> u64 \<Rightarrow> u64 \<Rightarrow> u8 list \<Rightarrow> 'k gdb \<Rightarrow> (DebuggerError \<times> u8 list \<times> 'k gdb) res" where
  "gdb_register_thread K inferior_id thread_id tcb output s =
    (case lookup_inferior_from_id inferior_id s of
       None \<Rightarrow> Inr (InvalidArguments, output, s)
     | Some i \<Rightarrow>
         (case lookup_thread_from_id i thread_id s of
            Some j \<Rightarrow> Inr (if t_tcb (thr s i j) = tcb then AlreadyRegistered else InvalidArguments, output, s)
          | None \<Rightarrow>
              if i_curr_thread_idx (inferiors s i) + MAX_THREADS > INT_MAX then Inl IntOverflow
              else (case next_free (\<lambda>c. t_enabled (thr s i (c mod MAX_THREADS)))
                          (i_curr_thread_idx (inferiors s i)) MAX_THREADS of
                      (None, c) \<Rightarrow> Inr (InsufficientResources, output, upd_inf i (\<lambda>I. I\<lparr>i_curr_thread_idx := c\<rparr>) s)
                    | (Some _, c) \<Rightarrow>
                        (let j = c mod MAX_THREADS
                         in bindR (enable_hw K (i, j) (add_thread i c thread_id tcb s)) (\<lambda>s2.
                            case target_thread s2 of
                              None \<Rightarrow> Inr (NoError, output, s2\<lparr>target_thread := Some (i, j)\<rparr>)
                            | Some target \<Rightarrow>
                                bindR (announce_clone s2 (i, j) target output) (\<lambda>output'.
                                Inr (NoError, output', s2)))))))"

definition gdb_thread_exit ::
  "u64 \<Rightarrow> u64 \<Rightarrow> u8 list \<Rightarrow> 'k gdb \<Rightarrow> (DebuggerError \<times> u8 list \<times> 'k gdb) res" where
  "gdb_thread_exit inferior_id thread_id output s =
    (case lookup_inferior_from_id inferior_id s of
       None \<Rightarrow> Inr (InvalidArguments, output, s)
     | Some i \<Rightarrow>
         (case lookup_thread_from_id i thread_id s of
            None \<Rightarrow> Inr (InvalidArguments, output, s)
          | Some j \<Rightarrow>
              (let s1 = upd_thr i j (\<lambda>t. t\<lparr>t_enabled := False\<rparr>) s
               in bindR (strlcpy output 0 (cstr ''w00;'') BUFSIZE) (\<lambda>(o1, _).
                  bindR (strnlen o1 BUFSIZE) (\<lambda>n1.
                  bindR (write_thread_id s1 (i, j) o1 n1) (\<lambda>(o2, _).
                  Inr (NoError, o2, s1)))))))"

section \<open>The whole system\<close>

text \<open>The loop over the threads that are enabled in an enabled inferior.\<close>

definition for_threads :: "'k gdb \<Rightarrow> (gdb_thread \<Rightarrow> 's \<Rightarrow> 's) \<Rightarrow> 's \<Rightarrow> 's" where
  "for_threads s f =
    fold (\<lambda>i x. if i_enabled (inferiors s i)
      then fold (\<lambda>j x. if t_enabled (thr s i j) then f (thr s i j) x else x) [0..<MAX_THREADS] x
      else x) [0..<MAX_PDS]"

definition suspend_system :: "('k, 'r) kernel \<Rightarrow> 'k gdb \<Rightarrow> 'k gdb" where
  "suspend_system K s = s\<lparr>ks := for_threads s (\<lambda>t k. TCB_Suspend K k (t_tcb t)) (ks s)\<rparr>"

definition resume_system :: "('k, 'r) kernel \<Rightarrow> 'k gdb \<Rightarrow> 'k gdb" where
  "resume_system K s =
     s\<lparr>ks := for_threads s (\<lambda>t k. if t_wakeup t then TCB_Resume K k (t_tcb t) else k) (ks s)\<rparr>"

section \<open>Tables of identifiers\<close>

definition ids_distinct :: "nat \<Rightarrow> (nat \<Rightarrow> u64 option) \<Rightarrow> bool" where
  "ids_distinct cap ids \<longleftrightarrow> (\<forall>i<cap. \<forall>j<cap. ids i \<noteq> None \<longrightarrow> ids i = ids j \<longrightarrow> i = j)"

text \<open>
  The contract of a lookup by identifier in a table of \<open>cap\<close> slots, of which \<open>id_of\<close> gives
  the identifier of a slot in use.
\<close>

locale id_table =
  fixes cap :: nat and id_of :: "'s \<Rightarrow> nat \<Rightarrow> u64 option" and lookup :: "u64 \<Rightarrow> 's \<Rightarrow> nat option"
  assumes lookup_eq: "lookup x s = List.find (\<lambda>i. id_of s i = Some x) [0..<cap]"
begin

lemma lookup_SomeD: "lookup x s = Some i \<Longrightarrow> i < cap \<and> id_of s i = Some x"
  by (simp add: lookup_eq find_upt_Some)

lemma lookup_None: "lookup x s = None \<longleftrightarrow> (\<forall>i<cap. id_of s i \<noteq> Some x)"
  by (simp add: lookup_eq find_upt_None)

lemma lookup_unique:
  assumes "ids_distinct cap (id_of s)" and "i < cap" and "id_of s i = Some x"
  shows "lookup x s = Some i"
proof -
  have "id_of s j \<noteq> Some x" if "j < i" for j
    using assms that unfolding ids_distinct_def by (metis less_trans less_irrefl option.discI)
  then show ?thesis
    using assms(2,3) by (simp add: lookup_eq find_upt_Some)
qed

lemma insert_distinct:
  assumes "ids_distinct cap (id_of s)" and "lookup x s = None" and "id_of s' = (id_of s)(i := Some x)"
  shows "ids_distinct cap (id_of s')"
  using assms(1,2) unfolding ids_distinct_def lookup_None assms(3) by (auto split: if_splits)

lemma insert_lookup:
  assumes "ids_distinct cap (id_of s)" and "lookup x s = None" and "id_of s' = (id_of s)(i := Some x)"
    and "i < cap"
  shows "lookup x s' = Some i"
  using lookup_unique [OF insert_distinct [OF assms(1-3)] assms(4)] by (simp add: assms(3))

lemma insert_lookup_other:
  assumes "ids_distinct cap (id_of s)" and "lookup x s = None" and "id_of s' = (id_of s)(i := Some x)"
    and "id_of s i = None" and "y \<noteq> x"
  shows "lookup y s' = lookup y s"
proof -
  have "(id_of s' j = Some y) = (id_of s j = Some y)" for j
    using assms(4,5) by (simp add: assms(3))
  then show ?thesis
    by (simp add: lookup_eq)
qed

lemma remove_distinct:
  assumes "ids_distinct cap (id_of s)" and "id_of s' = (id_of s)(i := None)"
  shows "ids_distinct cap (id_of s')"
  using assms(1) unfolding ids_distinct_def assms(2) by (auto split: if_splits)

lemma remove_lookup:
  assumes "ids_distinct cap (id_of s)" and "lookup x s = Some i" and "id_of s' = (id_of s)(i := None)"
  shows "lookup x s' = None"
proof -
  have "id_of s j \<noteq> Some x" if "j < cap" "j \<noteq> i" for j
  proof
    assume "id_of s j = Some x"
    with that(1) have "lookup x s = Some j"
      by (intro lookup_unique [OF assms(1)])
    with assms(2) that(2) show False
      by simp
  qed
  then show ?thesis
    by (simp add: lookup_None assms(3))
qed

end

definition inferior_ids :: "'k gdb \<Rightarrow> nat \<Rightarrow> u64 option" where
  "inferior_ids s i = (if i_enabled (inferiors s i) then Some (i_id (inferiors s i)) else None)"

definition thread_ids :: "nat \<Rightarrow> 'k gdb \<Rightarrow> nat \<Rightarrow> u64 option" where
  "thread_ids i s j = (if t_enabled (thr s i j) then Some (t_id (thr s i j)) else None)"

interpretation inferior_table: id_table MAX_PDS inferior_ids lookup_inferior_from_id
  by unfold_locales (auto simp: lookup_inferior_from_id_def inferior_ids_def intro: find_cong)

interpretation thread_table: id_table MAX_THREADS "thread_ids i" "lookup_thread_from_id i" for i
  by unfold_locales (auto simp: lookup_thread_from_id_def thread_ids_def intro: find_cong)

section \<open>The running index\<close>

lemma next_free_Some:
  "next_free used c n = (Some d, e) \<Longrightarrow>
     e = d \<and> c \<le> d \<and> d < c + n \<and> \<not> used d \<and> (\<forall>x. c \<le> x \<longrightarrow> x < d \<longrightarrow> used x)"
proof (induction n arbitrary: c)
  case (Suc n)
  show ?case
  proof (cases "used c")
    case True
    with Suc.prems Suc.IH [of "c + 1"] show ?thesis
      by simp (metis Suc_leI le_neq_implies_less)
  qed (use Suc.prems in auto)
qed simp

lemma next_free_None:
  "next_free used c n = (None, e) \<Longrightarrow> e = c + n \<and> (\<forall>x. c \<le> x \<longrightarrow> x < c + n \<longrightarrow> used x)"
proof (induction n arbitrary: c)
  case (Suc n)
  then have "used c" and "next_free used (c + 1) n = (None, e)"
    by (simp_all split: if_splits)
  with Suc.IH [of "c + 1"] show ?case
    by simp (metis Suc_leI le_neq_implies_less)
qed simp

text \<open>A window as long as the table meets every slot.\<close>

lemma window_meets:
  assumes "i < (m :: nat)"
  obtains x where "c \<le> x" and "x < c + m" and "x mod m = i"
proof
  let ?d = "(i + m - c mod m) mod m"
  have "c mod m < m"
    using assms by simp
  show "c \<le> c + ?d" and "c + ?d < c + m"
    using assms by simp_all
  have "(c + ?d) mod m = (c mod m + (i + m - c mod m)) mod m"
    by (simp add: mod_simps)
  also have "c mod m + (i + m - c mod m) = i + m"
    using \<open>c mod m < m\<close> by linarith
  also have "(i + m) mod m = i"
    using assms by simp
  finally show "(c + ?d) mod m = i" .
qed

lemma next_free_full:
  assumes "next_free (\<lambda>c. used (c mod m)) c m = (None, e)" and "i < m"
  shows "used i"
  using next_free_None [OF assms(1)] window_meets [OF assms(2), of c] by metis

lemma next_free_exists:
  assumes "i < m" and "\<not> used i"
  obtains d where "next_free (\<lambda>c. used (c mod m)) c m = (Some d, d)"
proof (cases "next_free (\<lambda>c. used (c mod m)) c m")
  case (Pair r e)
  then show thesis
    using that next_free_full [of used m c e i] next_free_Some [of _ c m _ e] assms by (cases r) metis+
qed

section \<open>Identifiers told to GDB\<close>

lemma id_to_idx_pos:
  assumes "1 \<le> x" and "0 < cap"
  shows "bindR (id_to_idx x cap) (\<lambda>y. bindR (array_idx y cap) f) = f (nat ((x - 1) mod int cap))"
  using assms by (simp add: id_to_idx_def c_mod_def array_idx_def)

text \<open>Zero and the negative identifiers leave the array or find nothing there.\<close>

lemma id_to_idx_zero:
  assumes "2 \<le> cap"
  shows "bindR (id_to_idx 0 cap) (\<lambda>y. bindR (array_idx y cap) f) = Inl OutOfBounds"
  using assms by (simp add: id_to_idx_def c_mod_def array_idx_def)

lemma nat_mod_pred: "0 < x \<Longrightarrow> nat ((int x - 1) mod int cap) = (x - 1) mod cap"
proof -
  assume "0 < x"
  then have "int x - 1 = int (x - 1)"
    by simp
  then have "(int x - 1) mod int cap = int ((x - 1) mod cap)"
    by (simp only: zmod_int)
  then show ?thesis
    by (simp only: nat_int)
qed

section \<open>Well-formed states\<close>

text \<open>
  The slots of threads: a thread in use points back to its inferior, and its GDB identifier
  is one more than an index below the running index that falls on its slot.
\<close>

definition threads_wf :: "nat \<Rightarrow> gdb_inferior \<Rightarrow> bool" where
  "threads_wf i I \<longleftrightarrow>
    (\<forall>j<MAX_THREADS. t_enabled (i_threads I j) \<longrightarrow>
       t_inferior (i_threads I j) = Some i \<and>
       (\<exists>c<i_curr_thread_idx I. c mod MAX_THREADS = j \<and> t_gdb_id (i_threads I j) = of_nat (c + 1))) \<and>
    (\<forall>j<MAX_THREADS. \<forall>j'<MAX_THREADS. t_enabled (i_threads I j) \<longrightarrow> t_enabled (i_threads I j') \<longrightarrow>
       t_id (i_threads I j) = t_id (i_threads I j') \<longrightarrow> j = j')"

definition target_wf :: "'k gdb \<Rightarrow> bool" where
  "target_wf s \<longleftrightarrow> (case target_thread s of None \<Rightarrow> True | Some (i, j) \<Rightarrow>
     i < MAX_PDS \<and> j < MAX_THREADS \<and> i_enabled (inferiors s i) \<and> t_inferior (thr s i j) = Some i)"

text \<open>
  Inferiors are never removed, so they fill the table from the front, and the GDB identifier
  of an inferior is its position, counted from one.
\<close>

definition gdb_wf :: "'k gdb \<Rightarrow> bool" where
  "gdb_wf s \<longleftrightarrow>
    (\<forall>i<MAX_PDS. i_enabled (inferiors s i) \<longleftrightarrow> i < curr_inferior_idx s) \<and>
    (\<forall>i<MAX_PDS. i_enabled (inferiors s i) \<longrightarrow>
       i_gdb_id (inferiors s i) = of_nat (i + 1) \<and> threads_wf i (inferiors s i)) \<and>
    ids_distinct MAX_PDS (inferior_ids s) \<and> target_wf s"

lemma gdb_wf_init: "gdb_wf (init_gdb k)"
  by (simp add: gdb_wf_def init_gdb_def zero_inferior_def ids_distinct_def inferior_ids_def target_wf_def)

text \<open>What an operation has to leave alone to keep a state well formed.\<close>

lemma gdb_wf_frame:
  assumes "gdb_wf s" and "curr_inferior_idx s' = curr_inferior_idx s" and "target_thread s' = target_thread s"
    and "\<And>i. i < MAX_PDS \<Longrightarrow> i_enabled (inferiors s' i) = i_enabled (inferiors s i) \<and>
      i_id (inferiors s' i) = i_id (inferiors s i) \<and> i_gdb_id (inferiors s' i) = i_gdb_id (inferiors s i) \<and>
      i_curr_thread_idx (inferiors s' i) = i_curr_thread_idx (inferiors s i)"
    and "\<And>i j. t_enabled (thr s' i j) = t_enabled (thr s i j) \<and> t_inferior (thr s' i j) = t_inferior (thr s i j) \<and>
      t_id (thr s' i j) = t_id (thr s i j) \<and> t_gdb_id (thr s' i j) = t_gdb_id (thr s i j)"
  shows "gdb_wf s'"
proof -
  have "threads_wf i (inferiors s' i) = threads_wf i (inferiors s i)" if "i < MAX_PDS" for i
    using assms(4) [OF that] assms(5) by (simp add: threads_wf_def)
  moreover have "target_wf s' = target_wf s"
    using assms(3,4,5) by (auto simp: target_wf_def split: option.splits)
  moreover have "ids_distinct MAX_PDS (inferior_ids s') = ids_distinct MAX_PDS (inferior_ids s)"
    using assms(4) by (simp add: ids_distinct_def inferior_ids_def)
  ultimately show ?thesis
    using assms(1,2,4) by (simp add: gdb_wf_def)
qed

lemma gdb_wf_ks [simp]: "gdb_wf (s\<lparr>ks := k\<rparr>) = gdb_wf s"
  by (auto intro: gdb_wf_frame)

lemma gdb_wf_ids: "gdb_wf s \<Longrightarrow> ids_distinct MAX_PDS (inferior_ids s)"
  by (simp add: gdb_wf_def)

lemma gdb_wf_thread_ids:
  "gdb_wf s \<Longrightarrow> i < MAX_PDS \<Longrightarrow> i_enabled (inferiors s i) \<Longrightarrow> ids_distinct MAX_THREADS (thread_ids i s)"
  by (auto simp: gdb_wf_def threads_wf_def ids_distinct_def thread_ids_def)

section \<open>Registering an inferior\<close>

lemma next_free_hit: "\<not> used c \<Longrightarrow> 0 < n \<Longrightarrow> next_free used c n = (Some c, c)"
  by (cases n) auto

lemma inferior_ids_sel [simp]:
  "inferior_ids (s\<lparr>curr_inferior_idx := c\<rparr>) = inferior_ids s"
  "inferior_ids (s\<lparr>target_thread := t\<rparr>) = inferior_ids s"
  "inferior_ids (s\<lparr>ks := k\<rparr>) = inferior_ids s"
  by (simp_all add: inferior_ids_def fun_eq_iff)

lemma thread_ids_sel [simp]:
  "thread_ids i (s\<lparr>curr_inferior_idx := c\<rparr>) = thread_ids i s"
  "thread_ids i (s\<lparr>target_thread := t\<rparr>) = thread_ids i s"
  "thread_ids i (s\<lparr>ks := k\<rparr>) = thread_ids i s"
  by (simp_all add: thread_ids_def fun_eq_iff)

lemma gdb_register_inferior_known:
  "lookup_inferior_from_id x s = Some i \<Longrightarrow> gdb_register_inferior x vs s =
     Inr (if i_vspace (inferiors s i) = vs then AlreadyRegistered else InvalidArguments, s)"
  by (simp add: gdb_register_inferior_def)

lemma gdb_register_inferior_full:
  assumes "gdb_wf s" and "lookup_inferior_from_id x s = None" and "MAX_PDS \<le> curr_inferior_idx s"
    and "curr_inferior_idx s + MAX_PDS \<le> INT_MAX"
  shows "gdb_register_inferior x vs s =
    Inr (InsufficientResources, s\<lparr>curr_inferior_idx := curr_inferior_idx s + MAX_PDS\<rparr>)"
proof -
  have "i_enabled (inferiors s (c mod MAX_PDS))" for c
    using assms(1,3) by (simp add: gdb_wf_def MAX_PDS_def)
  then have "next_free (\<lambda>c. i_enabled (inferiors s (c mod MAX_PDS))) c n = (None, c + n)" for c n
    by (induction n arbitrary: c) auto
  then show ?thesis
    using assms by (simp add: gdb_register_inferior_def)
qed

lemma gdb_register_inferior_new:
  assumes "gdb_wf s" and "lookup_inferior_from_id x s = None" and "curr_inferior_idx s < MAX_PDS"
  shows "gdb_register_inferior x vs s =
    Inr (NoError, upd_inf (curr_inferior_idx s) (\<lambda>I. I\<lparr>i_enabled := True, i_id := x,
      i_gdb_id := of_nat (curr_inferior_idx s + 1), i_vspace := vs, i_curr_thread_idx := 0,
      i_threads := (\<lambda>_. zero_thread), i_sw := (\<lambda>_. zero_sw), i_hb := (\<lambda>_. zero_hb),
      i_hw := (\<lambda>_. zero_hw)\<rparr>) (s\<lparr>curr_inferior_idx := curr_inferior_idx s + 1\<rparr>))"
proof -
  have "\<not> i_enabled (inferiors s (curr_inferior_idx s mod MAX_PDS))"
    using assms(1,3) by (simp add: gdb_wf_def)
  then have "next_free (\<lambda>c. i_enabled (inferiors s (c mod MAX_PDS))) (curr_inferior_idx s) MAX_PDS =
      (Some (curr_inferior_idx s), curr_inferior_idx s)"
    by (simp add: next_free_hit MAX_PDS_def)
  then show ?thesis
    using assms(2,3) by (simp add: gdb_register_inferior_def MAX_PDS_def INT_MAX_def)
qed

lemma threads_wf_fresh: "threads_wf i (I\<lparr>i_threads := (\<lambda>_. zero_thread)\<rparr>)"
  by (simp add: threads_wf_def zero_thread_def)

lemma gdb_register_inferior_wf:
  assumes "gdb_wf s" and "gdb_register_inferior x vs s = Inr (e, s')"
  shows "gdb_wf s'"
proof (cases "lookup_inferior_from_id x s")
  case (Some i)
  with assms show ?thesis
    by (simp add: gdb_register_inferior_known)
next
  case new: None
  show ?thesis
  proof (cases "curr_inferior_idx s < MAX_PDS")
    case True
    let ?c = "curr_inferior_idx s"
    have s': "s' = upd_inf ?c (\<lambda>I. I\<lparr>i_enabled := True, i_id := x, i_gdb_id := of_nat (?c + 1),
        i_vspace := vs, i_curr_thread_idx := 0, i_threads := (\<lambda>_. zero_thread), i_sw := (\<lambda>_. zero_sw),
        i_hb := (\<lambda>_. zero_hb), i_hw := (\<lambda>_. zero_hw)\<rparr>) (s\<lparr>curr_inferior_idx := ?c + 1\<rparr>)"
      using assms(2) gdb_register_inferior_new [OF assms(1) new True] by simp
    have "inferior_ids s' = (inferior_ids s)(?c := Some x)"
      by (auto simp: s' inferior_ids_def fun_eq_iff)
    then have "ids_distinct MAX_PDS (inferior_ids s')"
      using inferior_table.insert_distinct [OF gdb_wf_ids [OF assms(1)] new] by simp
    moreover have "target_wf s'"
    proof -
      have "\<not> i_enabled (inferiors s ?c)"
        using assms(1) True by (simp add: gdb_wf_def)
      then show ?thesis
        using assms(1) by (auto simp: gdb_wf_def target_wf_def s' split: option.splits)
    qed
    ultimately show ?thesis
      using assms(1) True by (auto simp: gdb_wf_def s' threads_wf_def zero_thread_def)
  next
    case False
    then have *: "curr_inferior_idx s + MAX_PDS \<le> INT_MAX"
      using assms(2) new by (simp add: gdb_register_inferior_def split: if_splits)
    with assms new False have "s' = s\<lparr>curr_inferior_idx := curr_inferior_idx s + MAX_PDS\<rparr>"
      using gdb_register_inferior_full [OF assms(1) new _ *] by simp
    with assms(1) False show ?thesis
      by (auto simp: gdb_wf_def target_wf_def split: option.splits)
  qed
qed

section \<open>Installing the tables in a new thread\<close>

text \<open>
  The kernel may refuse a request, and nothing is said about when. \<open>accepts\<close> is its answer to
  a request in the state \<open>k\<close>; \<open>asked K tcb k0\<close> are the states that requests for the thread lead
  to from \<open>k0\<close>. The registers after the first \<open>m\<close> slots of a table have been copied to them: a
  slot in use has been requested in such a state, and the answer decides whether the register
  has the slot's value or still its old one.
\<close>

inductive asked :: "('k, 'r) kernel \<Rightarrow> u64 \<Rightarrow> 'k \<Rightarrow> 'k \<Rightarrow> bool" for K tcb k0 where
  none: "asked K tcb k0 k0"
| request: "asked K tcb k0 k \<Longrightarrow> TCB_SetBreakpoint K k tcb num addr type sz rw = (err, k') \<Longrightarrow> asked K tcb k0 k'"

lemma asked_trans: "asked K tcb k1 k2 \<Longrightarrow> asked K tcb k0 k1 \<Longrightarrow> asked K tcb k0 k2"
  by (induction rule: asked.induct) (auto intro: asked.intros)

definition accepts :: "('k, 'r) kernel \<Rightarrow> 'k \<Rightarrow> u64 \<Rightarrow> u64 \<Rightarrow> hw_entry \<Rightarrow> bool" where
  "accepts K k tcb num e = (case e of (addr, type, sz, rw) \<Rightarrow> fst (TCB_SetBreakpoint K k tcb num addr type sz rw) = 0)"

definition requested :: "('k, 'r) kernel \<Rightarrow> u64 \<Rightarrow> 'k \<Rightarrow> u64 \<Rightarrow> hw_entry \<Rightarrow> hw_entry option \<Rightarrow> hw_entry option \<Rightarrow> bool" where
  "requested K tcb k0 num e old new \<longleftrightarrow> (\<exists>k. asked K tcb k0 k \<and> new = (if accepts K k tcb num e then Some e else old))"

definition installed ::
  "('k, 'r) kernel \<Rightarrow> u64 \<Rightarrow> 'k \<Rightarrow> u64 \<Rightarrow> nat \<Rightarrow> (nat \<Rightarrow> hw_entry option) \<Rightarrow> (u64 \<rightharpoonup> hw_entry) \<Rightarrow> (u64 \<rightharpoonup> hw_entry) \<Rightarrow> bool"
where
  "installed K tcb k0 first m tab r r' \<longleftrightarrow>
    (\<forall>n<m. \<forall>e. tab n = Some e \<longrightarrow> requested K tcb k0 (first + of_nat n) e (r (first + of_nat n)) (r' (first + of_nat n))) \<and>
    (\<forall>num. (\<forall>n<m. tab n \<noteq> None \<longrightarrow> num \<noteq> first + of_nat n) \<longrightarrow> r' num = r num)"

lemma installed_0 [simp]: "installed K tcb k0 first 0 tab r r"
  by (simp add: installed_def)

lemma installed_skip: "installed K tcb k0 first m tab r r' \<Longrightarrow> tab m = None \<Longrightarrow> installed K tcb k0 first (Suc m) tab r r'"
  by (auto simp: installed_def less_Suc_eq)

lemma installed_step:
  assumes k: "asked K tcb k0 k" and inst: "installed K tcb k0 first m tab r r'" and m: "Suc m \<le> 2 ^ 64" and e: "tab m = Some e"
  shows "installed K tcb k0 first (Suc m) tab r (if accepts K k tcb (first + of_nat m) e then r'(first + of_nat m \<mapsto> e) else r')"
    (is "installed K tcb k0 first (Suc m) tab r ?r")
proof -
  have ne: "(of_nat n :: u64) \<noteq> of_nat m" if "n < m" for n
  proof -
    have "(of_nat n :: u64) = of_nat m \<longleftrightarrow> n = m"
      using that m by (intro of_nat_eq_64) simp_all
    with that show ?thesis
      by simp
  qed
  then have "\<forall>n<m. tab n \<noteq> None \<longrightarrow> first + of_nat m \<noteq> first + of_nat n"
    by (metis add_left_cancel)
  then have "r' (first + of_nat m) = r (first + of_nat m)"
    using inst unfolding installed_def by blast
  then have "requested K tcb k0 (first + of_nat m) e (r (first + of_nat m))
      (if accepts K k tcb (first + of_nat m) e then Some e else r' (first + of_nat m))"
    using k by (auto simp: requested_def)
  then have own: "requested K tcb k0 (first + of_nat m) e (r (first + of_nat m)) (?r (first + of_nat m))"
    by (simp split: if_splits)
  have other: "?r (first + of_nat n) = r' (first + of_nat n)" if "n < m" for n
    using ne [OF that] by simp
  have "?r num = r num" if "\<forall>n<Suc m. tab n \<noteq> None \<longrightarrow> num \<noteq> first + of_nat n" for num
  proof -
    have "num \<noteq> first + of_nat m" "\<forall>n<m. tab n \<noteq> None \<longrightarrow> num \<noteq> first + of_nat n"
      using that e by (metis lessI option.distinct(1)) (use that in \<open>simp add: less_Suc_eq\<close>)
    with inst show ?thesis
      unfolding installed_def by simp
  qed
  moreover have "requested K tcb k0 (first + of_nat n) d (r (first + of_nat n)) (?r (first + of_nat n))"
    if "n < Suc m" "tab n = Some d" for n d
  proof (cases "n = m")
    case True
    with own e that(2) show ?thesis
      by simp
  next
    case False
    with that(1) have "n < m"
      by simp
    with that(2) inst show ?thesis
      unfolding other [OF \<open>n < m\<close>] installed_def by blast
  qed
  ultimately show ?thesis
    unfolding installed_def by blast
qed

lemma installed_later: "installed K tcb k1 first m tab r r' \<Longrightarrow> asked K tcb k0 k1 \<Longrightarrow> installed K tcb k0 first m tab r r'"
  unfolding installed_def requested_def by (blast intro: asked_trans)

context hw_table
begin

lemma enable_all:
  assumes "t_inferior (thr s i j) = Some i'" and "m \<le> count K"
  defines "tcb \<equiv> t_tcb (thr s i j)"
  shows "\<exists>k'. iterR (\<lambda>n s. bindR (enable_op K (i, j) n s) (\<lambda>(_, s'). Inr s')) [0..<m] s = Inr (s\<lparr>ks := k'\<rparr>) \<and> asked K tcb (ks s) k' \<and>
    (\<forall>B. breakpoint_unit K B \<longrightarrow> m \<le> 2 ^ 64 \<longrightarrow> (\<forall>u. u \<noteq> tcb \<longrightarrow> B k' u = B (ks s) u) \<and>
       installed K tcb (ks s) (first K) m (entry K (inferiors s i')) (B (ks s) tcb) (B k' tcb))"
  using assms(2)
proof (induction m)
  case 0
  then show ?case
    by (intro exI [of _ "ks s"]) (simp add: asked.none)
next
  case (Suc m)
  then obtain k1 where k1: "iterR (\<lambda>n s. bindR (enable_op K (i, j) n s) (\<lambda>(_, s'). Inr s')) [0..<m] s = Inr (s\<lparr>ks := k1\<rparr>)"
    and a1: "asked K tcb (ks s) k1"
    and B1: "\<And>B. breakpoint_unit K B \<Longrightarrow> m \<le> 2 ^ 64 \<Longrightarrow> (\<forall>u. u \<noteq> tcb \<longrightarrow> B k1 u = B (ks s) u) \<and>
       installed K tcb (ks s) (first K) m (entry K (inferiors s i')) (B (ks s) tcb) (B k1 tcb)"
    using Suc_leD by blast
  have en: "enable_op K (i, j) m (s\<lparr>ks := k1\<rparr>) =
      (case entry K (inferiors s i') m of
         None \<Rightarrow> Inr (True, s\<lparr>ks := k1\<rparr>)
       | Some (addr, type, sz, rw) \<Rightarrow>
           (let (err, k') = TCB_SetBreakpoint K k1 tcb (first K + of_nat m) addr type sz rw
            in Inr (err = 0, s\<lparr>ks := k'\<rparr>)))"
    using Suc.prems assms(1) enable_op_eq [of m K "s\<lparr>ks := k1\<rparr>" i j i']
    by (cases "entry K (inferiors s i') m") (simp_all add: split_def Let_def tcb_def)
  show ?case
  proof (cases "entry K (inferiors s i') m")
    case None
    then show ?thesis
      using B1 a1 by (intro exI [of _ k1]) (simp add: iterR_append k1 en installed_skip)
  next
    case (Some e)
    obtain addr type sz rw where e: "e = (addr, type, sz, rw)"
      by (cases e)
    obtain err k2 where k2: "TCB_SetBreakpoint K k1 tcb (first K + of_nat m) addr type sz rw = (err, k2)"
      by fastforce
    have B2: "B k2 = (if accepts K k1 tcb (first K + of_nat m) e
        then (B k1)(tcb := (B k1 tcb)(first K + of_nat m \<mapsto> e)) else B k1)" if "breakpoint_unit K B" for B
      using that [unfolded breakpoint_unit_def, THEN conjunct1, rule_format, of k1 tcb "first K + of_nat m" addr type sz rw] k2
      by (simp add: e accepts_def)
    have "iterR (\<lambda>n s. bindR (enable_op K (i, j) n s) (\<lambda>(_, s'). Inr s')) [0..<Suc m] s = Inr (s\<lparr>ks := k2\<rparr>)"
      by (simp add: iterR_append k1 en Some e k2)
    moreover have "(\<forall>u. u \<noteq> tcb \<longrightarrow> B k2 u = B (ks s) u) \<and>
        installed K tcb (ks s) (first K) (Suc m) (entry K (inferiors s i')) (B (ks s) tcb) (B k2 tcb)"
      if "breakpoint_unit K B" "Suc m \<le> 2 ^ 64" for B
    proof -
      have inst: "installed K tcb (ks s) (first K) m (entry K (inferiors s i')) (B (ks s) tcb) (B k1 tcb)"
        using B1 [OF that(1)] that(2) by simp
      show ?thesis
        using B1 [OF that(1)] installed_step [OF a1 inst that(2) Some] that(2)
        by (simp add: B2 [OF that(1)] split: if_splits)
    qed
    moreover have "asked K tcb (ks s) k2"
      using a1 k2 by (rule asked.request)
    ultimately show ?thesis
      by blast
  qed
qed

end

lemma enable_hw_eq:
  assumes "t_inferior (thr s i j) = Some i'"
  defines "tcb \<equiv> t_tcb (thr s i j)"
  obtains k' where "enable_hw K (i, j) s = Inr (s\<lparr>ks := k'\<rparr>)"
    and "\<And>B. breakpoint_unit K B \<Longrightarrow> register_ranges K \<Longrightarrow> (\<forall>u. u \<noteq> tcb \<longrightarrow> B k' u = B (ks s) u) \<and>
       (\<exists>r. installed K tcb (ks s) (seL4_FirstBreakpoint K) (seL4_NumExclusiveBreakpoints K) (hb_entry K (inferiors s i')) (B (ks s) tcb) r \<and>
         installed K tcb (ks s) (seL4_FirstWatchpoint K) (seL4_NumExclusiveWatchpoints K) (hw_entry K (inferiors s i')) r (B k' tcb))"
proof -
  obtain k1 where 1: "iterR (\<lambda>n s. bindR (thread_enable_nth_hw_breakpoint K (i, j) n s) (\<lambda>(_, s'). Inr s'))
      [0..<seL4_NumExclusiveBreakpoints K] s = Inr (s\<lparr>ks := k1\<rparr>)"
    and a1: "asked K tcb (ks s) k1"
    and B1: "\<And>B. breakpoint_unit K B \<Longrightarrow> seL4_NumExclusiveBreakpoints K \<le> 2 ^ 64 \<Longrightarrow> (\<forall>u. u \<noteq> tcb \<longrightarrow> B k1 u = B (ks s) u) \<and>
       installed K tcb (ks s) (seL4_FirstBreakpoint K) (seL4_NumExclusiveBreakpoints K) (hb_entry K (inferiors s i')) (B (ks s) tcb) (B k1 tcb)"
    unfolding tcb_def using hb.enable_all [OF assms(1) order_refl] by blast
  obtain k2 where 2: "iterR (\<lambda>n s. bindR (thread_enable_nth_hw_watchpoint K (i, j) n s) (\<lambda>(_, s'). Inr s'))
      [0..<seL4_NumExclusiveWatchpoints K] (s\<lparr>ks := k1\<rparr>) = Inr (s\<lparr>ks := k1, ks := k2\<rparr>)"
    and B2: "\<And>B. breakpoint_unit K B \<Longrightarrow> seL4_NumExclusiveWatchpoints K \<le> 2 ^ 64 \<Longrightarrow> (\<forall>u. u \<noteq> tcb \<longrightarrow> B k2 u = B k1 u) \<and>
       installed K tcb k1 (seL4_FirstWatchpoint K) (seL4_NumExclusiveWatchpoints K) (hw_entry K (inferiors s i')) (B k1 tcb) (B k2 tcb)"
    unfolding tcb_def
    using hw.enable_all [where s = "s\<lparr>ks := k1\<rparr>" and i = i and j = j and i' = i' and m = "seL4_NumExclusiveWatchpoints K" and K = K] assms(1)
    by (simp; blast)
  show thesis
  proof (rule that [of k2])
    fix B
    assume B: "breakpoint_unit K B" "register_ranges K"
    then have "seL4_NumExclusiveBreakpoints K \<le> 2 ^ 64" "seL4_NumExclusiveWatchpoints K \<le> 2 ^ 64"
      by (simp_all add: register_ranges_def)
    with B1 [OF B(1)] B2 [OF B(1)] installed_later [OF _ a1] show "(\<forall>u. u \<noteq> tcb \<longrightarrow> B k2 u = B (ks s) u) \<and>
       (\<exists>r. installed K tcb (ks s) (seL4_FirstBreakpoint K) (seL4_NumExclusiveBreakpoints K) (hb_entry K (inferiors s i')) (B (ks s) tcb) r \<and>
         installed K tcb (ks s) (seL4_FirstWatchpoint K) (seL4_NumExclusiveWatchpoints K) (hw_entry K (inferiors s i')) r (B k2 tcb))"
      by (metis (no_types))
  qed (simp add: enable_hw_def 1 2)
qed

section \<open>Registering a thread\<close>

lemma add_thread_sel [simp]:
  "curr_inferior_idx (add_thread i c x tcb s) = curr_inferior_idx s"
  "target_thread (add_thread i c x tcb s) = target_thread s"
  "ks (add_thread i c x tcb s) = ks s"
  "inferiors (add_thread i c x tcb s) i' = (if i' = i then (inferiors s i)\<lparr>i_curr_thread_idx := c + 1,
     i_threads := (i_threads (inferiors s i))(c mod MAX_THREADS := (thr s i (c mod MAX_THREADS))\<lparr>t_enabled := True,
       t_wakeup := False, t_ss_enabled := False, t_inferior := Some i, t_id := x,
       t_gdb_id := of_nat (c + 1), t_tcb := tcb\<rparr>)\<rparr> else inferiors s i')"
  by (simp_all add: add_thread_def)

lemma slot_less [simp]: "c mod MAX_THREADS < MAX_THREADS" "c mod MAX_PDS < MAX_PDS"
  by (simp_all add: MAX_THREADS_def MAX_PDS_def)

lemma thread_text_sel [simp]:
  "thread_text (s\<lparr>ks := k\<rparr>) t = thread_text s t"
  "thread_text (s\<lparr>target_thread := u\<rparr>) t = thread_text s t"
  by (simp_all add: thread_text_def split: option.split)

lemma add_thread_ids:
  "thread_ids i (add_thread i c x tcb s) = (thread_ids i s)(c mod MAX_THREADS := Some x)"
  "inferior_ids (add_thread i c x tcb s) = inferior_ids s"
  by (simp_all add: thread_ids_def inferior_ids_def fun_eq_iff)

lemma threads_wf_add:
  assumes "threads_wf i I" and "\<not> t_enabled (i_threads I (c mod MAX_THREADS))" and "i_curr_thread_idx I \<le> c"
    and "\<And>j. j < MAX_THREADS \<Longrightarrow> t_enabled (i_threads I j) \<Longrightarrow> t_id (i_threads I j) \<noteq> x"
    and "t_enabled t" "t_inferior t = Some i" "t_id t = x" "t_gdb_id t = of_nat (c + 1)"
  shows "threads_wf i (I\<lparr>i_curr_thread_idx := c + 1, i_threads := (i_threads I)(c mod MAX_THREADS := t)\<rparr>)"
proof -
  have "\<exists>c'<c + 1. c' mod MAX_THREADS = j \<and> t_gdb_id (i_threads I j) = of_nat (c' + 1)"
    if "j < MAX_THREADS" "t_enabled (i_threads I j)" for j
    using assms(1,3) that unfolding threads_wf_def by (meson less_add_one less_le_trans less_trans le_less_trans)
  then show ?thesis
    using assms unfolding threads_wf_def by (auto; blast)
qed

lemma add_thread_wf:
  assumes wf: "gdb_wf s" and i: "i < MAX_PDS" "i_enabled (inferiors s i)"
    and new: "lookup_thread_from_id i x s = None" and free: "\<not> t_enabled (thr s i (c mod MAX_THREADS))"
    and c: "i_curr_thread_idx (inferiors s i) \<le> c"
  shows "gdb_wf (add_thread i c x tcb s)"
proof -
  have ids: "t_id (thr s i j) \<noteq> x" if "j < MAX_THREADS" "t_enabled (thr s i j)" for j
    using new that by (auto simp: thread_table.lookup_None thread_ids_def)
  have "threads_wf i (inferiors (add_thread i c x tcb s) i)"
    using threads_wf_add [of i "inferiors s i" c x "thr (add_thread i c x tcb s) i (c mod MAX_THREADS)"]
      wf i ids free c by (simp add: gdb_wf_def)
  moreover have "target_wf (add_thread i c x tcb s)"
    using wf by (auto simp: gdb_wf_def target_wf_def split: option.splits)
  ultimately show ?thesis
    using wf by (simp add: gdb_wf_def add_thread_ids)
qed

lemma announce_clone_reply:
  assumes "t_inferior (thr s (fst t) (snd t)) = Some i" and "t_inferior (thr s (fst u) (snd u)) = Some i'"
    and "64 \<le> length output"
  shows "announce_clone s t u output = Inr (reply output (str ''T05clone:'' @ thread_text s t @
    str '';thread:'' @ thread_text s u @ str '';''))"
proof -
  let ?a = "str ''T05clone:''" and ?b = "str ''T05clone:'' @ thread_text s t"
    and ?c = "(str ''T05clone:'' @ thread_text s t) @ str '';thread:''"
    and ?d = "((str ''T05clone:'' @ thread_text s t) @ str '';thread:'') @ thread_text s u"
  have nz: "0 \<notin> set ?a" "0 \<notin> set ?c" "0 \<notin> set (str '';thread:'')" "0 \<notin> set (str '';'')"
    by simp_all
  have len: "length ?a = 9" "length ?b = 15" "length ?c = 23" "length ?d = 29"
    by simp_all
  have 1: "strlcpy output 0 (cstr ''T05clone:'') BUFSIZE = Inr (reply output ?a, 9)"
    using strlcpy_first [of "''T05clone:''" "output"] nz assms(3) by (simp add: BUFSIZE_def)
  have 2: "strnlen (reply output ?a) BUFSIZE = Inr 9"
    using strnlen_reply [OF nz(1), of "output"] by (simp add: BUFSIZE_def)
  have 3: "write_thread_id s t (reply output ?a) 9 = Inr (reply output ?b, 15)"
    using write_thread_id_reply [OF assms(1), of ?a "output", unfolded len] assms(3) by simp
  have 4: "strlcpy (reply output ?b) 15 (cstr '';thread:'') BUFSIZE = Inr (reply output ?c, 8)"
    using strlcpy_reply [of ?b "'';thread:''" "output"] len nz assms(3) by (simp add: BUFSIZE_def)
  have 5: "strnlen (reply output ?c) BUFSIZE = Inr 23"
    using strnlen_reply [OF nz(2), of "output"] len by (simp add: BUFSIZE_def)
  have 6: "write_thread_id s u (reply output ?c) 23 = Inr (reply output ?d, 29)"
    using write_thread_id_reply [OF assms(2), of ?c "output"] len assms(3) by simp
  have 7: "strlcpy (reply output ?d) 29 (cstr '';'') BUFSIZE = Inr (reply output (?d @ str '';''), 1)"
    using strlcpy_reply [of ?d "'';''" "output"] len nz assms(3) by (simp add: BUFSIZE_def)
  show ?thesis
    unfolding announce_clone_def 1 bindR_Inr prod.case 2 3 4 5 6 7 by (simp only: append_assoc)
qed

lemma register_thread_slot:
  assumes "\<not> t_enabled (thr s i j)" and "j < MAX_THREADS"
  obtains c where "next_free (\<lambda>c. t_enabled (thr s i (c mod MAX_THREADS))) (i_curr_thread_idx (inferiors s i)) MAX_THREADS = (Some c, c)"
    and "i_curr_thread_idx (inferiors s i) \<le> c" and "c < i_curr_thread_idx (inferiors s i) + MAX_THREADS"
    and "\<not> t_enabled (thr s i (c mod MAX_THREADS))"
proof -
  obtain c where "next_free (\<lambda>c. t_enabled (thr s i (c mod MAX_THREADS))) (i_curr_thread_idx (inferiors s i)) MAX_THREADS = (Some c, c)"
    by (rule next_free_exists [where used = "\<lambda>j. t_enabled (thr s i j)", OF assms(2) assms(1)])
  with next_free_Some [OF this] show thesis
    by (intro that [of c]) auto
qed

lemma gdb_register_thread_at:
  assumes wf: "gdb_wf s" and i: "lookup_inferior_from_id x s = Some i" and new: "lookup_thread_from_id i y s = None"
    and c: "next_free (\<lambda>c. t_enabled (thr s i (c mod MAX_THREADS))) (i_curr_thread_idx (inferiors s i)) MAX_THREADS = (Some c, c)"
    and no_wrap: "i_curr_thread_idx (inferiors s i) + MAX_THREADS \<le> INT_MAX" and out: "64 \<le> length output"
  obtains k' where "enable_hw K (i, c mod MAX_THREADS) (add_thread i c y tcb s) = Inr ((add_thread i c y tcb s)\<lparr>ks := k'\<rparr>)"
    and "gdb_register_thread K x y tcb output s = Inr (NoError,
      (case target_thread s of None \<Rightarrow> output | Some u \<Rightarrow> reply output (str ''T05clone:'' @
         thread_text (add_thread i c y tcb s) (i, c mod MAX_THREADS) @ str '';thread:'' @
         thread_text (add_thread i c y tcb s) u @ str '';'')),
      (add_thread i c y tcb s)\<lparr>ks := k', target_thread :=
        Some (case target_thread s of None \<Rightarrow> (i, c mod MAX_THREADS) | Some u \<Rightarrow> u)\<rparr>)"
proof -
  let ?j = "c mod MAX_THREADS" and ?s1 = "add_thread i c y tcb s"
  have inf: "t_inferior (thr ?s1 i ?j) = Some i"
    by simp
  obtain k' where k': "enable_hw K (i, ?j) ?s1 = Inr (?s1\<lparr>ks := k'\<rparr>)"
    by (rule enable_hw_eq [OF inf])
  show thesis
  proof (rule that [OF k'], cases "target_thread s")
    case None
    then show "gdb_register_thread K x y tcb output s = Inr (NoError,
      (case target_thread s of None \<Rightarrow> output | Some u \<Rightarrow> reply output (str ''T05clone:'' @
         thread_text ?s1 (i, ?j) @ str '';thread:'' @ thread_text ?s1 u @ str '';'')),
      ?s1\<lparr>ks := k', target_thread := Some (case target_thread s of None \<Rightarrow> (i, ?j) | Some u \<Rightarrow> u)\<rparr>)"
      using i new no_wrap by (simp add: gdb_register_thread_def c k')
  next
    case (Some u)
    have "t_inferior (thr s (fst u) (snd u)) = Some (fst u)"
      using wf Some by (auto simp: gdb_wf_def target_wf_def)
    then have "t_inferior (thr ?s1 (fst u) (snd u)) = Some (fst u)"
      by auto
    then have "announce_clone (?s1\<lparr>ks := k'\<rparr>) (i, ?j) u output = Inr (reply output (str ''T05clone:'' @
        thread_text (?s1\<lparr>ks := k'\<rparr>) (i, ?j) @ str '';thread:'' @ thread_text (?s1\<lparr>ks := k'\<rparr>) u @ str '';''))"
      using inf out by (intro announce_clone_reply) (simp_all del: add_thread_sel)
    then show "gdb_register_thread K x y tcb output s = Inr (NoError,
      (case target_thread s of None \<Rightarrow> output | Some u \<Rightarrow> reply output (str ''T05clone:'' @
         thread_text ?s1 (i, ?j) @ str '';thread:'' @ thread_text ?s1 u @ str '';'')),
      ?s1\<lparr>ks := k', target_thread := Some (case target_thread s of None \<Rightarrow> (i, ?j) | Some u \<Rightarrow> u)\<rparr>)"
      using i new no_wrap Some by (simp add: gdb_register_thread_def c k' del: str_Cons)
  qed
qed

lemma gdb_register_thread_new:
  assumes wf: "gdb_wf s" and i: "lookup_inferior_from_id x s = Some i" and new: "lookup_thread_from_id i y s = None"
    and room: "\<not> t_enabled (thr s i j)" "j < MAX_THREADS"
    and no_wrap: "i_curr_thread_idx (inferiors s i) + MAX_THREADS \<le> INT_MAX" and out: "64 \<le> length output"
  obtains c k' where "i_curr_thread_idx (inferiors s i) \<le> c"
    and "c < i_curr_thread_idx (inferiors s i) + MAX_THREADS"
    and "\<not> t_enabled (thr s i (c mod MAX_THREADS))"
    and "enable_hw K (i, c mod MAX_THREADS) (add_thread i c y tcb s) = Inr ((add_thread i c y tcb s)\<lparr>ks := k'\<rparr>)"
    and "gdb_register_thread K x y tcb output s = Inr (NoError,
      (case target_thread s of None \<Rightarrow> output | Some u \<Rightarrow> reply output (str ''T05clone:'' @
         thread_text (add_thread i c y tcb s) (i, c mod MAX_THREADS) @ str '';thread:'' @
         thread_text (add_thread i c y tcb s) u @ str '';'')),
      (add_thread i c y tcb s)\<lparr>ks := k', target_thread :=
        Some (case target_thread s of None \<Rightarrow> (i, c mod MAX_THREADS) | Some u \<Rightarrow> u)\<rparr>)"
proof -
  obtain c where c: "next_free (\<lambda>c. t_enabled (thr s i (c mod MAX_THREADS))) (i_curr_thread_idx (inferiors s i)) MAX_THREADS = (Some c, c)"
    and c2: "i_curr_thread_idx (inferiors s i) \<le> c" "c < i_curr_thread_idx (inferiors s i) + MAX_THREADS"
    "\<not> t_enabled (thr s i (c mod MAX_THREADS))"
    by (rule register_thread_slot [OF room])
  show thesis
    by (rule gdb_register_thread_at [OF wf i new c no_wrap out]) (rule that [OF c2])
qed

lemma gdb_wf_target:
  assumes "gdb_wf s" and "i < MAX_PDS" and "j < MAX_THREADS" and "i_enabled (inferiors s i)"
    and "t_inferior (thr s i j) = Some i"
  shows "gdb_wf (s\<lparr>target_thread := Some (i, j)\<rparr>)"
  using assms by (simp add: gdb_wf_def target_wf_def)

lemma next_free_all: "(\<And>x. used x) \<Longrightarrow> next_free used c n = (None, c + n)"
  by (induction n arbitrary: c) auto

lemma gdb_wf_advance:
  assumes "gdb_wf s" and "i_curr_thread_idx (inferiors s i) \<le> c"
  shows "gdb_wf (upd_inf i (\<lambda>I. I\<lparr>i_curr_thread_idx := c\<rparr>) s)"
proof -
  have "threads_wf i ((inferiors s i)\<lparr>i_curr_thread_idx := c\<rparr>)" if "threads_wf i (inferiors s i)"
    using that assms(2) by (simp add: threads_wf_def) (meson less_le_trans)
  moreover have "inferior_ids (upd_inf i (\<lambda>I. I\<lparr>i_curr_thread_idx := c\<rparr>) s) = inferior_ids s"
    by (simp add: inferior_ids_def fun_eq_iff)
  moreover have "target_wf (upd_inf i (\<lambda>I. I\<lparr>i_curr_thread_idx := c\<rparr>) s) = target_wf s"
    by (auto simp: target_wf_def split: option.splits)
  ultimately show ?thesis
    using assms(1) by (simp add: gdb_wf_def)
qed

lemma gdb_register_thread_wf:
  assumes wf: "gdb_wf s" and run: "gdb_register_thread K x y tcb output s = Inr (e, output', s')"
    and out: "64 \<le> length output"
  shows "gdb_wf s'"
proof (cases "lookup_inferior_from_id x s")
  case None
  with run wf show ?thesis
    by (simp add: gdb_register_thread_def)
next
  case i: (Some i)
  then have en: "i < MAX_PDS" "i_enabled (inferiors s i)"
    using inferior_table.lookup_SomeD [OF i] by (auto simp: inferior_ids_def split: if_splits)
  show ?thesis
  proof (cases "lookup_thread_from_id i y s")
    case (Some j)
    with i run wf show ?thesis
      by (simp add: gdb_register_thread_def)
  next
    case new: None
    then have no_wrap: "i_curr_thread_idx (inferiors s i) + MAX_THREADS \<le> INT_MAX"
      using i run by (simp add: gdb_register_thread_def split: if_splits)
    show ?thesis
    proof (cases "\<exists>j<MAX_THREADS. \<not> t_enabled (thr s i j)")
      case True
      then obtain j where j: "\<not> t_enabled (thr s i j)" "j < MAX_THREADS"
        by blast
      obtain c k' where c: "i_curr_thread_idx (inferiors s i) \<le> c" "\<not> t_enabled (thr s i (c mod MAX_THREADS))"
        and s': "s' = (add_thread i c y tcb s)\<lparr>ks := k', target_thread :=
          Some (case target_thread s of None \<Rightarrow> (i, c mod MAX_THREADS) | Some u \<Rightarrow> u)\<rparr>"
        by (rule gdb_register_thread_new [OF wf i new j no_wrap out, of K tcb]) (use run in simp)
      have wf1: "gdb_wf (add_thread i c y tcb s)"
        by (rule add_thread_wf [OF wf en new c(2,1)])
      show ?thesis
      proof (cases "target_thread s")
        case None
        have "gdb_wf ((add_thread i c y tcb s)\<lparr>ks := k'\<rparr>)"
          using wf1 by simp
        then have "gdb_wf ((add_thread i c y tcb s)\<lparr>ks := k', target_thread := Some (i, c mod MAX_THREADS)\<rparr>)"
          by (rule gdb_wf_target) (use en in simp_all)
        with None show ?thesis
          by (simp add: s')
      next
        case (Some u)
        have "s' = (add_thread i c y tcb s)\<lparr>ks := k'\<rparr>"
          using Some by (simp add: s')
        with wf1 show ?thesis
          by simp
      qed
    next
      case False
      define c where "c = i_curr_thread_idx (inferiors s i) + MAX_THREADS"
      have "next_free (\<lambda>c. t_enabled (thr s i (c mod MAX_THREADS))) (i_curr_thread_idx (inferiors s i)) MAX_THREADS = (None, c)"
        using False slot_less(1) next_free_all [of "\<lambda>c. t_enabled (thr s i (c mod MAX_THREADS))"] by (simp add: c_def)
      then have "s' = upd_inf i (\<lambda>I. I\<lparr>i_curr_thread_idx := c\<rparr>) s"
        using run i new no_wrap by (simp add: gdb_register_thread_def)
      with wf en show ?thesis
        by (simp add: gdb_wf_advance c_def)
    qed
  qed
qed

section \<open>The round trip through the identifiers told to GDB\<close>

lemma uint_id: "uint (of_nat (c + 1) :: u16) = int ((c + 1) mod 65536)"
  by (simp only: uint_nat unat_of_nat) simp

lemma thread_id_slot:
  assumes "(of_nat (c + 1) :: u16) \<noteq> 0"
  shows "nat ((uint (of_nat (c + 1) :: u16) - 1) mod int MAX_THREADS) = c mod MAX_THREADS"
proof -
  define m q where "m = (c + 1) mod 65536" and "q = (c + 1) div 65536"
  have u: "uint (of_nat (c + 1) :: u16) = int m"
    by (simp only: uint_id m_def)
  then have "0 < m"
    using assms uint_0_iff [of "of_nat (c + 1) :: u16"] by (cases m) simp_all
  have "c + 1 = q * 65536 + m"
    by (simp only: m_def q_def div_mult_mod_eq)
  then have c: "c = (m - 1) + 256 * (256 * q)"
    using \<open>0 < m\<close> by linarith
  have "(m - 1) mod MAX_THREADS = c mod MAX_THREADS"
    unfolding c MAX_THREADS_def by (rule mod_mult_self2 [symmetric])
  then show ?thesis
    using \<open>0 < m\<close> by (simp only: u nat_mod_pred)
qed

lemma lookup_inferior_gdb_id:
  assumes "gdb_wf s" and "i < MAX_PDS" and "i_enabled (inferiors s i)"
  shows "lookup_inferior_from_gdb_id (int (i + 1)) s = Inr (Some i)" and "uint (i_gdb_id (inferiors s i)) = int (i + 1)"
proof -
  show g: "uint (i_gdb_id (inferiors s i)) = int (i + 1)"
    using assms uint_id [of i] by (simp add: gdb_wf_def MAX_PDS_def)
  show "lookup_inferior_from_gdb_id (int (i + 1)) s = Inr (Some i)"
    using assms(2) g by (simp add: lookup_inferior_from_gdb_id_def id_to_idx_pos MAX_PDS_def)
qed

lemma lookup_thread_gdb_id:
  assumes "gdb_wf s" and "i < MAX_PDS" and "i_enabled (inferiors s i)" and "j < MAX_THREADS"
    and "t_enabled (thr s i j)" and "t_gdb_id (thr s i j) \<noteq> 0"
  shows "lookup_thread_from_gdb_id (int (i + 1)) (uint (t_gdb_id (thr s i j))) s = Inr (Some (i, j))"
proof -
  obtain c where c: "c mod MAX_THREADS = j" "t_gdb_id (thr s i j) = of_nat (c + 1)"
    using assms unfolding gdb_wf_def threads_wf_def by blast
  have "nat ((uint (t_gdb_id (thr s i j)) - 1) mod int MAX_THREADS) = j"
    using thread_id_slot [of c] assms(6) c by simp
  moreover have "1 \<le> uint (t_gdb_id (thr s i j))"
    using assms(6) uint_ge_0 [of "t_gdb_id (thr s i j)"] uint_0_iff [of "t_gdb_id (thr s i j)"] by linarith
  moreover have "nat (int (i + 1) - 1) mod MAX_PDS = i"
    using assms(2) by simp
  ultimately show ?thesis
    using assms(2) lookup_inferior_gdb_id(2) [OF assms(1-3)]
    by (simp add: lookup_thread_from_gdb_id_def id_to_idx_pos MAX_PDS_def MAX_THREADS_def)
qed

section \<open>The exit of a thread\<close>

lemma gdb_thread_exit_eq:
  assumes wf: "gdb_wf s" and i: "lookup_inferior_from_id x s = Some i" and j: "lookup_thread_from_id i y s = Some j"
    and out: "64 \<le> length output"
  shows "gdb_thread_exit x y output s = Inr (NoError, reply output (str ''w00;'' @ thread_text s (i, j)),
    upd_thr i j (\<lambda>t. t\<lparr>t_enabled := False\<rparr>) s)"
proof -
  let ?s1 = "upd_thr i j (\<lambda>t. t\<lparr>t_enabled := False\<rparr>) s"
  have en: "i < MAX_PDS" "i_enabled (inferiors s i)" "j < MAX_THREADS" "t_enabled (thr s i j)"
    using inferior_table.lookup_SomeD [OF i] thread_table.lookup_SomeD [OF j]
    by (auto simp: inferior_ids_def thread_ids_def split: if_splits)
  then have inf: "t_inferior (thr s i j) = Some i"
    using wf by (simp add: gdb_wf_def threads_wf_def)
  then have inf1: "t_inferior (thr ?s1 (fst (i, j)) (snd (i, j))) = Some i"
    by simp
  have same_text: "thread_text ?s1 (i, j) = thread_text s (i, j)"
    using inf by (simp add: thread_text_def)
  have nz: "0 \<notin> set (str ''w00;'')" and len: "length (str ''w00;'') = 4"
    by simp_all
  have 1: "strlcpy output 0 (cstr ''w00;'') BUFSIZE = Inr (reply output (str ''w00;''), 4)"
    using strlcpy_first [of "''w00;''" "output"] nz out by (simp add: BUFSIZE_def)
  have 2: "strnlen (reply output (str ''w00;'')) BUFSIZE = Inr 4"
    using strnlen_reply [OF nz, of "output"] by (simp add: BUFSIZE_def)
  have 3: "write_thread_id ?s1 (i, j) (reply output (str ''w00;'')) 4 =
      Inr (reply output (str ''w00;'' @ thread_text s (i, j)), 10)"
    using write_thread_id_reply [OF inf1, of "str ''w00;''" "output", unfolded len] out same_text by simp
  show ?thesis
    unfolding gdb_thread_exit_def i j option.case Let_def 1 2 3 bindR_Inr prod.case ..
qed

lemma gdb_thread_exit_wf:
  assumes wf: "gdb_wf s" and run: "gdb_thread_exit x y output s = Inr (e, output', s')" and out: "64 \<le> length output"
  shows "gdb_wf s'"
proof (cases "lookup_inferior_from_id x s")
  case None
  with run wf show ?thesis
    by (simp add: gdb_thread_exit_def)
next
  case i: (Some i)
  show ?thesis
  proof (cases "lookup_thread_from_id i y s")
    case None
    with run wf i show ?thesis
      by (simp add: gdb_thread_exit_def)
  next
    case j: (Some j)
    have s': "s' = upd_thr i j (\<lambda>t. t\<lparr>t_enabled := False\<rparr>) s"
      using run gdb_thread_exit_eq [OF wf i j out] by simp
    have "inferior_ids s' = inferior_ids s"
      by (simp add: s' inferior_ids_def fun_eq_iff)
    moreover have "target_wf s'"
      using wf by (auto simp: s' gdb_wf_def target_wf_def split: option.splits)
    moreover have "threads_wf i ((inferiors s i)\<lparr>i_threads := (i_threads (inferiors s i))(j := (thr s i j)\<lparr>t_enabled := False\<rparr>)\<rparr>)"
      if "threads_wf i (inferiors s i)"
      using that by (auto simp: threads_wf_def)
    ultimately show ?thesis
      using wf by (auto simp: gdb_wf_def s' split: if_splits)
  qed
qed

section \<open>A new thread gets the breakpoints of its inferior\<close>

text \<open>The slots in use, each with the number of its register.\<close>

definition hw_requests :: "('k, 'r) kernel \<Rightarrow> gdb_inferior \<Rightarrow> (u64 \<times> hw_entry) set" where
  "hw_requests K I =
    {(seL4_FirstBreakpoint K + of_nat n, e) | n e. n < seL4_NumExclusiveBreakpoints K \<and> hb_entry K I n = Some e} \<union>
    {(seL4_FirstWatchpoint K + of_nat n, e) | n e. n < seL4_NumExclusiveWatchpoints K \<and> hw_entry K I n = Some e}"

lemma hw_requests_slots:
  "n < seL4_NumExclusiveBreakpoints K \<Longrightarrow> hb_entry K I n = Some e \<Longrightarrow> (seL4_FirstBreakpoint K + of_nat n, e) \<in> hw_requests K I"
  "n < seL4_NumExclusiveWatchpoints K \<Longrightarrow> hw_entry K I n = Some e \<Longrightarrow> (seL4_FirstWatchpoint K + of_nat n, e) \<in> hw_requests K I"
  unfolding hw_requests_def by blast+

lemma hw_requests_cases:
  assumes "(num, e) \<in> hw_requests K I"
  obtains n where "num = seL4_FirstBreakpoint K + of_nat n" "n < seL4_NumExclusiveBreakpoints K" "hb_entry K I n = Some e"
  | n where "num = seL4_FirstWatchpoint K + of_nat n" "n < seL4_NumExclusiveWatchpoints K" "hw_entry K I n = Some e"
  using assms unfolding hw_requests_def by blast

lemma installed_both:
  assumes "register_ranges K"
    and hb: "installed K tcb k0 (seL4_FirstBreakpoint K) (seL4_NumExclusiveBreakpoints K) (hb_entry K I) r0 r1"
    and hw: "installed K tcb k0 (seL4_FirstWatchpoint K) (seL4_NumExclusiveWatchpoints K) (hw_entry K I) r1 r2"
  shows "(num, e) \<in> hw_requests K I \<Longrightarrow> requested K tcb k0 num e (r0 num) (r2 num)"
    and "num \<notin> fst ` hw_requests K I \<Longrightarrow> r2 num = r0 num"
proof -
  note ne = register_ranges_ne [OF assms(1)]
  have keep2: "r2 (seL4_FirstBreakpoint K + of_nat n) = r1 (seL4_FirstBreakpoint K + of_nat n)"
    if "n < seL4_NumExclusiveBreakpoints K" for n
    using hw ne [OF that] unfolding installed_def by blast
  have keep1: "r1 (seL4_FirstWatchpoint K + of_nat n) = r0 (seL4_FirstWatchpoint K + of_nat n)"
    if "n < seL4_NumExclusiveWatchpoints K" for n
    using hb ne [OF _ that] unfolding installed_def by metis
  show "requested K tcb k0 num e (r0 num) (r2 num)" if "(num, e) \<in> hw_requests K I"
  proof -
    from \<open>(num, e) \<in> _\<close> show ?thesis
    proof (cases rule: hw_requests_cases)
      case (1 n)
      with hb have "requested K tcb k0 num e (r0 num) (r1 num)"
        unfolding installed_def by blast
      with 1 keep2 show ?thesis
        by simp
    next
      case (2 n)
      with hw have "requested K tcb k0 num e (r1 num) (r2 num)"
        unfolding installed_def by blast
      with 2 keep1 show ?thesis
        by simp
    qed
  qed
  show "r2 num = r0 num" if "num \<notin> fst ` hw_requests K I"
  proof -
    have "num \<noteq> seL4_FirstBreakpoint K + of_nat n" if "n < seL4_NumExclusiveBreakpoints K" "hb_entry K I n \<noteq> None" for n
      using \<open>num \<notin> _\<close> that hw_requests_slots(1) by (metis not_None_eq image_eqI fst_conv)
    moreover have "num \<noteq> seL4_FirstWatchpoint K + of_nat n" if "n < seL4_NumExclusiveWatchpoints K" "hw_entry K I n \<noteq> None" for n
      using \<open>num \<notin> _\<close> that hw_requests_slots(2) by (metis not_None_eq image_eqI fst_conv)
    ultimately show ?thesis
      using hb hw unfolding installed_def by metis
  qed
qed

text \<open>A thread is in step when its registers hold what the slots in use ask for, and nothing else.\<close>

lemma requests_free:
  assumes "register_ranges K"
  shows "n < seL4_NumExclusiveBreakpoints K \<Longrightarrow> hb_entry K I n = None \<Longrightarrow> seL4_FirstBreakpoint K + of_nat n \<notin> fst ` hw_requests K I"
    and "n < seL4_NumExclusiveWatchpoints K \<Longrightarrow> hw_entry K I n = None \<Longrightarrow> seL4_FirstWatchpoint K + of_nat n \<notin> fst ` hw_requests K I"
proof -
  have counts: "seL4_NumExclusiveBreakpoints K \<le> 2 ^ 64" "seL4_NumExclusiveWatchpoints K \<le> 2 ^ 64"
    using assms by (simp_all add: register_ranges_def)
  have inj: "n < c \<Longrightarrow> m < c \<Longrightarrow> c \<le> 2 ^ 64 \<Longrightarrow> (of_nat n :: u64) = of_nat m \<Longrightarrow> n = m" for n m c
    by (metis of_nat_eq_64 less_le_trans)
  note ne = register_ranges_ne [OF assms]
  show "seL4_FirstBreakpoint K + of_nat n \<notin> fst ` hw_requests K I" if n: "n < seL4_NumExclusiveBreakpoints K" "hb_entry K I n = None"
  proof
    assume "seL4_FirstBreakpoint K + of_nat n \<in> fst ` hw_requests K I"
    then obtain e where "(seL4_FirstBreakpoint K + of_nat n, e) \<in> hw_requests K I"
      by force
    then show False
      by (rule hw_requests_cases) (use n ne [OF n(1)] inj [OF n(1) _ counts(1)] in auto)
  qed
  show "seL4_FirstWatchpoint K + of_nat n \<notin> fst ` hw_requests K I" if n: "n < seL4_NumExclusiveWatchpoints K" "hw_entry K I n = None"
  proof
    assume "seL4_FirstWatchpoint K + of_nat n \<in> fst ` hw_requests K I"
    then obtain e where "(seL4_FirstWatchpoint K + of_nat n, e) \<in> hw_requests K I"
      by force
    then show False
      by (rule hw_requests_cases) (use n ne [OF _ n(1)] inj [OF n(1) _ counts(2)] in \<open>metis, auto\<close>)
  qed
qed

lemma requests_synced:
  assumes "register_ranges K" and "\<And>num e. (num, e) \<in> hw_requests K I \<Longrightarrow> regs num = Some e"
    and "\<And>num. num \<notin> fst ` hw_requests K I \<Longrightarrow> regs num = None"
  shows "synced regs (seL4_FirstBreakpoint K) (seL4_NumExclusiveBreakpoints K) (hb_entry K I) \<and>
    synced regs (seL4_FirstWatchpoint K) (seL4_NumExclusiveWatchpoints K) (hw_entry K I)"
proof -
  have "regs (seL4_FirstBreakpoint K + of_nat n) = hb_entry K I n" if n: "n < seL4_NumExclusiveBreakpoints K" for n
  proof (cases "hb_entry K I n")
    case (Some e)
    with n have "(seL4_FirstBreakpoint K + of_nat n, e) \<in> hw_requests K I"
      by (rule hw_requests_slots(1))
    with assms(2) Some show ?thesis
      by simp
  qed (use assms(3) requests_free(1) [OF assms(1) n] in simp)
  moreover have "regs (seL4_FirstWatchpoint K + of_nat n) = hw_entry K I n" if n: "n < seL4_NumExclusiveWatchpoints K" for n
  proof (cases "hw_entry K I n")
    case (Some e)
    with n have "(seL4_FirstWatchpoint K + of_nat n, e) \<in> hw_requests K I"
      by (rule hw_requests_slots(2))
    with assms(2) Some show ?thesis
      by simp
  qed (use assms(3) requests_free(2) [OF assms(1) n] in simp)
  ultimately show ?thesis
    by (simp add: synced_def)
qed

lemma add_thread_requests: "hw_requests K (inferiors (add_thread i c y tcb s) i) = hw_requests K (inferiors s i)"
  by (simp add: hw_requests_def hb_entry_def hw_entry_def)

lemma add_thread_tcbs:
  "\<not> t_enabled (thr s i (c mod MAX_THREADS)) \<Longrightarrow>
     thread_tcbs (inferiors (add_thread i c y tcb s) i) = insert tcb (thread_tcbs (inferiors s i))"
  using slot_less(1) by (auto simp: thread_tcbs_def split: if_splits) metis

text \<open>The threads stay in step if the registers of the new thread hold what is asked for.\<close>

lemma added_in_step:
  assumes "register_ranges K" and old: "hw_synced K B k (inferiors s i)" and "\<not> t_enabled (thr s i (c mod MAX_THREADS))"
    and "\<And>u. u \<noteq> tcb \<Longrightarrow> B k' u = B k u"
    and "\<And>num e. (num, e) \<in> hw_requests K (inferiors s i) \<Longrightarrow> B k' tcb num = Some e"
    and "\<And>num. num \<notin> fst ` hw_requests K (inferiors s i) \<Longrightarrow> B k' tcb num = None"
    and "tcb \<notin> thread_tcbs (inferiors s i)"
  shows "hw_synced K B k' (inferiors (add_thread i c y tcb s) i)"
proof -
  have tabs: "hb_entry K (inferiors (add_thread i c y tcb s) i) = hb_entry K (inferiors s i)"
    "hw_entry K (inferiors (add_thread i c y tcb s) i) = hw_entry K (inferiors s i)"
    by (simp_all add: hb_entry_def hw_entry_def fun_eq_iff)
  show ?thesis
    unfolding hw_synced_def add_thread_tcbs [OF assms(3)] tabs
  proof
    fix u
    assume u: "u \<in> insert tcb (thread_tcbs (inferiors s i))"
    show "synced (B k' u) (seL4_FirstBreakpoint K) (seL4_NumExclusiveBreakpoints K) (hb_entry K (inferiors s i)) \<and>
      synced (B k' u) (seL4_FirstWatchpoint K) (seL4_NumExclusiveWatchpoints K) (hw_entry K (inferiors s i))"
    proof (cases "u = tcb")
      case True
      show ?thesis
        unfolding True by (rule requests_synced [OF assms(1,5,6)])
    next
      case False
      with u old show ?thesis
        unfolding hw_synced_def assms(4) [OF False] by blast
    qed
  qed
qed

text \<open>What a registration that succeeds has done.\<close>

lemma register_thread_ok:
  assumes wf: "gdb_wf s" and i: "lookup_inferior_from_id x s = Some i"
    and new: "lookup_thread_from_id i y s = None" and out: "64 \<le> length output"
    and run: "gdb_register_thread K x y tcb output s = Inr (NoError, output', s')"
  obtains c k' where "\<not> t_enabled (thr s i (c mod MAX_THREADS))"
    and "enable_hw K (i, c mod MAX_THREADS) (add_thread i c y tcb s) = Inr ((add_thread i c y tcb s)\<lparr>ks := k'\<rparr>)"
    and "ks s' = k'" "inferiors s' i = inferiors (add_thread i c y tcb s) i"
proof -
  have no_wrap: "i_curr_thread_idx (inferiors s i) + MAX_THREADS \<le> INT_MAX"
    using i new run by (simp add: gdb_register_thread_def split: if_splits)
  have "\<exists>j<MAX_THREADS. \<not> t_enabled (thr s i j)"
  proof (rule ccontr)
    assume "\<not> ?thesis"
    then have "next_free (\<lambda>c. t_enabled (thr s i (c mod MAX_THREADS))) c n = (None, c + n)" for c n
      by (intro next_free_all) simp
    with run i new no_wrap show False
      by (simp add: gdb_register_thread_def)
  qed
  then obtain j where j: "\<not> t_enabled (thr s i j)" "j < MAX_THREADS"
    by blast
  show thesis
    by (rule gdb_register_thread_new [OF wf i new j no_wrap out, of K tcb], rule that, assumption+) (use run in simp_all)
qed

lemma add_thread_installed:
  assumes laws: "breakpoint_unit K B" "register_ranges K"
    and hw: "enable_hw K (i, c mod MAX_THREADS) (add_thread i c y tcb s) = Inr ((add_thread i c y tcb s)\<lparr>ks := k'\<rparr>)"
  shows "u \<noteq> tcb \<Longrightarrow> B k' u = B (ks s) u"
    and "(num, e) \<in> hw_requests K (inferiors s i) \<Longrightarrow> requested K tcb (ks s) num e (B (ks s) tcb num) (B k' tcb num)"
    and "num \<notin> fst ` hw_requests K (inferiors s i) \<Longrightarrow> B k' tcb num = B (ks s) tcb num"
proof -
  let ?s1 = "add_thread i c y tcb s" and ?j = "c mod MAX_THREADS"
  have inf: "t_inferior (thr ?s1 i ?j) = Some i" and tcb: "t_tcb (thr ?s1 i ?j) = tcb" and ks: "ks ?s1 = ks s"
    by simp_all
  have "\<exists>k2. enable_hw K (i, ?j) ?s1 = Inr (?s1\<lparr>ks := k2\<rparr>) \<and>
    (\<forall>u. u \<noteq> tcb \<longrightarrow> B k2 u = B (ks s) u) \<and> (\<exists>r. 
      installed K tcb (ks s) (seL4_FirstBreakpoint K) (seL4_NumExclusiveBreakpoints K) (hb_entry K (inferiors ?s1 i)) (B (ks s) tcb) r \<and>
      installed K tcb (ks s) (seL4_FirstWatchpoint K) (seL4_NumExclusiveWatchpoints K) (hw_entry K (inferiors ?s1 i)) r (B k2 tcb))"
  proof (rule enable_hw_eq [OF inf, of K], goal_cases)
    case (1 k2)
    show ?case
      using 1(1) 1(2) [OF laws] unfolding tcb ks by blast
  qed
  then obtain k2 r where k2: "enable_hw K (i, ?j) ?s1 = Inr (?s1\<lparr>ks := k2\<rparr>)"
    and r: "\<And>u. u \<noteq> tcb \<Longrightarrow> B k2 u = B (ks s) u"
      "installed K tcb (ks s) (seL4_FirstBreakpoint K) (seL4_NumExclusiveBreakpoints K) (hb_entry K (inferiors ?s1 i)) (B (ks s) tcb) r"
      "installed K tcb (ks s) (seL4_FirstWatchpoint K) (seL4_NumExclusiveWatchpoints K) (hw_entry K (inferiors ?s1 i)) r (B k2 tcb)"
    by blast
  have "ks (?s1\<lparr>ks := k'\<rparr>) = ks (?s1\<lparr>ks := k2\<rparr>)"
    using hw k2 by simp
  then have "k' = k2"
    by simp
  with r(1) installed_both [OF laws(2) r(2,3), unfolded add_thread_requests]
  show "u \<noteq> tcb \<Longrightarrow> B k' u = B (ks s) u"
    and "(num, e) \<in> hw_requests K (inferiors s i) \<Longrightarrow> requested K tcb (ks s) num e (B (ks s) tcb num) (B k' tcb num)"
    and "num \<notin> fst ` hw_requests K (inferiors s i) \<Longrightarrow> B k' tcb num = B (ks s) tcb num"
    by simp_all
qed

section \<open>Suspending and resuming\<close>

definition live_threads :: "'k gdb \<Rightarrow> gdb_thread list" where
  "live_threads s = concat (map (\<lambda>i. if i_enabled (inferiors s i)
     then filter t_enabled (map (thr s i) [0..<MAX_THREADS]) else []) [0..<MAX_PDS])"

lemma fold_enabled: "fold (\<lambda>j x. if P (g j) then f (g j) x else x) js x = fold f (filter P (map g js)) x"
  by (induction js arbitrary: x) auto

lemma fold_nested: "fold (\<lambda>i x. if P i then fold f (g i) x else x) is x = fold f (concat (map (\<lambda>i. if P i then g i else []) is)) x"
  by (induction "is" arbitrary: x) auto

lemma for_threads_live: "for_threads s f x = fold f (live_threads s) x"
  unfolding for_threads_def live_threads_def fold_enabled fold_nested ..

lemma set_live_threads: "set (live_threads s) = {thr s i j | i j. i < MAX_PDS \<and>
    i_enabled (inferiors s i) \<and> j < MAX_THREADS \<and> t_enabled (thr s i j)}"
  by (auto simp: live_threads_def split: if_splits; force)

lemma live_threads_tcbs:
  "t_tcb ` set (live_threads s) = (\<Union>i\<in>{i. i < MAX_PDS \<and> i_enabled (inferiors s i)}. thread_tcbs (inferiors s i))"
  by (simp add: set_live_threads thread_tcbs_def) blast

lemma suspend_running:
  assumes "scheduler K running"
  shows "running (ks (suspend_system K s)) = (\<lambda>tcb. running (ks s) tcb \<and> tcb \<notin> t_tcb ` set (live_threads s))"
proof -
  have "running (fold (\<lambda>t k. TCB_Suspend K k (t_tcb t)) ts k) = (\<lambda>tcb. running k tcb \<and> tcb \<notin> t_tcb ` set ts)" for ts :: "gdb_thread list" and k
    using assms by (induction ts arbitrary: k) (auto simp: scheduler_def fun_eq_iff)
  then show ?thesis
    by (simp add: suspend_system_def for_threads_live)
qed

lemma resume_running:
  assumes "scheduler K running"
  shows "running (ks (resume_system K s)) =
    (\<lambda>tcb. running (ks s) tcb \<or> tcb \<in> t_tcb ` {t \<in> set (live_threads s). t_wakeup t})"
proof -
  have "running (fold (\<lambda>t k. if t_wakeup t then TCB_Resume K k (t_tcb t) else k) ts k) =
      (\<lambda>tcb. running k tcb \<or> tcb \<in> t_tcb ` {t \<in> set ts. t_wakeup t})" for ts :: "gdb_thread list" and k
    using assms by (induction ts arbitrary: k) (auto simp: scheduler_def fun_eq_iff)
  then show ?thesis
    by (simp add: resume_system_def for_threads_live)
qed

section \<open>Properties\<close>

text \<open>The outcome of registering an inferior. A known identifier is refused (and told
  apart by its address space) and nothing changes; a new one is accepted exactly while fewer
  than \<open>MAX_PDS\<close> are registered, is then found under its identifier, and gets the position
  after the last one as GDB identifier, which no other inferior has.\<close>

lemma register_inferior_outcome:
  assumes "gdb_wf s" and "curr_inferior_idx s + MAX_PDS \<le> INT_MAX"
  shows "\<exists>e s'. gdb_register_inferior x vs s = Inr (e, s') \<and>
    (case lookup_inferior_from_id x s of
       Some i \<Rightarrow> e = (if i_vspace (inferiors s i) = vs then AlreadyRegistered else InvalidArguments) \<and> s' = s
     | None \<Rightarrow>
         if curr_inferior_idx s < MAX_PDS
         then e = NoError \<and> lookup_inferior_from_id x s' = Some (curr_inferior_idx s) \<and>
           i_vspace (inferiors s' (curr_inferior_idx s)) = vs \<and>
           lookup_inferior_from_gdb_id (int (curr_inferior_idx s + 1)) s' = Inr (Some (curr_inferior_idx s))
         else e = InsufficientResources \<and> inferiors s' = inferiors s)"
proof (cases "lookup_inferior_from_id x s")
  case (Some i)
  then show ?thesis
    by (simp add: gdb_register_inferior_known)
next
  case new: None
  show ?thesis
  proof (cases "curr_inferior_idx s < MAX_PDS")
    case False
    then show ?thesis
      using gdb_register_inferior_full [OF assms(1) new _ assms(2)] new by simp
  next
    case True
    let ?c = "curr_inferior_idx s"
    obtain s' where s': "gdb_register_inferior x vs s = Inr (NoError, s')"
      and ids: "inferior_ids s' = (inferior_ids s)(?c := Some x)"
      and new_inf: "i_vspace (inferiors s' ?c) = vs" "i_enabled (inferiors s' ?c)"
      using gdb_register_inferior_new [OF assms(1) new True, of vs]
      by (simp add: inferior_ids_def fun_eq_iff)
    have "lookup_inferior_from_id x s' = Some ?c"
      by (rule inferior_table.insert_lookup [OF gdb_wf_ids [OF assms(1)] new ids True])
    moreover have "lookup_inferior_from_gdb_id (int (?c + 1)) s' = Inr (Some ?c)"
      by (rule lookup_inferior_gdb_id [OF gdb_register_inferior_wf [OF assms(1) s'] True new_inf(2)])
    ultimately show ?thesis
      using True new s' new_inf by auto
  qed
qed

lemma gdb_wf_one_thread: "gdb_wf one_thread"
  by (auto simp: gdb_wf_def one_thread_def init_gdb_def zero_inferior_def zero_thread_def threads_wf_def
      target_wf_def ids_distinct_def inferior_ids_def MAX_PDS_def MAX_THREADS_def)

text \<open>C14: Registering a new thread in an inferior with a free slot succeeds, announces the
  thread to GDB when there was one before, and the thread is then found in the slot it got
  both by the client's identifiers and (unless its 16-bit GDB identifier has wrapped to zero)
  by the identifiers that GDB is told.\<close>

theorem register_thread_found:
  assumes wf: "gdb_wf s" and i: "lookup_inferior_from_id x s = Some i" and new: "lookup_thread_from_id i y s = None"
    and room: "j < MAX_THREADS" "\<not> t_enabled (thr s i j)"
    and no_wrap: "i_curr_thread_idx (inferiors s i) + MAX_THREADS \<le> INT_MAX" and out: "64 \<le> length output"
  shows "\<exists>output' s' j. gdb_register_thread K x y tcb output s = Inr (NoError, output', s') \<and>
    lookup_inferior_from_id x s' = Some i \<and> lookup_thread_from_id i y s' = Some j \<and> t_tcb (thr s' i j) = tcb \<and>
    (t_gdb_id (thr s' i j) \<noteq> 0 \<longrightarrow>
       lookup_thread_from_gdb_id (int (i + 1)) (uint (t_gdb_id (thr s' i j))) s' = Inr (Some (i, j))) \<and>
    content output' = (case target_thread s of None \<Rightarrow> content output
      | Some u \<Rightarrow> str ''T05clone:'' @ thread_text s' (i, j) @ str '';thread:'' @ thread_text s' u @ str '';'')"
proof -
  obtain c k' where c: "\<not> t_enabled (thr s i (c mod MAX_THREADS))"
    and reg: "gdb_register_thread K x y tcb output s = Inr (NoError,
      (case target_thread s of None \<Rightarrow> output | Some u \<Rightarrow> reply output (str ''T05clone:'' @
         thread_text (add_thread i c y tcb s) (i, c mod MAX_THREADS) @ str '';thread:'' @
         thread_text (add_thread i c y tcb s) u @ str '';'')),
      (add_thread i c y tcb s)\<lparr>ks := k', target_thread :=
        Some (case target_thread s of None \<Rightarrow> (i, c mod MAX_THREADS) | Some u \<Rightarrow> u)\<rparr>)"
    by (rule gdb_register_thread_new [OF wf i new room(2,1) no_wrap out])
  let ?j = "c mod MAX_THREADS"
  define s' where "s' = (add_thread i c y tcb s)\<lparr>ks := k', target_thread :=
        Some (case target_thread s of None \<Rightarrow> (i, c mod MAX_THREADS) | Some u \<Rightarrow> u)\<rparr>"
  have en: "i < MAX_PDS" "i_enabled (inferiors s i)"
    using inferior_table.lookup_SomeD [OF i] by (auto simp: inferior_ids_def split: if_splits)
  have wf': "gdb_wf s'"
    using gdb_register_thread_wf [OF wf reg out] by (simp only: s'_def)
  have sel: "i_enabled (inferiors s' i)" "t_enabled (thr s' i ?j)" "t_tcb (thr s' i ?j) = tcb"
    using en by (simp_all add: s'_def)
  have same_text: "thread_text (add_thread i c y tcb s) v = thread_text s' v" for v
    by (simp add: s'_def)
  have "inferior_ids s' = inferior_ids s"
    by (simp add: s'_def add_thread_ids)
  then have found: "lookup_inferior_from_id x s' = Some i"
    using i by (simp add: inferior_table.lookup_eq)
  have "thread_ids i s' = (thread_ids i s)(?j := Some y)"
    by (simp add: s'_def add_thread_ids)
  then have found_thread: "lookup_thread_from_id i y s' = Some ?j"
    by (rule thread_table.insert_lookup [OF gdb_wf_thread_ids [OF wf en] new]) simp
  have gdb: "lookup_thread_from_gdb_id (int (i + 1)) (uint (t_gdb_id (thr s' i ?j))) s' = Inr (Some (i, ?j))"
    if "t_gdb_id (thr s' i ?j) \<noteq> 0"
    by (rule lookup_thread_gdb_id [OF wf' en(1) sel(1) _ sel(2) that]) simp
  have "content (case target_thread s of None \<Rightarrow> output | Some u \<Rightarrow> reply output (str ''T05clone:'' @
      thread_text s' (i, ?j) @ str '';thread:'' @ thread_text s' u @ str '';'')) =
    (case target_thread s of None \<Rightarrow> content output
      | Some u \<Rightarrow> str ''T05clone:'' @ thread_text s' (i, ?j) @ str '';thread:'' @ thread_text s' u @ str '';'')"
    by (simp split: option.split)
  with reg [folded s'_def, unfolded same_text] found found_thread gdb sel(3) show ?thesis
    by blast
qed

theorem register_thread_found_witness:
  "\<exists>output' s' j. gdb_register_thread machine_kernel 3 6 10 (replicate 64 0) one_thread = Inr (NoError, output', s') \<and>
    lookup_inferior_from_id 3 s' = Some 0 \<and> lookup_thread_from_id 0 6 s' = Some j \<and> t_tcb (thr s' 0 j) = 10 \<and>
    (t_gdb_id (thr s' 0 j) \<noteq> 0 \<longrightarrow>
       lookup_thread_from_gdb_id (int (0 + 1)) (uint (t_gdb_id (thr s' 0 j))) s' = Inr (Some (0, j))) \<and>
    content output' = (case target_thread one_thread of None \<Rightarrow> content (replicate 64 0)
      | Some u \<Rightarrow> str ''T05clone:'' @ thread_text s' (0, j) @ str '';thread:'' @ thread_text s' u @ str '';'')"
proof (rule register_thread_found [OF gdb_wf_one_thread, where j = 1])
  show "lookup_inferior_from_id 3 one_thread = Some 0"
    by (simp add: lookup_inferior_from_id_def find_upt_Some one_thread_def MAX_PDS_def)
  show "lookup_thread_from_id 0 6 one_thread = None"
    by (simp add: lookup_thread_from_id_def find_upt_None one_thread_def init_gdb_def zero_inferior_def zero_thread_def)
qed (simp_all add: one_thread_def init_gdb_def zero_inferior_def zero_thread_def MAX_THREADS_def INT_MAX_def)

text \<open>C28: A thread that is registered while hardware breakpoints and watchpoints are set gets
  those that the kernel accepts. Each slot in use is requested for the new thread, in a
  state that the requests made so far have led to, and the kernel's answer decides: the register of the slot holds its entry, or stays clear if the
  request is refused; the code ignores the answer, and the registration succeeds all the same.
  No other register of the new thread and no register of another thread changes. If the kernel
  refuses none of these requests, the threads of the inferior stay in step with the tables.\<close>

theorem new_thread_inherits_breakpoints:
  assumes "breakpoint_unit K B" and "register_ranges K"
    and wf: "gdb_wf s" and i: "lookup_inferior_from_id x s = Some i"
    and new: "lookup_thread_from_id i y s = None" and out: "64 \<le> length output"
    and run: "gdb_register_thread K x y tcb output s = Inr (NoError, output', s')"
    and fresh: "\<And>num. B (ks s) tcb num = None"
  shows "(\<forall>(num, e) \<in> hw_requests K (inferiors s i).
      \<exists>k. asked K tcb (ks s) k \<and> B (ks s') tcb num = (if accepts K k tcb num e then Some e else None)) \<and>
    (\<forall>num. num \<notin> fst ` hw_requests K (inferiors s i) \<longrightarrow> B (ks s') tcb num = None) \<and>
    (\<forall>u. u \<noteq> tcb \<longrightarrow> B (ks s') u = B (ks s) u) \<and>
    (hw_synced K B (ks s) (inferiors s i) \<and> tcb \<notin> thread_tcbs (inferiors s i) \<and>
      (\<forall>k. asked K tcb (ks s) k \<longrightarrow> (\<forall>(num, e) \<in> hw_requests K (inferiors s i). accepts K k tcb num e)) \<longrightarrow> hw_synced K B (ks s') (inferiors s' i))"
proof -
  obtain c k' where c: "\<not> t_enabled (thr s i (c mod MAX_THREADS))"
    and hw: "enable_hw K (i, c mod MAX_THREADS) (add_thread i c y tcb s) = Inr ((add_thread i c y tcb s)\<lparr>ks := k'\<rparr>)"
    and s': "ks s' = k'" "inferiors s' i = inferiors (add_thread i c y tcb s) i"
    by (rule register_thread_ok [OF wf i new out run])
  note regs = add_thread_installed [OF assms(1,2) hw, folded s'(1)]
  let ?R = "hw_requests K (inferiors s i)"
  have req: "\<exists>k. asked K tcb (ks s) k \<and> B (ks s') tcb num = (if accepts K k tcb num e then Some e else None)" if "(num, e) \<in> ?R" for num e
    using regs(2) [OF that] fresh by (simp add: requested_def)
  have rest: "B (ks s') tcb num = None" if "num \<notin> fst ` ?R" for num
    using regs(3) [OF that] fresh by simp
  have "hw_synced K B (ks s') (inferiors s' i)" if old: "hw_synced K B (ks s) (inferiors s i)"
    and ok: "\<forall>k. asked K tcb (ks s) k \<longrightarrow> (\<forall>(num, e) \<in> ?R. accepts K k tcb num e)" and other: "tcb \<notin> thread_tcbs (inferiors s i)"
    using added_in_step [OF assms(2) old c regs(1) _ rest other, of y] req ok s' by fastforce
  with req rest regs(1) show ?thesis
    by blast
qed

text \<open>A state in which a watchpoint is set, and a machine that refuses the breakpoints of the
  thread whose capability is 10.\<close>

definition one_watch :: "machine gdb" where
  "one_watch = snd (set_hardware_watchpoint machine_kernel 0 8192 1 4 one_thread)"

definition refusing_kernel :: "(machine, unit) kernel" where
  "refusing_kernel = machine_kernel\<lparr>TCB_SetBreakpoint := (\<lambda>k tcb num addr type sz rw.
     if tcb = 10 then (1, k) else TCB_SetBreakpoint machine_kernel k tcb num addr type sz rw)\<rparr>"

lemma refusing_laws: "breakpoint_unit refusing_kernel mc_bp" "register_ranges refusing_kernel"
  using machine_laws(2) machine_ranges by (auto simp: refusing_kernel_def breakpoint_unit_def register_ranges_def)

lemma one_watch_set: "set_hardware_watchpoint machine_kernel 0 8192 1 4 one_thread = (True, one_watch)"
proof -
  have accept: "fst (set_in_threads machine_kernel ths num a ty sz rw js k)" for ths num a ty sz rw js k
    by (induction js arbitrary: k) (simp_all add: machine_kernel_def)
  have "List.find (\<lambda>n. hw_addr (i_hw (inferiors one_thread 0) n) = 0) [0..<4] = Some 0"
    by (simp add: find_upt_Some one_thread_def init_gdb_def zero_inferior_def zero_hw_def)
  with accept have "fst (set_hardware_watchpoint machine_kernel 0 8192 1 4 one_thread)"
    by (simp add: set_hardware_watchpoint_def split_def Let_def)
  then show ?thesis
    by (simp add: one_watch_def prod_eq_iff)
qed

lemma one_watch_eq:
  obtains k where "one_watch = upd_inf 0 (\<lambda>I. I\<lparr>i_hw := (i_hw I)(0 := \<lparr>hw_addr = 8192, hw_size = 4, hw_type = 1\<rparr>)\<rparr>) (one_thread\<lparr>ks := k\<rparr>)"
    and "\<And>num. mc_bp k 10 num = None"
proof -
  let ?ths = "i_threads (inferiors one_thread 0)"
  have slot: "List.find (\<lambda>n. hw_addr (i_hw (inferiors one_thread 0) n) = 0) [0..<4] = Some 0"
    by (simp add: find_upt_Some one_thread_def init_gdb_def zero_inferior_def zero_hw_def)
  obtain ok k where k: "set_in_threads machine_kernel ?ths 6 8192 1 4 1 [0..<MAX_THREADS] (ks one_thread) = (ok, k)"
    by fastforce
  have num: "seL4_NumExclusiveWatchpoints machine_kernel = 4" "seL4_FirstWatchpoint machine_kernel = 6" "seL4_DataBreakpoint machine_kernel = 1"
    by (simp_all add: machine_kernel_def)
  have eq: "ok" "one_watch = upd_inf 0 (\<lambda>I. I\<lparr>i_hw := (i_hw I)(0 := \<lparr>hw_addr = 8192, hw_size = 4, hw_type = 1\<rparr>)\<rparr>) (one_thread\<lparr>ks := k\<rparr>)"
    using one_watch_set by (simp_all add: set_hardware_watchpoint_def num slot k Let_def split: if_splits)
  have "\<not> (\<exists>j\<in>set [0..<MAX_THREADS]. t_enabled (?ths j) \<and> t_tcb (?ths j) = 10)"
    by (auto simp: one_thread_def init_gdb_def zero_inferior_def zero_thread_def split: if_splits)
  then have "mc_bp k 10 = mc_bp (ks one_thread) 10"
    using set_in_threads_regs [OF machine_laws(2), of ?ths 6 8192 1 4 1 "[0..<MAX_THREADS]" "ks one_thread" k] k eq(1)
    by (simp only: if_False simp_thms)
  then have "mc_bp k 10 num = None" for num
    by (simp add: one_thread_def init_gdb_def machine0_def)
  with eq(2) show thesis
    by (rule that)
qed

lemma one_watch_facts:
  "gdb_wf one_watch" "lookup_inferior_from_id 3 one_watch = Some 0" "lookup_thread_from_id 0 6 one_watch = None"
  "\<not> t_enabled (thr one_watch 0 1)" "i_curr_thread_idx (inferiors one_watch 0) + MAX_THREADS \<le> INT_MAX"
  "mc_bp (ks one_watch) 10 num = None" "10 \<notin> thread_tcbs (inferiors one_watch 0)"
  "hw_entry K (inferiors one_watch 0) = [0 \<mapsto> hw_value K (8192, 1, 4)]" "hb_entry K (inferiors one_watch 0) = Map.empty"
proof -
  obtain k where k: "one_watch = upd_inf 0 (\<lambda>I. I\<lparr>i_hw := (i_hw I)(0 := \<lparr>hw_addr = 8192, hw_size = 4, hw_type = 1\<rparr>)\<rparr>) (one_thread\<lparr>ks := k\<rparr>)"
      "\<And>num. mc_bp k 10 num = None"
    using one_watch_eq by blast
  note defs = k(1) one_thread_def init_gdb_def zero_inferior_def zero_thread_def
  show "gdb_wf one_watch"
    by (auto simp: defs gdb_wf_def threads_wf_def target_wf_def ids_distinct_def inferior_ids_def MAX_PDS_def MAX_THREADS_def)
  show "lookup_inferior_from_id 3 one_watch = Some 0"
    by (simp add: defs lookup_inferior_from_id_def find_upt_Some MAX_PDS_def)
  show "lookup_thread_from_id 0 6 one_watch = None"
    by (simp add: defs lookup_thread_from_id_def find_upt_None)
  show "\<not> t_enabled (thr one_watch 0 1)" "i_curr_thread_idx (inferiors one_watch 0) + MAX_THREADS \<le> INT_MAX"
    by (simp_all add: defs MAX_THREADS_def INT_MAX_def)
  show "mc_bp (ks one_watch) 10 num = None"
    by (simp add: k)
  show "10 \<notin> thread_tcbs (inferiors one_watch 0)"
    by (auto simp: thread_tcbs_def defs split: if_splits)
  show "hw_entry K (inferiors one_watch 0) = [0 \<mapsto> hw_value K (8192, 1, 4)]" "hb_entry K (inferiors one_watch 0) = Map.empty"
    by (simp_all add: defs hw_entry_def hb_entry_def zero_hw_def zero_hb_def fun_eq_iff)
qed

lemma one_watch_requests: "hw_requests K (inferiors one_watch 0) =
    (if 0 < seL4_NumExclusiveWatchpoints K then {(seL4_FirstWatchpoint K, hw_value K (8192, 1, 4))} else {})"
  by (auto simp: hw_requests_def one_watch_facts(8,9) split: if_splits)

lemma one_watch_in_step: "hw_synced machine_kernel mc_bp (ks one_watch) (inferiors one_watch 0)"
  using hw_step_synced [OF machine_laws(2) machine_ranges _ _ one_thread_synced, of "WatchSet 8192 1 4" one_watch] one_watch_set
  by simp

theorem new_thread_inherits_breakpoints_witness:
  "(\<exists>output' s'. gdb_register_thread machine_kernel 3 6 10 (replicate 64 0) one_watch = Inr (NoError, output', s') \<and>
     mc_bp (ks s') 10 6 = Some (8192, 1, 4, 1) \<and> mc_bp (ks s') 9 = mc_bp (ks one_watch) 9 \<and>
     hw_synced machine_kernel mc_bp (ks s') (inferiors s' 0)) \<and>
   (\<exists>output' s'. gdb_register_thread refusing_kernel 3 6 10 (replicate 64 0) one_watch = Inr (NoError, output', s') \<and>
     mc_bp (ks s') 10 6 = None)"
proof -
  have out: "64 \<le> length (replicate 64 (0 :: u8))" and one: "1 < MAX_THREADS"
    by (simp_all add: MAX_THREADS_def)
  note runs = gdb_register_thread_new [OF one_watch_facts(1-4) one one_watch_facts(5) out]
  obtain o1 s1 where 1: "gdb_register_thread machine_kernel 3 6 10 (replicate 64 0) one_watch = Inr (NoError, o1, s1)"
    using runs [of machine_kernel 10] by blast
  obtain o2 s2 where 2: "gdb_register_thread refusing_kernel 3 6 10 (replicate 64 0) one_watch = Inr (NoError, o2, s2)"
    using runs [of refusing_kernel 10] by blast
  have ok: "accepts machine_kernel k 10 num e" "\<not> accepts refusing_kernel k 10 num e" for k num e
    by (simp_all add: accepts_def refusing_kernel_def machine_kernel_def split_def)
  have req: "hw_requests machine_kernel (inferiors one_watch 0) = {(6, (8192, 1, 4, 1))}"
    "hw_requests refusing_kernel (inferiors one_watch 0) = {(6, (8192, 1, 4, 1))}"
    by (simp_all add: one_watch_requests refusing_kernel_def machine_kernel_def)
  show ?thesis
    using new_thread_inherits_breakpoints [OF machine_laws(2) machine_ranges one_watch_facts(1-3) out 1 one_watch_facts(6)]
      new_thread_inherits_breakpoints [OF refusing_laws one_watch_facts(1-3) out 2 one_watch_facts(6)]
      1 2 ok one_watch_in_step one_watch_facts(7) by (simp add: req)
qed

text \<open>The exit of a thread is reported to GDB under the identifiers it was announced
  with; the thread is not found any more, and every other thread of the inferior still is.\<close>

lemma thread_exit_forgets_only_it:
  assumes wf: "gdb_wf s" and i: "lookup_inferior_from_id x s = Some i" and j: "lookup_thread_from_id i y s = Some j"
    and out: "64 \<le> length output"
  shows "\<exists>output' s'. gdb_thread_exit x y output s = Inr (NoError, output', s') \<and>
    content output' = str ''w00;'' @ thread_text s (i, j) \<and> lookup_thread_from_id i y s' = None \<and>
    (\<forall>y'. y' \<noteq> y \<longrightarrow> lookup_thread_from_id i y' s' = lookup_thread_from_id i y' s)"
proof -
  let ?s' = "upd_thr i j (\<lambda>t. t\<lparr>t_enabled := False\<rparr>) s"
  have en: "i < MAX_PDS" "i_enabled (inferiors s i)"
    using inferior_table.lookup_SomeD [OF i] by (auto simp: inferior_ids_def split: if_splits)
  have ids: "thread_ids i ?s' = (thread_ids i s)(j := None)"
    by (simp add: thread_ids_def fun_eq_iff)
  have "lookup_thread_from_id i y ?s' = None"
    by (rule thread_table.remove_lookup [OF gdb_wf_thread_ids [OF wf en] j ids])
  moreover have "lookup_thread_from_id i y' ?s' = lookup_thread_from_id i y' s" if "y' \<noteq> y" for y'
  proof -
    have "(thread_ids i ?s' n = Some y') = (thread_ids i s n = Some y')" for n
      using thread_table.lookup_SomeD [OF j] that by (simp add: ids)
    then show ?thesis
      by (simp add: thread_table.lookup_eq)
  qed
  ultimately show ?thesis
    using gdb_thread_exit_eq [OF wf i j out] by (intro exI [of _ "reply output (str ''w00;'' @ thread_text s (i, j))"] exI [of _ ?s']) simp
qed

text \<open>Suspending the system stops every registered thread of every registered inferior and
  no other; resuming it starts exactly the registered threads that are marked for wakeup.\<close>

lemma suspend_and_resume_exact:
  assumes "scheduler K running"
  shows "(running (ks (suspend_system K s)) tcb = (running (ks s) tcb \<and>
      tcb \<notin> (\<Union>i\<in>{i. i < MAX_PDS \<and> i_enabled (inferiors s i)}. thread_tcbs (inferiors s i)))) \<and>
    (running (ks (resume_system K s)) tcb = (running (ks s) tcb \<or>
      (\<exists>i<MAX_PDS. \<exists>j<MAX_THREADS. i_enabled (inferiors s i) \<and> t_enabled (thr s i j) \<and>
         t_wakeup (thr s i j) \<and> t_tcb (thr s i j) = tcb)))"
proof
  show "running (ks (suspend_system K s)) tcb = (running (ks s) tcb \<and>
      tcb \<notin> (\<Union>i\<in>{i. i < MAX_PDS \<and> i_enabled (inferiors s i)}. thread_tcbs (inferiors s i)))"
    by (simp add: suspend_running [OF assms] live_threads_tcbs)
  have "tcb \<in> t_tcb ` {t \<in> set (live_threads s). t_wakeup t} \<longleftrightarrow>
      (\<exists>i<MAX_PDS. \<exists>j<MAX_THREADS. i_enabled (inferiors s i) \<and> t_enabled (thr s i j) \<and>
         t_wakeup (thr s i j) \<and> t_tcb (thr s i j) = tcb)"
    unfolding set_live_threads by blast
  then show "running (ks (resume_system K s)) tcb = (running (ks s) tcb \<or>
      (\<exists>i<MAX_PDS. \<exists>j<MAX_THREADS. i_enabled (inferiors s i) \<and> t_enabled (thr s i j) \<and>
         t_wakeup (thr s i j) \<and> t_tcb (thr s i j) = tcb))"
    by (simp add: resume_running [OF assms])
qed

end
