(* ===== verification/Gdb_InfMem.thy ===== *)
theory Gdb_InfMem
  imports Gdb_Arch Gdb_Kernel
begin

text \<open>
  What \<open>inf_mem2hex\<close> and \<open>inf_hex2mem\<close> (\<open>src/arch/arm/64/gdb.c\<close>) do to the memory of the
  inferior and to the text, under the law \<open>word_memory\<close> of the kernel's memory calls.
\<close>

section \<open>Reading\<close>

definition mem_bytes :: "memory \<Rightarrow> u64 \<Rightarrow> nat \<Rightarrow> u8 list" where
  "mem_bytes m a n = map (\<lambda>i. m (a + of_nat i)) [0..<n]"

lemma length_mem_bytes [simp]: "length (mem_bytes m a n) = n"
  by (simp add: mem_bytes_def)

text \<open>The words a transfer of \<open>n\<close> bytes from \<open>a\<close> on needs.\<close>

definition words_mapped :: "(u64 \<Rightarrow> bool) \<Rightarrow> u64 \<Rightarrow> nat \<Rightarrow> bool" where
  "words_mapped mapped a n \<longleftrightarrow> (\<forall>w<(n + 7) div 8. mapped (a + of_nat (8 * w)))"

lemma put_hex_digits:
  assumes "p + 2 < length b"
  shows "bindR (put b p (hex_hi c)) (\<lambda>b1. bindR (put b1 (p + 1) (hex_lo c)) f) =
    f (patch b p [hex_hi c, hex_lo c])"
proof -
  have "put b p (hex_hi c) = Inr (patch b p [hex_hi c])"
    using assms by (simp add: put_patch)
  moreover have "put (patch b p [hex_hi c]) (p + 1) (hex_lo c) = Inr (patch b p [hex_hi c, hex_lo c])"
    using assms put_patch [of "p + 1" "patch b p [hex_hi c]" "hex_lo c"] patch_patch [of p "[hex_hi c]" b "[hex_lo c]"]
    by simp
  ultimately show ?thesis
    by simp
qed

text \<open>The word pointer and the current word when the loop has done \<open>i\<close> bytes.\<close>

definition read_pos :: "u64 \<Rightarrow> nat \<Rightarrow> u64" where
  "read_pos a i = a + of_nat (8 * ((i + 7) div 8))"

lemma read_pos_start: "i mod 8 = 0 \<Longrightarrow> read_pos a i = a + of_nat (8 * (i div 8))"
proof -
  assume "i mod 8 = 0"
  then obtain w where "i = 8 * w"
    by (auto simp: mod_eq_0_iff_dvd)
  then have "(i + 7) div 8 = i div 8"
    by simp
  then show ?thesis
    by (simp add: read_pos_def)
qed

lemma read_pos_step:
  "(if i mod 8 = 0 then read_pos a i + 8 else read_pos a i) = read_pos a (Suc i)"
proof -
  have "Suc (i + 7) mod 8 = i mod 8"
    using mod_add_self2 [of i 8] by simp
  then have "(Suc i + 7) div 8 = (if i mod 8 = 0 then Suc ((i + 7) div 8) else (i + 7) div 8)"
    using div_Suc [of "i + 7" 8] by simp
  then show ?thesis
    by (simp add: read_pos_def)
qed

lemma byte_of_word:
  "get_byte (load64 m (a + of_nat (8 * (i div 8)))) (i mod 8) = m (a + of_nat i)"
proof -
  have "a + of_nat (8 * (i div 8)) + of_nat (i mod 8) = a + (of_nat (8 * (i div 8) + i mod 8) :: u64)"
    by (simp only: of_nat_add add.assoc)
  also have "8 * (i div 8) + i mod 8 = i"
    by simp
  finally show ?thesis
    by (simp only: get_byte_load64 mod_less_divisor zero_less_numeral)
qed

lemma word_of_next: "Suc i mod 8 \<noteq> 0 \<Longrightarrow> Suc i div 8 = i div 8"
  by (simp add: div_Suc)

lemma inf_mem2hex_loop_text:
  assumes wm: "word_memory K M P" and "\<And>j. i \<le> j \<Longrightarrow> j < i + n \<Longrightarrow> P vs (a + of_nat (8 * (j div 8)))"
    and "p + 2 * n < length buf" and "i mod 8 \<noteq> 0 \<Longrightarrow> cw = load64 (M k vs) (a + of_nat (8 * (i div 8)))"
  shows "\<exists>k'. inf_mem2hex_loop K vs (read_pos a i) cw buf p k i n =
      Inr (Inr (p + 2 * n), patch buf p (hex_encode (map (\<lambda>j. M k vs (a + of_nat j)) [i..<i + n]) @ [0]), k') \<and>
    M k' = M k"
  using assms(2-4)
proof (induction n arbitrary: i cw buf p k)
  case 0
  then show ?case
    by (simp add: put_patch)
next
  case (Suc n)
  let ?w = "load64 (M k vs) (a + of_nat (8 * (i div 8)))"
  obtain k1 where k1: "(if i mod 8 = 0 then VSpace_Read_Word K k vs (read_pos a i) else ((0, cw), k)) = ((0, ?w), k1)"
    "M k1 = M k"
  proof (cases "i mod 8 = 0")
    case True
    have "P vs (a + of_nat (8 * (i div 8)))"
      by (rule Suc.prems(1)) simp_all
    from word_read_ok [OF wm this, of k] that True show ?thesis
      by (auto simp: read_pos_start)
  qed (use that [of k] Suc.prems(3) in auto)
  let ?c = "M k vs (a + of_nat i)"
  let ?b = "patch buf p [hex_hi ?c, hex_lo ?c]"
  have "\<exists>k'. inf_mem2hex_loop K vs (read_pos a (Suc i)) ?w ?b (p + 2) k1 (Suc i) n =
      Inr (Inr (p + 2 + 2 * n), patch ?b (p + 2)
        (hex_encode (map (\<lambda>j. M k1 vs (a + of_nat j)) [Suc i..<Suc i + n]) @ [0]), k') \<and> M k' = M k1"
    using Suc.prems k1 word_of_next [of i] by (intro Suc.IH) auto
  moreover have "patch ?b (p + 2) xs = patch buf p (hex_hi ?c # hex_lo ?c # xs)" for xs
    using Suc.prems(2) patch_patch [of p "[hex_hi ?c, hex_lo ?c]" buf xs] by simp
  moreover have "inf_mem2hex_loop K vs (read_pos a i) cw buf p k i (Suc n) =
      inf_mem2hex_loop K vs (read_pos a (Suc i)) ?w ?b (p + 2) k1 (Suc i) n"
    using Suc.prems(2) by (simp add: k1(1) byte_of_word [simplified] put_hex_digits [simplified] read_pos_step Let_def)
  ultimately show ?case
    using k1(2) by (simp add: upt_conv_Cons del: upt_Suc)
qed

lemma inf_mem2hex_loop_fail:
  assumes wm: "word_memory K M P" and "i \<le> j" "j < i + n" "j mod 8 = 0" "\<not> P vs (a + of_nat (8 * (j div 8)))"
    and "p + 2 * n < length buf"
  shows "\<exists>e buf' k'. inf_mem2hex_loop K vs (read_pos a i) cw buf p k i n = Inr (Inl e, buf', k') \<and>
    length buf' = length buf \<and> M k' = M k"
  using assms(2-)
proof (induction n arbitrary: i cw buf p k)
  case 0
  then show ?case by simp
next
  case (Suc n)
  show ?case
  proof (cases "i mod 8 = 0 \<and> \<not> P vs (read_pos a i)")
    case True
    then obtain e v k1 where "VSpace_Read_Word K k vs (read_pos a i) = ((e, v), k1)" "e \<noteq> 0" "M k1 = M k"
      using word_read_fail [OF wm, of vs "read_pos a i" k] by blast
    with True show ?thesis
      by simp
  next
    case False
    then have "i \<noteq> j"
      using Suc.prems by (auto simp: read_pos_start)
    obtain w k1 where k1: "(if i mod 8 = 0 then VSpace_Read_Word K k vs (read_pos a i) else ((0, cw), k)) = ((0, w), k1)"
      "M k1 = M k"
    proof (cases "i mod 8 = 0")
      case True
      with False have "P vs (read_pos a i)"
        by simp
      from word_read_ok [OF wm this, of k] that True show ?thesis
        by auto
    qed (use that [of cw k] in simp)
    let ?b = "patch buf p [hex_hi (get_byte w (i mod 8)), hex_lo (get_byte w (i mod 8))]"
    have "\<exists>e buf' k'. inf_mem2hex_loop K vs (read_pos a (Suc i)) w ?b (p + 2) k1 (Suc i) n =
        Inr (Inl e, buf', k') \<and> length buf' = length ?b \<and> M k' = M k1"
      using Suc.prems \<open>i \<noteq> j\<close> by (intro Suc.IH) auto
    moreover have "inf_mem2hex_loop K vs (read_pos a i) cw buf p k i (Suc n) =
        inf_mem2hex_loop K vs (read_pos a (Suc i)) w ?b (p + 2) k1 (Suc i) n"
      using Suc.prems(5) by (simp add: k1(1) put_hex_digits [simplified] read_pos_step Let_def)
    ultimately show ?thesis
      using k1(2) Suc.prems(5) by simp
  qed
qed

lemma inf_mem2hex_text:
  assumes "word_memory K M P" and "t_inferior (thr s (fst t) (snd t)) = Some i"
    and "words_mapped (P (i_vspace (inferiors s i))) a n" and "p + 2 * n < length buf"
  obtains k' where "inf_mem2hex K t a buf p (int n) s =
      Inr (Inr (p + 2 * n), patch buf p (hex_encode (mem_bytes (M (ks s) (i_vspace (inferiors s i))) a n) @ [0]), s\<lparr>ks := k'\<rparr>)"
    and "M k' = M (ks s)"
proof (cases "n = 0")
  case True
  then show thesis
    using assms(4) by (intro that [of "ks s"]) (simp_all add: inf_mem2hex_def mem_bytes_def put_patch)
next
  case False
  have mapped: "P (i_vspace (inferiors s i)) (a + of_nat (8 * (j div 8)))" if "0 \<le> j" and "j < 0 + n" for j
  proof -
    have "j div 8 < (n + 7) div 8"
      using that(2) by simp
    with assms(3) show ?thesis
      unfolding words_mapped_def by blast
  qed
  have "\<exists>k'. inf_mem2hex_loop K (i_vspace (inferiors s i)) (read_pos a 0) 0 buf p (ks s) 0 n =
      Inr (Inr (p + 2 * n), patch buf p (hex_encode
        (map (\<lambda>j. M (ks s) (i_vspace (inferiors s i)) (a + of_nat j)) [0..<0 + n]) @ [0]), k') \<and>
    M k' = M (ks s)"
    by (rule inf_mem2hex_loop_text [OF assms(1)]) (fact mapped | fact assms(4) | simp)+
  then obtain k' where "inf_mem2hex_loop K (i_vspace (inferiors s i)) (read_pos a 0) 0 buf p (ks s) 0 n =
      Inr (Inr (p + 2 * n), patch buf p (hex_encode
        (map (\<lambda>j. M (ks s) (i_vspace (inferiors s i)) (a + of_nat j)) [0..<0 + n]) @ [0]), k')"
    and "M k' = M (ks s)"
    by blast
  then show thesis
    using False assms(2) by (intro that [of k']) (simp_all add: inf_mem2hex_def mem_bytes_def read_pos_def)
qed

lemma inf_mem2hex_fail:
  assumes "word_memory K M P" and "t_inferior (thr s (fst t) (snd t)) = Some i"
    and "\<not> words_mapped (P (i_vspace (inferiors s i))) a n" and "p + 2 * n < length buf"
  obtains e buf' k' where "inf_mem2hex K t a buf p (int n) s = Inr (Inl e, buf', s\<lparr>ks := k'\<rparr>)"
    and "length buf' = length buf" and "M k' = M (ks s)"
proof -
  obtain w where w: "w < (n + 7) div 8" "\<not> P (i_vspace (inferiors s i)) (a + of_nat (8 * w))"
    using assms(3) by (auto simp: words_mapped_def)
  then have "8 * w < n"
    by presburger
  then have "\<exists>e buf' k'. inf_mem2hex_loop K (i_vspace (inferiors s i)) (read_pos a 0) 0 buf p (ks s) 0 n =
      Inr (Inl e, buf', k') \<and> length buf' = length buf \<and> M k' = M (ks s)"
    using w assms(4) by (intro inf_mem2hex_loop_fail [OF assms(1), where j = "8 * w"]) simp_all
  then obtain e buf' k' where "inf_mem2hex_loop K (i_vspace (inferiors s i)) (read_pos a 0) 0 buf p (ks s) 0 n =
      Inr (Inl e, buf', k')" and "length buf' = length buf" and "M k' = M (ks s)"
    by blast
  then show thesis
    using \<open>8 * w < n\<close> assms(2) by (intro that [of e buf' k']) (simp_all add: inf_mem2hex_def read_pos_def)
qed

section \<open>Writing\<close>

text \<open>
  A transfer of at most eight bytes reads one word and writes one word. The loop counter and
  the address both advance with every byte, so the word is written where the last byte of the
  transfer belongs.
\<close>

lemma set_bytes_snoc: "set_bytes w i (bs @ [b]) = set_byte (set_bytes w i bs) (i + length bs) b"
  by (induction bs arbitrary: w i) auto

lemma inf_hex2mem_loop_word:
  assumes wm: "word_memory K M P" and "bs \<noteq> []" and "0 < i" and "i + length bs \<le> 8"
    and "P vs (a + of_nat (i + length bs - 1))"
  shows "\<exists>k'. inf_hex2mem_loop K vs (hex_encode bs @ r) (a + of_nat i) cw k i (length bs) =
      Inr (a + 8 + of_nat (2 * (i + length bs)), k') \<and>
    M k' = (M k)(vs := store64 (M k vs) (a + of_nat (i + length bs - 1)) (set_bytes cw i bs))"
  using assms(2-)
proof (induction bs arbitrary: i cw)
  case Nil
  then show ?case by simp
next
  case (Cons b bs)
  have i: "i mod 8 = i" "i mod 8 \<noteq> 0" "i div 8 = 0"
    using Cons.prems by simp_all
  show ?case
  proof (cases "bs = []")
    case True
    with Cons.prems(4) obtain k' where "VSpace_Write_Word K k vs (a + of_nat i) (set_byte cw i b) = (0, k')"
      "M k' = (M k)(vs := store64 (M k vs) (a + of_nat i) (set_byte cw i b))"
      by (auto elim: word_write_ok [OF wm, of vs "a + of_nat i" k "set_byte cw i b"])
    with True i show ?thesis
      by (simp add: hex_byte_digits algebra_simps fun_upd_def)
  next
    case False
    then have "i \<noteq> 7" "length bs \<noteq> 0"
      using Cons.prems(3) by (auto simp: neq_Nil_conv)
    then have "inf_hex2mem_loop K vs (hex_encode (b # bs) @ r) (a + of_nat i) cw k i (length (b # bs)) =
        inf_hex2mem_loop K vs (hex_encode bs @ r) (a + of_nat (Suc i)) (set_byte cw i b) k (Suc i) (length bs)"
      using i False by (simp add: hex_byte_digits algebra_simps)
    moreover have "\<exists>k'. inf_hex2mem_loop K vs (hex_encode bs @ r) (a + of_nat (Suc i)) (set_byte cw i b) k (Suc i) (length bs) =
        Inr (a + 8 + of_nat (2 * (Suc i + length bs)), k') \<and>
      M k' = (M k)(vs := store64 (M k vs) (a + of_nat (Suc i + length bs - 1)) (set_bytes (set_byte cw i b) (Suc i) bs))"
      using Cons.prems False by (intro Cons.IH) simp_all
    ultimately show ?thesis
      by (simp add: fun_upd_def)
  qed
qed

lemma inf_hex2mem_word:
  assumes wm: "word_memory K M P" and inf: "t_inferior (thr s (fst t) (snd t)) = Some i"
    and vs: "vs = i_vspace (inferiors s i)" and n: "bs \<noteq> []" "length bs \<le> 8"
    and mapped: "P vs a" "P vs (a + of_nat (length bs - 1))"
  obtains k' where "inf_hex2mem K t (hex_encode bs @ r) a (int (length bs)) s =
      Inr (a + 8 + of_nat (2 * length bs), s\<lparr>ks := k'\<rparr>)"
    and "M k' = (M (ks s))(vs := store64 (M (ks s) vs) (a + of_nat (length bs - 1))
      (set_bytes (load64 (M (ks s) vs) a) 0 bs))"
proof -
  let ?w = "load64 (M (ks s) vs) a"
  obtain k1 where k1: "VSpace_Read_Word K (ks s) vs a = ((0, ?w), k1)" "M k1 = M (ks s)"
    by (rule word_read_ok [OF wm mapped(1)])
  obtain b bs' where bs: "bs = b # bs'"
    using n(1) by (cases bs) auto
  have "\<exists>k'. inf_hex2mem_loop K vs (hex_encode bs @ r) a 0 (ks s) 0 (length bs) =
      Inr (a + 8 + of_nat (2 * length bs), k') \<and>
    M k' = (M (ks s))(vs := store64 (M (ks s) vs) (a + of_nat (length bs - 1)) (set_bytes ?w 0 bs))"
  proof (cases "bs' = []")
    case True
    obtain k' where "VSpace_Write_Word K k1 vs a (set_byte ?w 0 b) = (0, k')"
      "M k' = (M k1)(vs := store64 (M k1 vs) a (set_byte ?w 0 b))"
      by (rule word_write_ok [OF wm mapped(1)])
    with True k1 show ?thesis
      by (simp add: bs hex_byte_digits algebra_simps)
  next
    case False
    then show ?thesis
      using inf_hex2mem_loop_word [OF wm False, of 1 vs a r "set_byte ?w 0 b" k1] n(2) mapped(2) k1
      by (simp add: bs hex_byte_digits)
  qed
  then show thesis
    using that n(1) inf vs by (auto simp: inf_hex2mem_def)
qed

text \<open>Where the first word cannot be read, nothing is written and the address is returned.\<close>

lemma inf_hex2mem_unmapped:
  assumes "word_memory K M P" and inf: "t_inferior (thr s (fst t) (snd t)) = Some i"
    and "\<not> P (i_vspace (inferiors s i)) a" and "0 < n"
  obtains k' where "inf_hex2mem K t buf a (int n) s = Inr (a, s\<lparr>ks := k'\<rparr>)" and "M k' = M (ks s)"
proof -
  obtain e v k' where k': "VSpace_Read_Word K (ks s) (i_vspace (inferiors s i)) a = ((e, v), k')"
    "e \<noteq> 0" "M k' = M (ks s)"
    by (rule word_read_fail [OF assms(1,3)])
  obtain n' where "n = Suc n'"
    using assms(4) by (cases n) auto
  with k' inf show thesis
    by (intro that [of k']) (simp_all add: inf_hex2mem_def del: of_nat_Suc)
qed

end
