(* ===== verification/Gdb_Breakpoints.thy ===== *)
theory Gdb_Breakpoints
  imports Gdb_Arch Gdb_Kernel
begin

unbundle bit_operations_syntax

text \<open>
  What the software breakpoints of \<open>src/arch/arm/64/gdb.c\<close> promise. The abstract state of the breakpoints of an
  inferior is a set of addresses, and the memory of the inferior is a ghost memory (the
  program as loaded) with a \<open>brk\<close> instruction at each address of the set; setting inserts an
  address, unsetting removes one, and the ghost memory never changes.
\<close>

section \<open>Words that do not overlap\<close>

definition apart :: "u64 \<Rightarrow> u64 \<Rightarrow> bool" where
  "apart a b \<longleftrightarrow> 8 \<le> unat (a - b) \<and> 8 \<le> unat (b - a)"

lemma apart_sym: "apart a b \<longleftrightarrow> apart b a"
  by (auto simp: apart_def)

lemma apart_irrefl [simp]: "\<not> apart a a"
  by (simp add: apart_def)

lemma apart_windows:
  assumes "apart a b" and "unat (x - a) < 8"
  shows "8 \<le> unat (x - b)"
proof -
  define u w v where "u = unat (x - a)" and "w = unat (a - b)" and "v = unat (b - a)"
  have less: "u < 8" "8 \<le> w" "8 \<le> v" "w < 2 ^ 64" "v < 2 ^ 64"
    using assms unat_less_64 by (simp_all add: apart_def u_def w_def v_def)
  have "(w + v) mod 2 ^ 64 = unat ((a - b) + (b - a))"
    by (simp only: w_def v_def unat_word_ariths(1)) simp
  also have "(a - b) + (b - a) = 0"
    by simp
  finally have "(w + v) mod 2 ^ 64 = 0"
    by simp
  with less have "w + v = 2 ^ 64"
    by (cases "w + v < 2 ^ 64") (simp_all add: mod_if split: if_splits)
  have "unat (x - b) = unat ((x - a) + (a - b))"
    by simp
  also have "\<dots> = (u + w) mod 2 ^ 64"
    by (simp only: u_def w_def unat_word_ariths(1)) simp
  also have "\<dots> = u + w"
    using less \<open>w + v = 2 ^ 64\<close> by simp
  finally show ?thesis
    using less by simp
qed

section \<open>The break instruction\<close>

lemma get_byte_brk:
  assumes "i < 8"
  shows "get_byte (AARCH64_BREAK_KGDB_DYN_DBG OR (0xFFFFFFFF00000000 AND val)) i =
    (if i < 4 then get_byte AARCH64_BREAK_KGDB_DYN_DBG i else get_byte val i)"
proof -
  have high: "bit (0xFFFFFFFF00000000 :: u64) n \<longleftrightarrow> 32 \<le> n" if "n < 64" for n
  proof -
    have "(0xFFFFFFFF00000000 :: u64) = NOT (mask 32)"
      by (simp add: mask_eq_exp_minus_1)
    then have "bit (0xFFFFFFFF00000000 :: u64) n = bit (NOT (mask 32) :: u64) n"
      by (rule arg_cong [where f = "\<lambda>w. bit w n"])
    with that show ?thesis
      by (simp only: bit_not_iff bit_mask_iff) auto
  qed
  have low: "\<not> bit AARCH64_BREAK_KGDB_DYN_DBG n" if "32 \<le> n" for n
  proof
    assume "bit AARCH64_BREAK_KGDB_DYN_DBG n"
    then have "n < 64" using bit_imp_le_length by fastforce
    have "AARCH64_BREAK_KGDB_DYN_DBG = take_bit 32 AARCH64_BREAK_KGDB_DYN_DBG"
      by (simp add: AARCH64_BREAK_KGDB_DYN_DBG_def)
    then show False
      using that \<open>bit AARCH64_BREAK_KGDB_DYN_DBG n\<close> bit_take_bit_iff by (metis linorder_not_le)
  qed
  show ?thesis
    by (rule bit_word_eqI) (use assms high low in \<open>auto simp: bit_get_byte bit_or_iff bit_and_iff\<close>)
qed

section \<open>Software breakpoints: the abstract set and the ghost memory\<close>

definition sw_set :: "gdb_inferior \<Rightarrow> u64 set" where
  "sw_set I = {sb_addr (i_sw I n) | n. n < MAX_SW_BREAKS \<and> sb_addr (i_sw I n) \<noteq> 0}"

text \<open>The program \<open>M0\<close> with the break instruction at every address of \<open>S\<close>.\<close>

definition patched :: "memory \<Rightarrow> u64 set \<Rightarrow> memory \<Rightarrow> bool" where
  "patched M0 S m \<longleftrightarrow>
    (\<forall>a\<in>S. \<forall>x. unat (x - a) < 4 \<longrightarrow> m x = get_byte AARCH64_BREAK_KGDB_DYN_DBG (unat (x - a))) \<and>
    (\<forall>x. (\<forall>a\<in>S. 4 \<le> unat (x - a)) \<longrightarrow> m x = M0 x)"

definition sw_inv :: "memory \<Rightarrow> gdb_inferior \<Rightarrow> memory \<Rightarrow> bool" where
  "sw_inv M0 I m \<longleftrightarrow> patched M0 (sw_set I) m \<and>
    (\<forall>n<MAX_SW_BREAKS. sb_addr (i_sw I n) \<noteq> 0 \<longrightarrow>
       sb_orig_word (i_sw I n) = load64 M0 (sb_addr (i_sw I n))) \<and>
    (\<forall>n<MAX_SW_BREAKS. \<forall>n'<MAX_SW_BREAKS. n \<noteq> n' \<longrightarrow> sb_addr (i_sw I n) \<noteq> 0 \<longrightarrow>
       sb_addr (i_sw I n') \<noteq> 0 \<longrightarrow> apart (sb_addr (i_sw I n)) (sb_addr (i_sw I n')))"

text \<open>The abstraction relation: inferior \<open>i\<close> runs \<open>M0\<close> with breakpoints at \<open>S\<close>.\<close>

definition sw_abs :: "('k \<Rightarrow> u64 \<Rightarrow> memory) \<Rightarrow> memory \<Rightarrow> nat \<Rightarrow> 'k gdb \<Rightarrow> u64 set \<Rightarrow> bool" where
  "sw_abs M M0 i s S \<longleftrightarrow>
    sw_inv M0 (inferiors s i) (M (ks s) (i_vspace (inferiors s i))) \<and> sw_set (inferiors s i) = S"

lemma patched_empty: "patched M0 {} m \<longleftrightarrow> m = M0"
  by (auto simp: patched_def)

lemma patched_outside:
  assumes "patched M0 S m" and "\<And>b. b \<in> S \<Longrightarrow> apart a b" and "unat (x - a) < 8"
  shows "m x = M0 x"
proof -
  have "4 \<le> unat (x - b)" if "b \<in> S" for b
    using apart_windows [OF assms(2) [OF that] assms(3)] by simp
  then show ?thesis
    using assms(1) by (simp add: patched_def)
qed

lemma patched_load:
  assumes "patched M0 S m" and "\<And>b. b \<in> S \<Longrightarrow> apart a b"
  shows "load64 m a = load64 M0 a"
  using patched_outside [OF assms] by (intro load64_cong) (simp add: unat_of_nat)

lemma patched_set:
  assumes p: "patched M0 S m" and ap: "\<And>b. b \<in> S \<Longrightarrow> apart a b"
  shows "patched M0 (insert a S)
    (store64 m a (AARCH64_BREAK_KGDB_DYN_DBG OR (0xFFFFFFFF00000000 AND load64 m a)))"
    (is "patched _ _ ?m")
proof -
  have byte: "?m x = (if unat (x - a) < 4 then get_byte AARCH64_BREAK_KGDB_DYN_DBG (unat (x - a)) else m x)" for x
    by (cases "unat (x - a) < 8")
      (simp_all add: store64_byte get_byte_brk get_byte_load64)
  have other: "\<not> unat (x - a) < 4" if "b \<in> S" "unat (x - b) < 4" for b x
    using apart_windows [of b a x] ap [OF that(1)] that(2) by (auto simp: apart_sym)
  show ?thesis
    using p other unfolding patched_def by (auto simp: byte)
qed

lemma patched_unset:
  assumes p: "patched M0 (insert a S) m" and ap: "\<And>b. b \<in> S \<Longrightarrow> apart a b"
  shows "patched M0 S (store64 m a (load64 M0 a))" (is "patched _ _ ?m")
proof -
  have byte: "?m x = (if unat (x - a) < 8 then M0 x else m x)" for x
    by (simp add: store64_byte get_byte_load64)
  have other: "\<not> unat (x - a) < 8" if "b \<in> S" "unat (x - b) < 4" for b x
    using apart_windows [of b a x] ap [OF that(1)] that(2) by (auto simp: apart_sym)
  show ?thesis
    using p other unfolding patched_def by (auto simp: byte)
qed

text \<open>The table: filling a free slot inserts, freeing a slot removes.\<close>

lemma sw_set_fill:
  assumes "n < MAX_SW_BREAKS" and "sb_addr (i_sw I n) = 0" and "sb_addr b \<noteq> 0"
  shows "sw_set (I\<lparr>i_sw := (i_sw I)(n := b)\<rparr>) = insert (sb_addr b) (sw_set I)"
  using assms by (auto simp: sw_set_def split: if_splits)

lemma sw_set_free:
  assumes "n < MAX_SW_BREAKS" and "sw_inv M0 I m" and "sb_addr (i_sw I n) = a" and "a \<noteq> 0"
    and "sb_addr b = 0"
  shows "sw_set (I\<lparr>i_sw := (i_sw I)(n := b)\<rparr>) = sw_set I - {a}"
proof -
  have "sb_addr (i_sw I n') \<noteq> a" if "n' < MAX_SW_BREAKS" "n' \<noteq> n" for n'
    using assms that unfolding sw_inv_def by (metis apart_irrefl)
  then show ?thesis
    using assms by (auto simp: sw_set_def split: if_splits) metis
qed

lemma sw_inv_apart:
  assumes "sw_inv M0 I m" and "n < MAX_SW_BREAKS" and "sb_addr (i_sw I n) = a" and "a \<noteq> 0"
    and "b \<in> sw_set I - {a}"
  shows "apart a b"
proof -
  obtain n' where "n' < MAX_SW_BREAKS" "sb_addr (i_sw I n') = b" "b \<noteq> 0" "b \<noteq> a"
    using assms(5) by (auto simp: sw_set_def)
  moreover from this have "n \<noteq> n'"
    using assms(3) by auto
  ultimately show ?thesis
    using assms unfolding sw_inv_def by blast
qed

lemma sw_inv_fill:
  assumes inv: "sw_inv M0 I m" and n: "n < MAX_SW_BREAKS" "sb_addr (i_sw I n) = 0"
    and a: "a \<noteq> 0" "\<And>b. b \<in> sw_set I \<Longrightarrow> apart a b"
  shows "sw_inv M0 (I\<lparr>i_sw := (i_sw I)(n := \<lparr>sb_addr = a, sb_orig_word = load64 m a\<rparr>)\<rparr>)
    (store64 m a (AARCH64_BREAK_KGDB_DYN_DBG OR (0xFFFFFFFF00000000 AND load64 m a)))"
proof -
  have p: "patched M0 (sw_set I) m"
    using inv by (simp add: sw_inv_def)
  have ap: "apart a (sb_addr (i_sw I n'))" "apart (sb_addr (i_sw I n')) a"
    if "n' < MAX_SW_BREAKS" "sb_addr (i_sw I n') \<noteq> 0" for n'
    using a(2) [of "sb_addr (i_sw I n')"] that by (auto simp: sw_set_def apart_sym)
  show ?thesis
    using patched_set [OF p a(2)] patched_load [OF p a(2)] inv ap n a(1)
    by (simp add: sw_inv_def sw_set_fill)
qed

lemma sw_inv_free:
  assumes inv: "sw_inv M0 I m" and n: "n < MAX_SW_BREAKS" "sb_addr (i_sw I n) = a" and a: "a \<noteq> 0"
  shows "sw_inv M0 (I\<lparr>i_sw := (i_sw I)(n := (i_sw I n)\<lparr>sb_addr := 0\<rparr>)\<rparr>)
    (store64 m a (sb_orig_word (i_sw I n)))"
proof -
  have "a \<in> sw_set I"
    using n a by (auto simp: sw_set_def)
  then have "patched M0 (insert a (sw_set I - {a})) m"
    using inv by (simp add: sw_inv_def insert_absorb)
  moreover have "sb_orig_word (i_sw I n) = load64 M0 a"
    using inv n a unfolding sw_inv_def by auto
  ultimately have "patched M0 (sw_set I - {a}) (store64 m a (sb_orig_word (i_sw I n)))"
    using patched_unset [of M0 a "sw_set I - {a}" m] sw_inv_apart [OF inv n a] by simp
  moreover have "sw_set (I\<lparr>i_sw := (i_sw I)(n := (i_sw I n)\<lparr>sb_addr := 0\<rparr>)\<rparr>) = sw_set I - {a}"
    using n a inv by (intro sw_set_free) auto
  ultimately show ?thesis
    using inv by (simp add: sw_inv_def)
qed

lemma sw_inv_inj:
  assumes "sw_inv M0 I m" and "n < MAX_SW_BREAKS" and "n' < MAX_SW_BREAKS"
    and "sb_addr (i_sw I n) = sb_addr (i_sw I n')" and "sb_addr (i_sw I n') \<noteq> 0"
  shows "n = n'"
  using assms unfolding sw_inv_def by (metis apart_irrefl)

lemma sw_set_card:
  assumes "sw_inv M0 I m"
  shows "card (sw_set I) < MAX_SW_BREAKS \<longleftrightarrow> (\<exists>n<MAX_SW_BREAKS. sb_addr (i_sw I n) = 0)"
proof -
  let ?A = "{n. n < MAX_SW_BREAKS \<and> sb_addr (i_sw I n) \<noteq> 0}"
  have "sw_set I = (\<lambda>n. sb_addr (i_sw I n)) ` ?A"
    by (auto simp: sw_set_def)
  moreover have "inj_on (\<lambda>n. sb_addr (i_sw I n)) ?A"
  proof (rule inj_onI)
    fix n n'
    assume "n \<in> ?A" "n' \<in> ?A" "sb_addr (i_sw I n) = sb_addr (i_sw I n')"
    then show "n = n'"
      by (intro sw_inv_inj [OF assms]) simp_all
  qed
  ultimately have card: "card (sw_set I) = card ?A"
    by (simp add: card_image)
  show ?thesis
  proof
    assume "card (sw_set I) < MAX_SW_BREAKS"
    then have "card ?A \<noteq> card {..<MAX_SW_BREAKS}"
      using card by simp
    then have "?A \<noteq> {..<MAX_SW_BREAKS}"
      by (rule contrapos_nn) simp
    then show "\<exists>n<MAX_SW_BREAKS. sb_addr (i_sw I n) = 0"
      by blast
  next
    assume "\<exists>n<MAX_SW_BREAKS. sb_addr (i_sw I n) = 0"
    then have "?A \<subset> {..<MAX_SW_BREAKS}"
      by blast
    then have "card ?A < card {..<MAX_SW_BREAKS}"
      by (intro psubset_card_mono) auto
    then show "card (sw_set I) < MAX_SW_BREAKS"
      using card by simp
  qed
qed

section \<open>Setting and unsetting refine insertion and removal\<close>

lemma set_sw_unmapped:
  assumes "word_memory K M P" and "\<not> P (i_vspace (inferiors s i)) a"
  obtains k' where "set_software_breakpoint K i a s = (False, s\<lparr>ks := k'\<rparr>)" and "M k' = M (ks s)"
proof -
  obtain e v k' where "VSpace_Read_Word K (ks s) (i_vspace (inferiors s i)) a = ((e, v), k')"
    and "e \<noteq> 0" and "M k' = M (ks s)"
    by (rule word_read_fail [OF assms])
  then show thesis
    by (intro that [of k']) (simp_all add: set_software_breakpoint_def)
qed

lemma set_sw_free_slot:
  assumes "word_memory K M P" and "P vs a" and vs: "vs = i_vspace (inferiors s i)"
    and "List.find (\<lambda>n. sb_addr (i_sw (inferiors s i) n) = 0) [0..<MAX_SW_BREAKS] = Some n"
  obtains k' where "set_software_breakpoint K i a s = (True, upd_inf i (\<lambda>I. I\<lparr>i_sw := (i_sw I)(n :=
      \<lparr>sb_addr = a, sb_orig_word = load64 (M (ks s) vs) a\<rparr>)\<rparr>) (s\<lparr>ks := k'\<rparr>))"
    and "M k' = (M (ks s))(vs := store64 (M (ks s) vs) a
      (AARCH64_BREAK_KGDB_DYN_DBG OR (0xFFFFFFFF00000000 AND load64 (M (ks s) vs) a)))"
proof -
  let ?w = "load64 (M (ks s) vs) a"
  obtain k1 where 1: "VSpace_Read_Word K (ks s) vs a = ((0, ?w), k1)" "M k1 = M (ks s)"
    by (rule word_read_ok [OF assms(1,2)])
  obtain k2 where 2: "VSpace_Write_Word K k1 vs a
      (AARCH64_BREAK_KGDB_DYN_DBG OR (0xFFFFFFFF00000000 AND ?w)) = (0, k2)"
    "M k2 = (M k1)(vs := store64 (M k1 vs) a
      (AARCH64_BREAK_KGDB_DYN_DBG OR (0xFFFFFFFF00000000 AND ?w)))"
    by (rule word_write_ok [OF assms(1,2)])
  show thesis
    by (rule that [of k2]) (use 1 2 assms(4) vs in \<open>simp_all add: set_software_breakpoint_def Let_def\<close>)
qed

lemma set_sw_full:
  assumes "word_memory K M P" and "P vs a" and vs: "vs = i_vspace (inferiors s i)"
    and "List.find (\<lambda>n. sb_addr (i_sw (inferiors s i) n) = 0) [0..<MAX_SW_BREAKS] = None"
  obtains k' where "set_software_breakpoint K i a s = (False, s\<lparr>ks := k'\<rparr>)" and "M k' = M (ks s)"
proof -
  let ?w = "load64 (M (ks s) vs) a"
  let ?v = "AARCH64_BREAK_KGDB_DYN_DBG OR (0xFFFFFFFF00000000 AND ?w)"
  obtain k1 where 1: "VSpace_Read_Word K (ks s) vs a = ((0, ?w), k1)" "M k1 = M (ks s)"
    by (rule word_read_ok [OF assms(1,2)])
  obtain k2 where 2: "VSpace_Write_Word K k1 vs a ?v = (0, k2)"
    "M k2 = (M k1)(vs := store64 (M k1 vs) a ?v)"
    by (rule word_write_ok [OF assms(1,2)])
  obtain k3 where 3: "VSpace_Write_Word K k2 vs a ?w = (0, k3)"
    "M k3 = (M k2)(vs := store64 (M k2 vs) a ?w)"
    by (rule word_write_ok [OF assms(1,2)])
  have "M k3 = M (ks s)"
    using 1 2 3 by (simp add: store64_store64 store64_load64)
  then show thesis
    by (intro that [of k3]) (use 1 2 3 assms(4) vs in \<open>simp_all add: set_software_breakpoint_def Let_def\<close>)
qed

lemma set_sw_abs:
  assumes wm: "word_memory K M P" and abs: "sw_abs M M0 i s S"
    and a: "a \<noteq> 0" "\<And>b. b \<in> S \<Longrightarrow> apart a b"
  defines "ok \<equiv> P (i_vspace (inferiors s i)) a \<and> card S < MAX_SW_BREAKS"
  shows "fst (set_software_breakpoint K i a s) = ok"
    and "sw_abs M M0 i (snd (set_software_breakpoint K i a s)) (if ok then insert a S else S)"
proof -
  let ?I = "inferiors s i"
  have inv: "sw_inv M0 ?I (M (ks s) (i_vspace ?I))" and S: "sw_set ?I = S"
    using abs by (auto simp: sw_abs_def)
  have "fst (set_software_breakpoint K i a s) = ok \<and>
    sw_abs M M0 i (snd (set_software_breakpoint K i a s)) (if ok then insert a S else S)"
  proof (cases "P (i_vspace ?I) a")
    case False
    obtain k' where "set_software_breakpoint K i a s = (False, s\<lparr>ks := k'\<rparr>)" and "M k' = M (ks s)"
      by (rule set_sw_unmapped [OF wm False])
    with False show ?thesis
      using abs by (simp add: ok_def sw_abs_def)
  next
    case mapped: True
    show ?thesis
    proof (cases "List.find (\<lambda>n. sb_addr (i_sw ?I n) = 0) [0..<MAX_SW_BREAKS]")
      case None
      then have "\<not> ok"
        using sw_set_card [OF inv] S by (auto simp: ok_def find_upt_None)
      moreover obtain k' where "set_software_breakpoint K i a s = (False, s\<lparr>ks := k'\<rparr>)"
        and "M k' = M (ks s)"
        by (rule set_sw_full [OF wm mapped refl None])
      ultimately show ?thesis
        using abs by (simp add: sw_abs_def)
    next
      case (Some n)
      then have n: "n < MAX_SW_BREAKS" "sb_addr (i_sw ?I n) = 0"
        by (auto simp: find_upt_Some)
      then have "ok"
        using sw_set_card [OF inv] S mapped by (auto simp: ok_def)
      moreover obtain k' where "set_software_breakpoint K i a s = (True, upd_inf i (\<lambda>I. I\<lparr>i_sw := (i_sw I)(n :=
          \<lparr>sb_addr = a, sb_orig_word = load64 (M (ks s) (i_vspace ?I)) a\<rparr>)\<rparr>) (s\<lparr>ks := k'\<rparr>))"
        and "M k' = (M (ks s))(i_vspace ?I := store64 (M (ks s) (i_vspace ?I)) a
          (AARCH64_BREAK_KGDB_DYN_DBG OR (0xFFFFFFFF00000000 AND load64 (M (ks s) (i_vspace ?I)) a)))"
        by (rule set_sw_free_slot [OF wm mapped refl Some])
      ultimately show ?thesis
        using sw_inv_fill [OF inv n a(1)] a S sw_set_fill [OF n] by (simp add: sw_abs_def)
    qed
  qed
  then show "fst (set_software_breakpoint K i a s) = ok"
    and "sw_abs M M0 i (snd (set_software_breakpoint K i a s)) (if ok then insert a S else S)"
    by auto
qed

lemma unset_sw_abs:
  assumes wm: "word_memory K M P" and abs: "sw_abs M M0 i s S" and a: "a \<noteq> 0"
  defines "ok \<equiv> a \<in> S \<longrightarrow> P (i_vspace (inferiors s i)) a"
  shows "fst (unset_software_breakpoint K i a s) = ok"
    and "sw_abs M M0 i (snd (unset_software_breakpoint K i a s)) (if ok then S - {a} else S)"
proof -
  let ?I = "inferiors s i"
  have inv: "sw_inv M0 ?I (M (ks s) (i_vspace ?I))" and S: "sw_set ?I = S"
    using abs by (auto simp: sw_abs_def)
  have "fst (unset_software_breakpoint K i a s) = ok \<and>
    sw_abs M M0 i (snd (unset_software_breakpoint K i a s)) (if ok then S - {a} else S)"
  proof (cases "List.find (\<lambda>n. sb_addr (i_sw ?I n) = a) [0..<MAX_SW_BREAKS]")
    case None
    then have "a \<notin> S"
      using S by (auto simp: find_upt_None sw_set_def)
    with None show ?thesis
      using abs by (simp add: unset_software_breakpoint_def ok_def)
  next
    case (Some n)
    then have n: "n < MAX_SW_BREAKS" "sb_addr (i_sw ?I n) = a"
      by (auto simp: find_upt_Some)
    then have "a \<in> S"
      using S a by (auto simp: sw_set_def)
    show ?thesis
    proof (cases "P (i_vspace ?I) a")
      case True
      obtain k' where k': "VSpace_Write_Word K (ks s) (i_vspace ?I) a (sb_orig_word (i_sw ?I n)) = (0, k')"
        "M k' = (M (ks s))(i_vspace ?I := store64 (M (ks s) (i_vspace ?I)) a (sb_orig_word (i_sw ?I n)))"
        by (rule word_write_ok [OF wm True])
      show ?thesis
        using True Some k' \<open>a \<in> S\<close> S sw_inv_free [OF inv n a] sw_set_free [OF n(1) inv n(2) a]
        by (simp add: unset_software_breakpoint_def ok_def sw_abs_def)
    next
      case False
      obtain e k' where k': "VSpace_Write_Word K (ks s) (i_vspace ?I) a (sb_orig_word (i_sw ?I n)) = (e, k')"
        "e \<noteq> 0" "M k' = M (ks s)"
        by (rule word_write_fail [OF wm False])
      with False Some \<open>a \<in> S\<close> show ?thesis
        using abs by (simp add: unset_software_breakpoint_def ok_def sw_abs_def)
    qed
  qed
  then show "fst (unset_software_breakpoint K i a s) = ok"
    and "sw_abs M M0 i (snd (unset_software_breakpoint K i a s)) (if ok then S - {a} else S)"
    by auto
qed

section \<open>Sequences of requests\<close>

datatype sw_request = SetBreak u64 | ClearBreak u64

text \<open>The code, and the specification on sets; both return the replies and the final state.\<close>

fun sw_step :: "('k, 'r) kernel \<Rightarrow> nat \<Rightarrow> sw_request \<Rightarrow> 'k gdb \<Rightarrow> bool \<times> 'k gdb" where
  "sw_step K i (SetBreak a) s = set_software_breakpoint K i a s"
| "sw_step K i (ClearBreak a) s = unset_software_breakpoint K i a s"

fun sw_run :: "('k, 'r) kernel \<Rightarrow> nat \<Rightarrow> sw_request list \<Rightarrow> 'k gdb \<Rightarrow> bool list \<times> 'k gdb" where
  "sw_run K i [] s = ([], s)"
| "sw_run K i (q # qs) s =
     (let (r, s1) = sw_step K i q s; (rs, s2) = sw_run K i qs s1 in (r # rs, s2))"

fun sw_spec :: "(u64 \<Rightarrow> bool) \<Rightarrow> sw_request \<Rightarrow> u64 set \<Rightarrow> bool \<times> u64 set" where
  "sw_spec mapped (SetBreak a) S =
     (if mapped a \<and> card S < MAX_SW_BREAKS then (True, insert a S) else (False, S))"
| "sw_spec mapped (ClearBreak a) S =
     (if a \<in> S \<longrightarrow> mapped a then (True, S - {a}) else (False, S))"

fun sw_spec_run :: "(u64 \<Rightarrow> bool) \<Rightarrow> sw_request list \<Rightarrow> u64 set \<Rightarrow> bool list \<times> u64 set" where
  "sw_spec_run mapped [] S = ([], S)"
| "sw_spec_run mapped (q # qs) S =
     (let (r, S1) = sw_spec mapped q S; (rs, S2) = sw_spec_run mapped qs S1 in (r # rs, S2))"

text \<open>
  The requests the code supports: no breakpoint at address zero, which marks a free slot, and
  none within eight bytes of another, whose saved word would overlap.
\<close>

fun sw_allowed :: "(u64 \<Rightarrow> bool) \<Rightarrow> sw_request list \<Rightarrow> u64 set \<Rightarrow> bool" where
  "sw_allowed mapped [] S = True"
| "sw_allowed mapped (q # qs) S =
     ((case q of SetBreak a \<Rightarrow> a \<noteq> 0 \<and> (\<forall>b\<in>S. apart a b) | ClearBreak a \<Rightarrow> a \<noteq> 0) \<and>
      sw_allowed mapped qs (snd (sw_spec mapped q S)))"

lemma sw_step_vspace: "i_vspace (inferiors (snd (sw_step K i q s)) i) = i_vspace (inferiors s i)"
  by (cases q) (simp_all add: set_software_breakpoint_def unset_software_breakpoint_def split_def
      Let_def split: option.split)

lemma sw_step_abs:
  assumes "word_memory K M P" and "sw_abs M M0 i s S"
    and "sw_allowed (P (i_vspace (inferiors s i))) [q] S"
  shows "fst (sw_step K i q s) = fst (sw_spec (P (i_vspace (inferiors s i))) q S)"
    and "sw_abs M M0 i (snd (sw_step K i q s)) (snd (sw_spec (P (i_vspace (inferiors s i))) q S))"
proof -
  let ?mapped = "P (i_vspace (inferiors s i))"
  have "fst (sw_step K i q s) = fst (sw_spec ?mapped q S) \<and>
    sw_abs M M0 i (snd (sw_step K i q s)) (snd (sw_spec ?mapped q S))"
  proof (cases q)
    case (SetBreak a)
    then have "a \<noteq> 0" "\<And>b. b \<in> S \<Longrightarrow> apart a b"
      using assms(3) by auto
    from set_sw_abs [OF assms(1,2) this] SetBreak show ?thesis
      by (cases "?mapped a \<and> card S < MAX_SW_BREAKS") auto
  next
    case (ClearBreak a)
    then have "a \<noteq> 0"
      using assms(3) by simp
    from unset_sw_abs [OF assms(1,2) this] ClearBreak show ?thesis
      by (cases "a \<in> S \<longrightarrow> ?mapped a") auto
  qed
  then show "fst (sw_step K i q s) = fst (sw_spec ?mapped q S)"
    and "sw_abs M M0 i (snd (sw_step K i q s)) (snd (sw_spec ?mapped q S))"
    by auto
qed

lemma sw_run_abs:
  assumes "word_memory K M P" and "sw_abs M M0 i s S" and "sw_allowed (P (i_vspace (inferiors s i))) qs S"
  shows "fst (sw_run K i qs s) = fst (sw_spec_run (P (i_vspace (inferiors s i))) qs S) \<and>
    sw_abs M M0 i (snd (sw_run K i qs s)) (snd (sw_spec_run (P (i_vspace (inferiors s i))) qs S))"
  using assms(2,3)
proof (induction qs arbitrary: s S)
  case Nil
  then show ?case by simp
next
  case (Cons q qs)
  let ?s = "snd (sw_step K i q s)" and ?S = "snd (sw_spec (P (i_vspace (inferiors s i))) q S)"
  have "sw_allowed (P (i_vspace (inferiors s i))) [q] S"
    using Cons.prems(2) by simp
  note step = sw_step_abs [OF assms(1) Cons.prems(1) this]
  have "sw_allowed (P (i_vspace (inferiors ?s i))) qs ?S"
    using Cons.prems(2) by (simp add: sw_step_vspace)
  with Cons.IH [OF step(2)] step(1) show ?case
    by (simp add: sw_step_vspace case_prod_beta Let_def)
qed

lemma sw_run_vspace: "i_vspace (inferiors (snd (sw_run K i qs s)) i) = i_vspace (inferiors s i)"
  by (induction qs arbitrary: s) (simp_all add: sw_step_vspace case_prod_beta Let_def)

lemma sw_run_append:
  "sw_run K i (qs @ rs) s =
     (let (xs, s1) = sw_run K i qs s; (ys, s2) = sw_run K i rs s1 in (xs @ ys, s2))"
  by (induction qs arbitrary: s) (simp_all add: case_prod_beta Let_def)

lemma sw_abs_fresh:
  assumes "\<And>n. n < MAX_SW_BREAKS \<Longrightarrow> sb_addr (i_sw (inferiors s i) n) = 0"
  shows "sw_abs M (M (ks s) (i_vspace (inferiors s i))) i s {}"
  using assms by (auto simp: sw_abs_def sw_inv_def sw_set_def patched_def)

lemma sw_abs_empty: "sw_abs M M0 i s {} \<Longrightarrow> M (ks s) (i_vspace (inferiors s i)) = M0"
  by (auto simp: sw_abs_def sw_inv_def patched_empty)

section \<open>What duplicates do\<close>

lemma unset_sw_mapped:
  assumes "word_memory K M P" and "P vs a" and vs: "vs = i_vspace (inferiors s i)"
    and "List.find (\<lambda>n. sb_addr (i_sw (inferiors s i) n) = a) [0..<MAX_SW_BREAKS] = Some n"
  obtains k' where "unset_software_breakpoint K i a s = (True, upd_inf i (\<lambda>I. I\<lparr>i_sw := (i_sw I)(n :=
      (i_sw I n)\<lparr>sb_addr := 0\<rparr>)\<rparr>) (s\<lparr>ks := k'\<rparr>))"
    and "M k' = (M (ks s))(vs := store64 (M (ks s) vs) a (sb_orig_word (i_sw (inferiors s i) n)))"
proof -
  obtain k' where "VSpace_Write_Word K (ks s) vs a (sb_orig_word (i_sw (inferiors s i) n)) = (0, k')"
    "M k' = (M (ks s))(vs := store64 (M (ks s) vs) a (sb_orig_word (i_sw (inferiors s i) n)))"
    by (rule word_write_ok [OF assms(1,2)])
  then show thesis
    by (intro that [of k']) (use assms(4) vs in \<open>simp_all add: unset_software_breakpoint_def\<close>)
qed

section \<open>Properties\<close>

text \<open>Software breakpoints refine a set of addresses. From an empty table, for every
  sequence of supported set and clear requests, the code answers each request as the
  specification on sets does, records exactly the specified set, and leaves the memory of the
  inferior equal to the program with a break instruction at each address of the set.\<close>

lemma sw_breakpoints_refine_sets:
  assumes "word_memory K M P" and "sw_allowed (P (i_vspace (inferiors s i))) qs {}"
    and "\<And>n. n < MAX_SW_BREAKS \<Longrightarrow> sb_addr (i_sw (inferiors s i) n) = 0"
  shows "fst (sw_run K i qs s) = fst (sw_spec_run (P (i_vspace (inferiors s i))) qs {}) \<and>
    sw_set (inferiors (snd (sw_run K i qs s)) i) = snd (sw_spec_run (P (i_vspace (inferiors s i))) qs {}) \<and>
    patched (M (ks s) (i_vspace (inferiors s i))) (sw_set (inferiors (snd (sw_run K i qs s)) i))
      (M (ks (snd (sw_run K i qs s))) (i_vspace (inferiors s i)))"
  using sw_run_abs [OF assms(1) sw_abs_fresh [OF assms(3)] assms(2)]
  by (auto simp: sw_abs_def sw_inv_def sw_run_vspace)

lemma allowed_example:
  "sw_allowed (mc_mapped 0) [SetBreak 4096, SetBreak 8192, ClearBreak 4096, ClearBreak 8192] {}"
  by (simp add: mc_mapped_def apart_def MAX_SW_BREAKS_def)

lemma fresh_example [simp]:
  "i_vspace (inferiors (init_gdb k) i) = 0" "sb_addr (i_sw (inferiors (init_gdb k) i) n) = 0"
  by (simp_all add: init_gdb_def zero_inferior_def zero_sw_def)

text \<open>Setting and clearing breakpoints is invisible in the end: after any sequence of
  supported requests whose specified set is empty again, every byte of the inferior's memory
  is what it was before the first request.\<close>

lemma sw_breakpoints_restore_memory:
  assumes "word_memory K M P" and "sw_allowed (P (i_vspace (inferiors s i))) qs {}"
    and "\<And>n. n < MAX_SW_BREAKS \<Longrightarrow> sb_addr (i_sw (inferiors s i) n) = 0"
    and "snd (sw_spec_run (P (i_vspace (inferiors s i))) qs {}) = {}"
  shows "M (ks (snd (sw_run K i qs s))) (i_vspace (inferiors s i)) = M (ks s) (i_vspace (inferiors s i))"
proof -
  have "sw_abs M (M (ks s) (i_vspace (inferiors s i))) i (snd (sw_run K i qs s)) {}"
    using sw_run_abs [OF assms(1) sw_abs_fresh [OF assms(3)] assms(2)] assms(4) by simp
  from sw_abs_empty [OF this] show ?thesis
    by (simp add: sw_run_vspace)
qed

text \<open>A second request at an address that already has a breakpoint saves the break
  instruction as the original word: after two sets and two clears, all reported successful,
  the table is empty and the break instruction is still in the program.\<close>

lemma sw_duplicate_keeps_brk:
  assumes wm: "word_memory K M P" and mapped: "P vs a" and vs: "vs = i_vspace (inferiors s i)"
    and empty: "\<And>n. n < MAX_SW_BREAKS \<Longrightarrow> sb_addr (i_sw (inferiors s i) n) = 0" and a: "a \<noteq> 0"
  shows "\<exists>s'. sw_run K i [SetBreak a, SetBreak a, ClearBreak a, ClearBreak a] s =
      ([True, True, True, True], s') \<and> sw_set (inferiors s' i) = {} \<and>
      get_byte (load64 (M (ks s') vs) a) 3 = 0xd4"
proof -
  let ?m = "M (ks s) vs" and ?brk = "\<lambda>w :: u64. AARCH64_BREAK_KGDB_DYN_DBG OR (0xFFFFFFFF00000000 AND w)"
  let ?w = "load64 ?m a"
  have pos: "0 < MAX_SW_BREAKS" "Suc 0 < MAX_SW_BREAKS"
    by (simp_all add: MAX_SW_BREAKS_def)
  obtain s1 where 1: "set_software_breakpoint K i a s = (True, s1)" "i_vspace (inferiors s1 i) = vs"
    "i_sw (inferiors s1 i) = (i_sw (inferiors s i))(0 := \<lparr>sb_addr = a, sb_orig_word = ?w\<rparr>)"
    "M (ks s1) vs = store64 ?m a (?brk ?w)"
    by (rule set_sw_free_slot [OF wm mapped vs, of 0]) (use pos empty vs in \<open>auto simp: find_upt_Some\<close>)
  have "List.find (\<lambda>n. sb_addr (i_sw (inferiors s1 i) n) = 0) [0..<MAX_SW_BREAKS] = Some 1"
    using pos empty a by (simp add: find_upt_Some 1)
  then obtain s2 where 2: "set_software_breakpoint K i a s1 = (True, s2)" "i_vspace (inferiors s2 i) = vs"
    "i_sw (inferiors s2 i) = (i_sw (inferiors s1 i))(1 := \<lparr>sb_addr = a, sb_orig_word = ?brk ?w\<rparr>)"
    by (rule set_sw_free_slot [OF wm mapped 1(2) [symmetric]]) (simp add: 1 load64_store64)
  have "List.find (\<lambda>n. sb_addr (i_sw (inferiors s2 i) n) = a) [0..<MAX_SW_BREAKS] = Some 0"
    using pos by (simp add: find_upt_Some 1 2)
  then obtain s3 where 3: "unset_software_breakpoint K i a s2 = (True, s3)" "i_vspace (inferiors s3 i) = vs"
    "i_sw (inferiors s3 i) = (i_sw (inferiors s2 i))(0 := \<lparr>sb_addr = 0, sb_orig_word = ?w\<rparr>)"
    by (rule unset_sw_mapped [OF wm mapped 2(2) [symmetric]]) (simp add: 1 2)
  have "List.find (\<lambda>n. sb_addr (i_sw (inferiors s3 i) n) = a) [0..<MAX_SW_BREAKS] = Some 1"
    using pos a by (simp add: find_upt_Some 1 2 3)
  then obtain s4 where 4: "unset_software_breakpoint K i a s3 = (True, s4)"
    "i_sw (inferiors s4 i) = (i_sw (inferiors s3 i))(1 := \<lparr>sb_addr = 0, sb_orig_word = ?brk ?w\<rparr>)"
    "M (ks s4) vs = store64 (M (ks s3) vs) a (?brk ?w)"
    by (rule unset_sw_mapped [OF wm mapped 3(2) [symmetric]]) (simp add: 1 2 3)
  have "get_byte AARCH64_BREAK_KGDB_DYN_DBG 3 = 0xd4"
    by (simp add: AARCH64_BREAK_KGDB_DYN_DBG_def get_byte_def drop_bit_eq_div)
  then have "get_byte (load64 (M (ks s4) vs) a) 3 = 0xd4"
    by (simp add: 4 load64_store64 get_byte_brk)
  moreover have "sw_set (inferiors s4 i) = {}"
    using empty by (simp add: sw_set_def 1 2 3 4)
  ultimately show ?thesis
    by (intro exI [of _ s4]) (simp add: 1 2 3 4)
qed

end
