(* ===== verification/Gdb_Memchr.thy ===== *)
theory Gdb_Memchr imports Gdb_Memory begin
unbundle bit_operations_syntax

text \<open>
  \<open>memchr\<close> of \<open>src/util.c\<close>. It steps to an aligned address, then over whole words as
  long as the carry trick \<open>HASZERO\<close> finds no byte equal to the one searched for, then over
  the bytes that remain. \<open>HASZERO\<close> is proved to detect exactly the words with a zero byte,
  and \<open>memchr\<close> to be the bytewise search.
\<close>

section \<open>memchr\<close>

definition ONES :: u64 where
  "ONES = (- 1) div 255"

definition HIGHS :: u64 where
  "HIGHS = ONES * (255 div 2 + 1)"

definition HASZERO :: "u64 \<Rightarrow> u64" where
  "HASZERO x = ((x - ONES) AND NOT x) AND HIGHS"

text \<open>The three loops: to an aligned address, over whole words, over the remaining bytes.\<close>

lemma unat_minus_1: "n \<noteq> 0 \<Longrightarrow> unat (n - 1) < unat (n :: u64)"
  by (simp add: unat_minus_one unat_gt_0)

function memchr_head :: "memory \<Rightarrow> u64 \<Rightarrow> u64 \<Rightarrow> u8 \<Rightarrow> u64 \<times> u64" where
  "memchr_head m s n c =
     (if s AND 7 \<noteq> 0 \<and> n \<noteq> 0 \<and> m s \<noteq> c then memchr_head m (s + 1) (n - 1) c else (s, n))"
  by pat_completeness auto
termination
  by (relation "measure (\<lambda>(m, s, n, c). unat n)") (auto simp: unat_minus_1)

function memchr_words :: "memory \<Rightarrow> u64 \<Rightarrow> u64 \<Rightarrow> u64 \<Rightarrow> u64 \<times> u64" where
  "memchr_words m w n k =
     (if n \<ge> 8 \<and> HASZERO (load64 m w XOR k) = 0 then memchr_words m (w + 8) (n - 8) k else (w, n))"
  by pat_completeness auto
termination
  by (relation "measure (\<lambda>(m, w, n, k). unat n)") (auto simp: word_le_nat_alt unat_sub)

function memchr_tail :: "memory \<Rightarrow> u64 \<Rightarrow> u64 \<Rightarrow> u8 \<Rightarrow> u64 \<times> u64" where
  "memchr_tail m s n c =
     (if n \<noteq> 0 \<and> m s \<noteq> c then memchr_tail m (s + 1) (n - 1) c else (s, n))"
  by pat_completeness auto
termination
  by (relation "measure (\<lambda>(m, s, n, c). unat n)") (auto simp: unat_minus_1)

declare memchr_head.simps [simp del] memchr_words.simps [simp del] memchr_tail.simps [simp del]

definition memchr :: "memory \<Rightarrow> u64 \<Rightarrow> u32 \<Rightarrow> u64 \<Rightarrow> u64 option" where
  "memchr m src ch n =
    (let c = ucast ch :: u8;
         (s, n) = memchr_head m src n c;
         (s, n) = (if n \<noteq> 0 \<and> m s \<noteq> c
                   then (let k = ONES * ucast c;
                             (w, n) = memchr_words m s n k
                         in memchr_tail m w n c)
                   else (s, n))
     in if n \<noteq> 0 then Some s else None)"

text \<open>
  \<open>HASZERO\<close> is nonzero exactly when a byte is zero. The proof is by bytes from the lowest:
  a zero byte sets its own high bit, and below the lowest zero byte the subtraction
  borrows nothing.
\<close>

fun ones :: "nat \<Rightarrow> int" where
  "ones 0 = 0"
| "ones (Suc m) = 1 + 256 * ones m"

lemma join_byte_bit:
  assumes "0 \<le> b" and "b < 256"
  shows "bit (b + 256 * a) n = (if n < 8 then bit b n else bit (a :: int) (n - 8))"
proof -
  have b: "\<not> bit b n" if "8 \<le> n" for n
  proof -
    have "take_bit 8 b = b"
      using assms by (simp add: take_bit_eq_mod)
    with that show ?thesis
      by (metis bit_take_bit_iff not_le)
  qed
  have a: "bit (256 * a) n \<longleftrightarrow> 8 \<le> n \<and> bit a (n - 8)" for n
    using bit_push_bit_iff [of 8 a n] by (simp add: push_bit_eq_mult mult.commute)
  have "b + 256 * a = b OR 256 * a"
    by (rule disjunctive_add) (use a b in auto)
  then show ?thesis
    using a b by (auto simp: bit_or_iff)
qed

lemma and_join_byte:
  assumes "0 \<le> b" and "b < 256" and "0 \<le> d" and "d < 256"
  shows "(b + 256 * a) AND (d + 256 * c) = (b AND d) + 256 * (a AND (c :: int))"
proof -
  have "0 \<le> b AND d" and "b AND d < 256"
    using assms by (simp_all add: AND_upper1')
  with assms show ?thesis
    by (intro bit_eqI) (auto simp: bit_and_iff join_byte_bit)
qed

lemma not_join_byte: "NOT (b + 256 * a) = (255 - b) + 256 * NOT (a :: int)"
  by (simp add: not_int_def)

lemma low_byte_and_128:
  assumes "0 < b" and "b < (256 :: int)"
  shows "(b - 1) AND (255 - b) AND 128 = 0"
proof -
  have small: "\<not> bit x 7" if "0 \<le> x" and "x < (128 :: int)" for x
    using that by (simp add: bit_iff_odd)
  have "\<not> bit ((b - 1) AND (255 - b)) 7"
    using assms small [of "b - 1"] small [of "255 - b"] by (cases "b \<le> 128") (auto simp: bit_and_iff)
  then show ?thesis
    using and_exp_eq_0_iff_not_bit [of "(b - 1) AND (255 - b)" 7] by (simp add: and.assoc)
qed

lemma ones_nonneg: "0 \<le> ones m"
  by (induction m) auto

lemma haszero_int:
  "((x - ones m) AND NOT x) AND (128 * ones m) = 0 \<longleftrightarrow> (\<forall>i<m. x div 256 ^ i mod 256 \<noteq> 0)"
proof (induction m arbitrary: x)
  case 0
  then show ?case by simp
next
  case (Suc m)
  define b a where "b = x mod 256" and "a = x div 256"
  have x: "x = b + 256 * a" and b: "0 \<le> b" "b < 256"
    by (simp_all add: b_def a_def)
  have bytes: "(\<forall>i<Suc m. x div 256 ^ i mod 256 \<noteq> 0) \<longleftrightarrow> b \<noteq> 0 \<and> (\<forall>i<m. a div 256 ^ i mod 256 \<noteq> 0)"
    by (auto simp: All_less_Suc2 b_def a_def zdiv_zmult2_eq)
  define h where "h = 128 * ones m"
  have highs: "128 * ones (Suc m) = 128 + 256 * h"
    by (simp add: h_def)
  have notx: "NOT x = (255 - b) + 256 * NOT a"
    unfolding x by (rule not_join_byte)
  show ?case
  proof (cases "b = 0")
    case True
    define c where "c = a - ones m - 1"
    have "x - ones (Suc m) = 255 + 256 * c"
      using True x by (simp add: c_def)
    then have "((x - ones (Suc m)) AND NOT x) AND (128 * ones (Suc m)) = 128 + 256 * ((c AND NOT a) AND h)"
      unfolding highs notx True by (simp only:) (simp add: and_join_byte)
    moreover have "0 \<le> (c AND NOT a) AND h"
      using ones_nonneg [of m] by (simp add: h_def)
    ultimately have "((x - ones (Suc m)) AND NOT x) AND (128 * ones (Suc m)) \<noteq> 0"
      by linarith
    with True show ?thesis
      using bytes by blast
  next
    case False
    define c where "c = a - ones m"
    have "x - ones (Suc m) = (b - 1) + 256 * c"
      using x by (simp add: c_def)
    then have "((x - ones (Suc m)) AND NOT x) AND (128 * ones (Suc m)) =
      (((b - 1) AND (255 - b)) AND 128) + 256 * ((c AND NOT a) AND h)"
      unfolding highs notx using False b by (simp only:) (simp add: and_join_byte AND_upper1')
    also have "((b - 1) AND (255 - b)) AND 128 = 0"
      using low_byte_and_128 [of b] False b by (simp add: and.assoc)
    finally show ?thesis
      using Suc.IH [of a] False bytes by (simp add: h_def c_def)
  qed
qed

lemma ones_8: "ones 8 = 72340172838076673"
  by (simp add: eval_nat_numeral)

lemma HASZERO_eq_0_iff: "HASZERO x = 0 \<longleftrightarrow> (\<forall>i<8. get_byte x i \<noteq> 0)"
proof -
  define y where "y = uint x"
  define v where "v = ((y - ones 8) AND NOT y) AND (128 * ones 8)"
  have "0 \<le> v" and "v \<le> 128 * ones 8"
    by (simp_all add: v_def ones_8 AND_upper2')
  then have v: "(of_int v :: u64) = 0 \<longleftrightarrow> v = 0"
    by (auto simp: ones_8 word_of_int_eq_0_iff zdvd_not_zless dest: zdvd_imp_le)
  have x: "x = of_int y"
    by (simp add: y_def)
  have "ONES = of_int (ones 8)" and "HIGHS = of_int (128 * ones 8)"
    by (simp_all add: ONES_def HIGHS_def ones_8)
  then have "HASZERO x = of_int v"
    unfolding HASZERO_def v_def x by (simp only: of_int_and_eq of_int_not_eq of_int_diff)
  then have "HASZERO x = 0 \<longleftrightarrow> (\<forall>i<8. y div 256 ^ i mod 256 \<noteq> 0)"
    using v haszero_int [of y 8] by (simp add: v_def)
  moreover have "get_byte x i = 0 \<longleftrightarrow> y div 256 ^ i mod 256 = 0" for i
  proof -
    have "int (unat (get_byte x i)) = y div 256 ^ i mod 256"
      by (simp add: unat_get_byte y_def zdiv_int zmod_int power_mult)
    then show ?thesis
      by (metis of_nat_eq_0_iff unat_eq_zero)
  qed
  ultimately show ?thesis
    by simp
qed

lemma get_byte_xor: "get_byte (a XOR b) i = get_byte (a :: u64) i XOR get_byte b i"
  by (rule bit_word_eqI) (auto simp: bit_get_byte bit_xor_iff)

lemma get_byte_ones: "i < 8 \<Longrightarrow> get_byte (ONES * ucast c) i = (c :: u8)"
proof -
  assume i: "i < 8"
  define v where "v = 16843009 * (ucast c :: u32)"
  have "unat c < 2 ^ LENGTH(8)"
    by (rule unsigned_less)
  then have uv: "unat v = 16843009 * unat c"
    by (simp add: v_def unat_word_ariths unsigned_ucast_eq take_bit_eq_mod)
  have "(ucast v :: u64) OR push_bit 32 (ucast v) = ucast v + push_bit 32 (ucast v)"
    by (rule disjunctive_add [symmetric]) (auto simp: bit_push_bit_iff bit_ucast_iff dest: bit_imp_le_length)
  also have "\<dots> = 4294967297 * ucast v"
    by (simp add: push_bit_eq_mult)
  finally have or: "(ucast v :: u64) OR push_bit 32 (ucast v) = 4294967297 * ucast v" .
  have uv64: "(ucast v :: u64) = 16843009 * ucast c"
    using uv \<open>unat c < _\<close>
    by (intro word_unat_eq_iff [THEN iffD2]) (simp add: unat_word_ariths unsigned_ucast_eq take_bit_eq_mod)
  have "ONES * ucast c = (ucast v :: u64) OR push_bit 32 (ucast v)"
    unfolding or unfolding uv64 by (simp add: ONES_def)
  moreover have "\<And>j. j < 4 \<Longrightarrow> get_byte v j = c"
    using get_byte_c32 [of _ c] by (simp add: v_def)
  ultimately show ?thesis
    using get_byte_c64 i by simp
qed

section \<open>memchr is a bytewise search\<close>

lemma memchr_tail_step:
  "n \<noteq> 0 \<Longrightarrow> m s \<noteq> c \<Longrightarrow> memchr_tail m s n c = memchr_tail m (s + 1) (n - 1) c"
  by (subst memchr_tail.simps) simp

lemma memchr_tail_stop:
  "n = 0 \<or> m s = c \<Longrightarrow> memchr_tail m s n c = (s, n)"
  by (subst memchr_tail.simps) auto

lemma memchr_tail_head:
  "case memchr_head m s n c of (s', n') \<Rightarrow> memchr_tail m s' n' c = memchr_tail m s n c"
proof (induction m s n c rule: memchr_head.induct)
  case (1 m s n c)
  then show ?case
    by (subst memchr_head.simps) (auto simp: memchr_tail_step split: if_splits)
qed

lemma memchr_tail_skip:
  assumes "j \<le> unat n" and "\<And>i. i < j \<Longrightarrow> m (s + of_nat i) \<noteq> c"
  shows "memchr_tail m s n c = memchr_tail m (s + of_nat j) (n - of_nat j) c"
  using assms
proof (induction j)
  case (Suc j)
  have "memchr_tail m s n c = memchr_tail m (s + of_nat j) (n - of_nat j) c"
    by (rule Suc.IH) (use Suc.prems in auto)
  also have "\<dots> = memchr_tail m (s + of_nat j + 1) (n - of_nat j - 1) c"
  proof (rule memchr_tail_step)
    show "n - of_nat j \<noteq> 0"
    proof
      assume "n - of_nat j = 0"
      then have "n = of_nat j"
        by simp
      moreover have "j < 2 ^ 64"
        using Suc.prems(1) unat_less_64 [of n] by linarith
      ultimately show False
        using Suc.prems(1) unat_small [of j] by simp
    qed
    show "m (s + of_nat j) \<noteq> c"
      using Suc.prems(2) by simp
  qed
  finally show ?case
    by (simp add: algebra_simps)
qed simp

lemma memchr_tail_words:
  "case memchr_words m w n (ONES * ucast c) of (w', n') \<Rightarrow> memchr_tail m w' n' c = memchr_tail m w n c"
proof (induction m w n "ONES * ucast c :: u64" rule: memchr_words.induct)
  case (1 m w n)
  show ?case
  proof (cases "n \<ge> 8 \<and> HASZERO (load64 m w XOR ONES * ucast c) = 0")
    case True
    have "m (w + of_nat i) \<noteq> c" if "i < 8" for i
    proof -
      have "get_byte (load64 m w XOR ONES * ucast c) i \<noteq> 0"
        using True that HASZERO_eq_0_iff by blast
      then show ?thesis
        using that by (auto simp: get_byte_xor get_byte_load64 get_byte_ones)
    qed
    then have "memchr_tail m w n c = memchr_tail m (w + of_nat 8) (n - of_nat 8) c"
      using True by (intro memchr_tail_skip) (auto simp: word_le_nat_alt)
    with 1 True show ?thesis
      by (subst memchr_words.simps) simp
  next
    case False
    then show ?thesis
      by (subst memchr_words.simps) auto
  qed
qed

text \<open>The bytewise search, from index \<open>i\<close> of the \<open>n\<close> bytes at \<open>s\<close>.\<close>

definition first_index :: "memory \<Rightarrow> u64 \<Rightarrow> u8 \<Rightarrow> nat \<Rightarrow> nat option" where
  "first_index m s c n = List.find (\<lambda>i. m (s + of_nat i) = c) [0..<n]"

lemma memchr_tail_find:
  "(case memchr_tail m s n c of (s', n') \<Rightarrow> if n' \<noteq> 0 then Some s' else None) =
     map_option (\<lambda>i. s + of_nat i) (first_index m s c (unat n))"
proof (induction m s n c rule: memchr_tail.induct)
  case (1 m s n c)
  show ?case
  proof (cases "n \<noteq> 0 \<and> m s \<noteq> c")
    case True
    then obtain k where k: "unat n = Suc k"
      by (metis not0_implies_Suc unat_eq_zero)
    then have "unat (n - 1) = k"
      using True by (simp add: unat_minus_one)
    moreover have "first_index m s c (Suc k) = map_option Suc (first_index m (s + 1) c k)"
      using True by (simp add: first_index_def find_upt_Suc comp_def ac_simps del: upt_Suc)
    ultimately show ?thesis
      using 1 True k by (subst memchr_tail.simps) (simp add: option.map_comp comp_def ac_simps)
  next
    case False
    show ?thesis
    proof (cases "n = 0")
      case True
      then show ?thesis
        by (simp add: memchr_tail_stop first_index_def)
    next
      case n: False
      then obtain k where "unat n = Suc k"
        by (metis not0_implies_Suc unat_eq_zero)
      with n False show ?thesis
        by (simp add: memchr_tail_stop first_index_def find_upt_Suc del: upt_Suc)
    qed
  qed
qed

lemma memchr_find: "memchr m s ch n = map_option (\<lambda>i. s + of_nat i) (first_index m s (ucast ch) (unat n))"
proof -
  define c where "c = (ucast ch :: u8)"
  obtain s1 n1 where head: "memchr_head m s n c = (s1, n1)"
    by fastforce
  obtain s2 n2 where words: "memchr_words m s1 n1 (ONES * ucast c) = (s2, n2)"
    by fastforce
  have tails: "memchr_tail m s1 n1 c = memchr_tail m s n c" "memchr_tail m s2 n2 c = memchr_tail m s1 n1 c"
    using memchr_tail_head [where m = m and s = s and n = n and c = c]
      memchr_tail_words [where m = m and w = s1 and n = n1 and c = c] head words by simp_all
  have "memchr m s ch n = (case memchr_tail m s n c of (s', n') \<Rightarrow> if n' \<noteq> 0 then Some s' else None)"
  proof (cases "n1 \<noteq> 0 \<and> m s1 \<noteq> c")
    case True
    with head words tails show ?thesis
      by (simp add: memchr_def c_def [symmetric] Let_def)
  next
    case False
    then have "memchr_tail m s n c = (s1, n1)"
      using tails(1) by (simp add: memchr_tail_stop)
    with False head show ?thesis
      by (auto simp: memchr_def c_def [symmetric] Let_def)
  qed
  then show ?thesis
    by (simp add: memchr_tail_find c_def)
qed

section \<open>Properties\<close>

text \<open>C30: The word-at-a-time \<open>memchr\<close> is the byte-by-byte search: it returns the address
  of the first of the \<open>n\<close> bytes from \<open>s\<close> on that equals the character, and null when
  there is none.\<close>

theorem memchr_is_search: "memchr m s c n =
  map_option (\<lambda>i. s + of_nat i) (List.find (\<lambda>i. m (s + of_nat i) = ucast c) [0..<unat n])"
  by (simp add: memchr_find first_index_def)

end
