(* ===== verification/Gdb_Parse.thy ===== *)
theory Gdb_Parse
  imports Gdb_Memchr Gdb_Reply
begin

text \<open>
  The parsers of \<open>src/gdb.c\<close> for the operands of packets: an address and a size, the operands
  of a breakpoint, and the identifier of a thread. A parser reads the packet through a pointer
  that only moves forward. The lemmas give the value each parser returns on the texts GDB
  sends, and that none of them moves backward.
\<close>

section \<open>Reading characters\<close>

text \<open>\<open>*ptr\<close> and \<open>*ptr++\<close>.\<close>

definition peekR :: "cptr \<Rightarrow> u8 res" where
  "peekR ptr = (case ptr of [] \<Rightarrow> Inl OutOfBounds | c # _ \<Rightarrow> Inr c)"

definition nextR :: "cptr \<Rightarrow> (u8 \<times> cptr) res" where
  "nextR ptr = (case ptr of [] \<Rightarrow> Inl OutOfBounds | c # p \<Rightarrow> Inr (c, p))"

lemma peekR_simps [simp, res_simps]: "peekR (c # p) = Inr c" "peekR [] = Inl OutOfBounds"
  by (simp_all add: peekR_def)

lemma nextR_simps [simp, res_simps]: "nextR (c # p) = Inr (c, p)" "nextR [] = Inl OutOfBounds"
  by (simp_all add: nextR_def)

lemma nextR_eq_Inr_iff: "nextR p = Inr (c, q) \<longleftrightarrow> p = c # q"
  by (cases p) auto

definition ifR :: "bool res \<Rightarrow> 'a res \<Rightarrow> 'a res \<Rightarrow> 'a res" where
  "ifR c a b = bindR c (\<lambda>c. if c then a else b)"

lemma ifR_simps [simp, res_simps]: "ifR (Inr True) a b = a" "ifR (Inr False) a b = b" "ifR (Inl e) a b = Inl e"
  by (simp_all add: ifR_def)

text \<open>The test \<open>strncmp(ptr, s, n) == 0\<close>.\<close>

definition starts :: "cptr \<Rightarrow> string \<Rightarrow> nat \<Rightarrow> bool res" where
  "starts ptr s n = bindR (strncmp ptr (cstr s) n) (\<lambda>d. Inr (d = 0))"

text \<open>\<open>memchr\<close> on the packet.\<close>

fun find_char :: "cptr \<Rightarrow> u8 \<Rightarrow> nat \<Rightarrow> cptr option res" where
  "find_char p c 0 = Inr None"
| "find_char [] c (Suc n) = Inl OutOfBounds"
| "find_char (d # p) c (Suc n) = (if d = c then Inr (Some (d # p)) else find_char p c n)"

section \<open>Addresses and sizes\<close>

definition parse_mem_format :: "cptr \<Rightarrow> (u64 \<times> u64) option res" where
  "parse_mem_format ptr =
    bindR (nextR ptr) (\<lambda>(c, ptr).
    let is_read = c \<noteq> ch CHR ''M'' in
    bindR (hexstr_to_int ptr 16 0) (\<lambda>(ptr, addr).
    bindR (nextR ptr) (\<lambda>(c, ptr).
    if c \<noteq> ch CHR '','' then Inr None
    else bindR (hexstr_to_int ptr 16 0) (\<lambda>(ptr, sz).
         bindR (peekR ptr) (\<lambda>c.
         if is_read then Inr (if c = 0 then Some (addr, sz) else None)
         else Inr (if c = 0 \<or> c = ch CHR '':'' then Some (addr, sz) else None))))))"

definition parse_breakpoint_format :: "cptr \<Rightarrow> (u64 \<times> u64) option res" where
  "parse_breakpoint_format ptr =
    bindR (nextR ptr) (\<lambda>(c, ptr). assertR (c = ch CHR ''Z'' \<or> c = ch CHR ''z'') (
    bindR (nextR ptr) (\<lambda>(c, ptr). assertR (ch CHR ''0'' \<le> c \<and> c \<le> ch CHR ''4'') (
    bindR (nextR ptr) (\<lambda>(c, ptr). assertR (c = ch CHR '','') (
    bindR (hexstr_to_int ptr 16 0) (\<lambda>(ptr, addr).
    bindR (nextR ptr) (\<lambda>(c, ptr).
    if c \<noteq> ch CHR '','' then Inr None
    else bindR (hexstr_to_int ptr 16 0) (\<lambda>(ptr, kind).
         Inr (if kind \<noteq> 1 \<and> kind \<noteq> 2 \<and> kind \<noteq> 4 \<and> kind \<noteq> 8 then None else Some (addr, kind)))))))))))"

section \<open>Thread identifiers\<close>

text \<open>The loops that count the characters up to a dot, and the hexadecimal digits.\<close>

fun skip_dot :: "cptr \<Rightarrow> nat \<Rightarrow> (cptr \<times> nat) res" where
  "skip_dot [] sz = Inl OutOfBounds"
| "skip_dot (c # p) sz = (if c = ch CHR ''.'' then Inr (p, sz) else skip_dot p (sz + 1))"

fun skip_hex :: "cptr \<Rightarrow> nat \<Rightarrow> (cptr \<times> nat) res" where
  "skip_hex [] sz = Inl OutOfBounds"
| "skip_hex (c # p) sz = (if hexchar_to_int c = -1 then Inr (c # p, sz) else skip_hex p (sz + 1))"

text \<open>An identifier of \<open>sz\<close> digits is stored over the bytes of the variable.\<close>

definition read_id :: "cptr \<Rightarrow> nat \<Rightarrow> u32 \<Rightarrow> u32 res" where
  "read_id ptr sz v =
    (if sz div 2 = 0 then bindR (peekR ptr) (\<lambda>c. Inr (word_of_int (hexchar_to_int c)))
     else bindR (hex2mem ptr (word_bytes 4 v) (sz div 2)) (\<lambda>(_, bytes). Inr (set_bytes v 0 bytes)))"

definition parse_thread_id :: "cptr \<Rightarrow> u32 \<Rightarrow> u32 \<Rightarrow> (cptr option \<times> u32 \<times> u32) res" where
  "parse_thread_id ptr proc_id thread_id =
    bindR (nextR ptr) (\<lambda>(c, ptr).
    if c \<noteq> ch CHR ''p'' then Inr (None, proc_id, thread_id)
    else ifR (starts ptr ''-1'' 3) (Inr (Some (drop 2 ptr), -1, thread_id))
      (bindR (skip_dot ptr 0) (\<lambda>(ptr_tmp, sz).
       bindR (read_id ptr sz proc_id) (\<lambda>proc_id.
       let ptr = ptr_tmp in
       ifR (starts ptr ''-1'' 3) (Inr (Some (drop 2 ptr), proc_id, -1))
         (bindR (skip_hex ptr 0) (\<lambda>(ptr_tmp, sz).
          bindR (read_id ptr sz thread_id) (\<lambda>thread_id.
          Inr (Some ptr_tmp, proc_id, thread_id))))))))"

section \<open>Searching the packet\<close>

text \<open>\<open>find_char\<close> is \<open>memchr\<close> on a memory that holds the packet.\<close>

lemma find_char_shrinks: "find_char p c n = Inr (Some q) \<Longrightarrow> length q \<le> length p"
  by (induction p c n rule: find_char.induct) (auto split: if_splits)

lemma find_char_find:
  assumes "find_char p c n = Inr r" and "\<And>i. i < length p \<Longrightarrow> f i = p ! i"
  shows "List.find (\<lambda>i. f i = c) [0..<n] = map_option (\<lambda>q. length p - length q) r"
  using assms
proof (induction p c n arbitrary: f rule: find_char.induct)
  case (3 d p c n)
  have f0: "f 0 = d"
    using "3.prems"(2) [of 0] by simp
  show ?case
  proof (cases "d = c")
    case True
    with f0 "3.prems"(1) show ?thesis
      by (auto simp: find_upt_Suc simp del: upt_Suc)
  next
    case False
    then have run: "find_char p c n = Inr r"
      using "3.prems"(1) by simp
    have "f (Suc i) = p ! i" if "i < length p" for i
      using "3.prems"(2) [of "Suc i"] that by simp
    then have "List.find (\<lambda>i. f (Suc i) = c) [0..<n] = map_option (\<lambda>q. length p - length q) r"
      by (intro "3.IH" [OF False run]) simp
    with False f0 run show ?thesis
      by (cases r) (auto simp: find_upt_Suc comp_def Suc_diff_le dest: find_char_shrinks simp del: upt_Suc)
  qed
qed auto

lemma find_char_memchr:
  assumes "find_char p (ucast c) n = Inr r" and "n < 2 ^ 64" and "\<And>i. i < length p \<Longrightarrow> m (a + of_nat i) = p ! i"
  shows "memchr m a c (of_nat n) = map_option (\<lambda>q. a + of_nat (length p - length q)) r"
proof -
  have "unat (of_nat n :: u64) = n"
    using assms(2) by (simp add: unat_of_nat)
  moreover have "List.find (\<lambda>i. m (a + of_nat i) = ucast c) [0..<n] = map_option (\<lambda>q. length p - length q) r"
    using find_char_find [OF assms(1), of "\<lambda>i. m (a + of_nat i)"] assms(3) by blast
  ultimately show ?thesis
    by (simp add: memchr_find first_index_def option.map_comp comp_def)
qed

lemma find_char_skip: "c \<notin> set xs \<Longrightarrow> length xs < n \<Longrightarrow> find_char (xs @ c # p) c n = Inr (Some (c # p))"
proof (induction xs arbitrary: n)
  case Nil
  then show ?case
    by (cases n) auto
next
  case (Cons x xs)
  then show ?case
    by (cases n) auto
qed

section \<open>The parsers move forward\<close>

lemma skip_dot_length: "skip_dot p n = Inr (q, m) \<Longrightarrow> length q < length p"
  by (induction p n rule: skip_dot.induct) (auto split: if_splits)

lemma skip_hex_length: "skip_hex p n = Inr (q, m) \<Longrightarrow> length q \<le> length p"
  by (induction p n rule: skip_hex.induct) (auto split: if_splits)

lemma ifR_eq_Inr_iff: "ifR c a b = Inr r \<longleftrightarrow> c = Inr True \<and> a = Inr r \<or> c = Inr False \<and> b = Inr r"
  by (cases c) (auto simp: ifR_def)

lemma parse_thread_id_length:
  assumes "parse_thread_id ptr g h = Inr (Some q, g', h')"
  shows "length q < length ptr"
proof -
  obtain c p where ptr: "ptr = c # p"
    using assms by (cases ptr) (auto simp: parse_thread_id_def)
  show ?thesis
    using assms unfolding parse_thread_id_def ptr
    by (auto simp: ifR_eq_Inr_iff bindR_eq_Inr_iff Let_def split: if_splits
        dest!: skip_dot_length skip_hex_length)
qed

section \<open>Operands of memory packets\<close>

lemma hexstr_to_int_any:
  assumes "0 \<in> set p"
  obtains q v where "hexstr_to_int p 16 0 = Inr (q, v)" and "0 \<in> set q"
proof -
  let ?n = "min 16 (length (takeWhile is_hex p))"
  have "0 \<notin> set (take ?n p)"
  proof
    assume "0 \<in> set (take ?n p)"
    then have "0 \<in> set (takeWhile is_hex p)"
      by (metis in_set_takeD set_take_subset_set_take min.cobounded2 subsetD takeWhile_eq_take)
    then show False
      using is_hex_nonzero [of 0] by (auto dest: set_takeWhileD)
  qed
  moreover have "p = take ?n p @ drop ?n p"
    by simp
  ultimately have "0 \<in> set (drop ?n p)"
    using assms by (metis Un_iff set_append)
  with hexstr_to_int_spec [OF assms, of 16 0] that show thesis
    by blast
qed

text \<open>No memory packet makes the parser leave the packet.\<close>

lemma parse_mem_total:
  assumes "0 \<in> set p"
  shows "\<exists>r. parse_mem_format (c # p) = Inr r"
proof -
  obtain q v where 1: "hexstr_to_int p 16 0 = Inr (q, v)" "0 \<in> set q"
    using assms by (rule hexstr_to_int_any)
  obtain d q' where q: "q = d # q'"
    using 1(2) by (cases q) auto
  show ?thesis
  proof (cases "d = ch CHR '',''")
    case True
    with 1(2) q have "0 \<in> set q'"
      by auto
    then obtain r w where 2: "hexstr_to_int q' 16 0 = Inr (r, w)" "0 \<in> set r"
      by (rule hexstr_to_int_any)
    then show ?thesis
      using 1 q True by (cases r) (auto simp: parse_mem_format_def Let_def)
  qed (use 1 q in \<open>simp add: parse_mem_format_def Let_def\<close>)
qed

lemma parse_mem_text:
  assumes "list_all is_hex ds" "length ds \<le> 16" "list_all is_hex es" "length es \<le> 16"
    and "0 \<in> set t" "\<not> is_hex (hd t)"
  obtains a n where "parse_mem_format (c # ds @ ch CHR '','' # es @ t) =
      Inr (if hd t = 0 \<or> c = ch CHR ''M'' \<and> hd t = ch CHR '':'' then Some (a, n) else None)"
    and "unat a = hex_number ds" and "unat n = hex_number es"
proof -
  have "\<not> is_hex (ch CHR '','')"
    by (simp add: is_hex_def hexchar_to_int_def)
  then obtain a where a: "hexstr_to_int (ds @ ch CHR '','' # es @ t) 16 0 = Inr (ch CHR '','' # es @ t, a)"
    "unat a = hex_number ds"
    using hexstr_digits [OF assms(1,2), of "ch CHR '','' # es @ t"] assms(5) by auto
  obtain n where n: "hexstr_to_int (es @ t) 16 0 = Inr (t, n)" "unat n = hex_number es"
    using hexstr_digits [OF assms(3,4,5,6)] by blast
  obtain x t' where t: "t = x # t'"
    using assms(5) by (cases t) auto
  show thesis
    using that [of a n] a n by (simp add: parse_mem_format_def t Let_def)
qed

section \<open>Thread identifiers\<close>

lemma starts_other: "c \<noteq> of_char d \<Longrightarrow> starts (c # p) (d # s) (Suc n) = Inr False"
  by (auto simp: starts_def cstr_def word_uint_eq_iff)

lemma is_hex_not: "is_hex c \<Longrightarrow> c \<noteq> ch CHR ''-'' \<and> c \<noteq> ch CHR ''.'' \<and> c \<noteq> 0 \<and> c \<noteq> ch CHR '':'' \<and> c \<noteq> ch CHR '';''"
  by (auto simp: is_hex_def hexchar_to_int_def)

lemma skip_dot_skip: "ch CHR ''.'' \<notin> set xs \<Longrightarrow> skip_dot (xs @ ch CHR ''.'' # p) n = Inr (p, n + length xs)"
  by (induction xs arbitrary: n) auto

lemma skip_hex_skip: "list_all is_hex xs \<Longrightarrow> t \<noteq> [] \<Longrightarrow> \<not> is_hex (hd t) \<Longrightarrow> skip_hex (xs @ t) n = Inr (t, n + length xs)"
  by (induction xs arbitrary: n) (auto simp: is_hex_def neq_Nil_conv)

text \<open>The value of an identifier of one or two digits: one digit sets the variable, two digits
  set its lowest byte.\<close>

definition id_value :: "u8 list \<Rightarrow> u32 \<Rightarrow> u32" where
  "id_value ds v = (case ds of [d] \<Rightarrow> word_of_int (hexchar_to_int d) | [d, e] \<Rightarrow> set_byte v 0 (hex_byte d e) | _ \<Rightarrow> v)"

lemma word_bytes_4: "word_bytes 4 v = [get_byte v 0, get_byte v 1, get_byte v 2, get_byte v 3]"
  by (simp add: word_bytes_def upt_rec numeral_eq_Suc)

lemma set_get_byte: "8 * i + 8 \<le> LENGTH('a) \<Longrightarrow> set_byte (w :: 'a::len word) i (get_byte w i) = w"
  by (rule bit_word_eqI) (auto simp: bit_set_byte bit_get_byte)

lemma set_byte_other: "8 * i + 8 \<le> LENGTH('a) \<Longrightarrow> 8 * j + 8 \<le> LENGTH('a) \<Longrightarrow> i \<noteq> j \<Longrightarrow>
    set_byte (set_byte (w :: 'a::len word) j b) i (get_byte w i) = set_byte w j b"
  using set_get_byte [of i "set_byte w j b"] by (simp add: get_set_byte)

lemma read_id_digits:
  assumes "length ds = 1 \<or> length ds = 2"
  shows "read_id (ds @ p) (length ds) v = Inr (id_value ds v)"
proof -
  consider d where "ds = [d]" | d e where "ds = [d, e]"
    using assms by (auto simp: length_Suc_conv numeral_2_eq_2)
  then show ?thesis
  proof cases
    case 2
    have "read_id (ds @ p) (length ds) v =
        Inr (set_bytes v 0 [hex_byte d e, get_byte v 1, get_byte v 2, get_byte v 3])"
      using hex2mem_decode [of 1 "word_bytes 4 v" "ds @ p"] by (simp add: read_id_def 2 word_bytes_4)
    then show ?thesis
      by (simp add: id_value_def 2 set_byte_other numeral_eq_Suc)
  qed (simp add: read_id_def id_value_def)
qed

lemma parse_thread_id_text:
  assumes "list_all is_hex ds" "length ds = 1 \<or> length ds = 2" "list_all is_hex es" "length es = 1 \<or> length es = 2"
    and "t \<noteq> []" "\<not> is_hex (hd t)"
  shows "parse_thread_id (ch CHR ''p'' # ds @ ch CHR ''.'' # es @ t) g h =
    Inr (Some t, id_value ds g, id_value es h)"
proof -
  have no_dash: "starts (xs @ p) ''-1'' 3 = Inr False" if hx: "list_all is_hex xs" "length xs = 1 \<or> length xs = 2" for xs p
  proof -
    obtain x xs' where xs: "xs = x # xs'"
      using hx(2) by (cases xs) auto
    with hx(1) have "x \<noteq> ch CHR ''-''"
      using is_hex_not [of x] by simp
    then show ?thesis
      using starts_other [of x "CHR ''-''" _ _ 2] by (simp add: xs numeral_3_eq_3 numeral_2_eq_2)
  qed
  have "ch CHR ''.'' \<notin> set ds"
    using assms(1) is_hex_not by (auto simp: list_all_iff)
  then have dot: "skip_dot (ds @ ch CHR ''.'' # es @ t) 0 = Inr (es @ t, length ds)"
    using skip_dot_skip [of ds "es @ t" 0] by simp
  have hex: "skip_hex (es @ t) 0 = Inr (t, length es)"
    using skip_hex_skip [OF assms(3,5,6), of 0] by simp
  show ?thesis
    unfolding parse_thread_id_def nextR_simps bindR_Inr prod.case
    by (simp only: no_dash [OF assms(1,2)] no_dash [OF assms(3,4)] dot hex read_id_digits [OF assms(2)]
        read_id_digits [OF assms(4)] ifR_simps bindR_Inr prod.case Let_def if_False simp_thms)
qed

lemma hex_encode_1: "hex_encode [b] = [hex_hi b, hex_lo b]"
  by simp

lemma parse_id_text:
  assumes "t \<noteq> []" and "\<not> is_hex (hd t)"
  shows "parse_thread_id (id_text x y @ t) g h =
    Inr (Some t, set_byte g 0 (ucast x), set_byte h 0 (ucast y))"
  using parse_thread_id_text [of "hex_encode [ucast x]" "hex_encode [ucast y]" t g h] assms
  by (simp add: id_text_def id_value_def hex.hi_digit hex.lo_digit hex_byte_digits)

lemma unat_set_low_byte: "unat (set_byte (g :: u32) 0 b) = unat b + 256 * (unat g div 256)"
proof -
  let ?w = "set_byte g 0 b"
  have "drop_bit 8 ?w = drop_bit 8 g"
    by (rule bit_word_eqI) (simp add: bit_drop_bit_eq bit_set_byte)
  then have "?w div 256 = g div 256"
    by (simp add: drop_bit_eq_div)
  then have hi: "unat ?w div 256 = unat g div 256"
    using unat_div_distrib [of ?w 256] unat_div_distrib [of g 256] by simp
  have "(ucast ?w :: u8) = b"
    using get_set_byte [of 0 g b 0] by (simp add: get_byte_def)
  moreover have "unat (ucast ?w :: u8) = unat ?w mod 256"
    by (simp add: unsigned_ucast_eq take_bit_eq_mod)
  ultimately have "unat ?w mod 256 = unat b"
    by simp
  with hi show ?thesis
    using mult_div_mod_eq [of 256 "unat ?w"] by simp
qed

lemma unat_ucast_16_8: "uint (x :: u16) < 256 \<Longrightarrow> unat (ucast x :: u8) = unat x"
proof -
  assume "uint x < 256"
  then have "unat x < 256"
    unfolding unat_eq_nat_uint by linarith
  then show ?thesis
    by (simp add: unsigned_ucast_eq take_bit_eq_mod)
qed

section \<open>Properties\<close>

text \<open>The operands of a memory packet are parsed exactly: an address and a size of up to
  sixteen digits each, with a comma between them, followed by the end of the packet, or by a
  colon in a packet that writes. Any other end is rejected, and no terminated packet makes the
  parser leave the packet.\<close>

lemma memory_operands_exact:
  assumes "list_all is_hex ds" "length ds \<le> 16" "list_all is_hex es" "length es \<le> 16"
    and "0 \<in> set t" "\<not> is_hex (hd t)" "0 \<in> set p"
  shows "(\<exists>a n. parse_mem_format (c # ds @ ch CHR '','' # es @ t) =
        Inr (if hd t = 0 \<or> c = ch CHR ''M'' \<and> hd t = ch CHR '':'' then Some (a, n) else None) \<and>
      unat a = hex_number ds \<and> unat n = hex_number es) \<and>
    (\<exists>r. parse_mem_format (c # p) = Inr r)"
  using parse_mem_text [OF assms(1-6), of c] parse_mem_total [OF assms(7), of c] by blast

text \<open>C22: A thread identifier as the library writes it is parsed back, up to the three high
  bytes of the variables it is stored in: the parser writes one byte per two digits, so the
  identifiers are right exactly when the variables were zero there before the call.\<close>

theorem thread_id_read_back:
  assumes "t \<noteq> []" and "\<not> is_hex (hd t)" and "uint x < 256" and "uint y < 256"
  shows "\<exists>v w. parse_thread_id (id_text x y @ t) g h = Inr (Some t, v, w) \<and>
    unat v = unat x + 256 * (unat g div 256) \<and> unat w = unat y + 256 * (unat h div 256)"
proof -
  have low: "unat (ucast x :: u8) = unat x" "unat (ucast y :: u8) = unat y"
    using assms(3,4) unat_ucast_16_8 by simp_all
  have "unat (set_byte g 0 (ucast x)) = unat x + 256 * (unat g div 256)"
    "unat (set_byte h 0 (ucast y)) = unat y + 256 * (unat h div 256)"
    by (simp_all only: unat_set_low_byte low)
  with parse_id_text [OF assms(1,2), of x y g h] show ?thesis
    by blast
qed

theorem thread_id_read_back_witness:
  "\<exists>v w. parse_thread_id (id_text 1 2 @ cstr '';'') 0 0xffffff00 = Inr (Some (cstr '';''), v, w) \<and>
     unat v = unat (1 :: u16) + 256 * (unat (0 :: u32) div 256) \<and>
     unat w = unat (2 :: u16) + 256 * (unat (0xffffff00 :: u32) div 256)"
  by (rule thread_id_read_back) (simp_all add: cstr_def is_hex_def hexchar_to_int_def)

end
