(* ===== verification/Gdb_Out.thy ===== *)
theory Gdb_Out
  imports Gdb_Util
begin

unbundle bit_operations_syntax

text \<open>
  The lower half of \<open>src/printf.c\<close>. An output function takes a character, its position
  and the limit, and changes a sink; the buffer of \<open>snprintf\<close>, the character device of
  \<open>printf\<close> and the null output are sinks. The conversion of integers goes through a small
  array that is filled backwards. Next to every conversion stands the text it outputs, with no
  sink and no position.
\<close>

section \<open>Flags\<close>

definition PRINTF_NTOA_BUFFER_SIZE :: nat where
  "PRINTF_NTOA_BUFFER_SIZE = 32"

definition FLAGS_ZEROPAD :: u32 where "FLAGS_ZEROPAD = 1"
definition FLAGS_LEFT :: u32 where "FLAGS_LEFT = 2"
definition FLAGS_PLUS :: u32 where "FLAGS_PLUS = 4"
definition FLAGS_SPACE :: u32 where "FLAGS_SPACE = 8"
definition FLAGS_HASH :: u32 where "FLAGS_HASH = 16"
definition FLAGS_UPPERCASE :: u32 where "FLAGS_UPPERCASE = 32"
definition FLAGS_CHAR :: u32 where "FLAGS_CHAR = 64"
definition FLAGS_SHORT :: u32 where "FLAGS_SHORT = 128"
definition FLAGS_LONG :: u32 where "FLAGS_LONG = 256"
definition FLAGS_LONG_LONG :: u32 where "FLAGS_LONG_LONG = 512"
definition FLAGS_PRECISION :: u32 where "FLAGS_PRECISION = 1024"
definition FLAGS_ADAPT_EXP :: u32 where "FLAGS_ADAPT_EXP = 2048"

definition has :: "u32 \<Rightarrow> u32 \<Rightarrow> bool" where
  "has flags f \<longleftrightarrow> flags AND f \<noteq> 0"

section \<open>Output functions\<close>

type_synonym 's out = "u8 \<Rightarrow> nat \<Rightarrow> nat \<Rightarrow> 's \<Rightarrow> 's res"

definition out_buffer :: "u8 list out" where
  "out_buffer character idx maxlen buffer = (if idx < maxlen then put buffer idx character else Inr buffer)"

definition out_null :: "'s out" where
  "out_null character idx maxlen s = Inr s"

text \<open>The characters that \<open>_putchar\<close> gets, and an arbitrary function for them.\<close>

definition out_char :: "u8 list out" where
  "out_char character idx maxlen chars = Inr (if character \<noteq> 0 then chars @ [character] else chars)"

definition out_fct :: "(u8 \<Rightarrow> 's \<Rightarrow> 's res) \<Rightarrow> 's out" where
  "out_fct fct character idx maxlen s = (if character \<noteq> 0 then fct character s else Inr s)"

text \<open>A run of calls \<open>out(c, buffer, idx++, maxlen)\<close>.\<close>

fun out_all :: "'s out \<Rightarrow> u8 list \<Rightarrow> nat \<Rightarrow> nat \<Rightarrow> 's \<Rightarrow> (nat \<times> 's) res" where
  "out_all out [] idx maxlen s = Inr (idx, s)"
| "out_all out (c # cs) idx maxlen s = bindR (out c idx maxlen s) (out_all out cs (idx + 1) maxlen)"

section \<open>Integers\<close>

text \<open>
  The conversion buffer is the list of the characters in it, the first one written first; a
  character that is dropped again and overwritten leaves the list.
\<close>

definition out_rev :: "'s out \<Rightarrow> nat \<Rightarrow> nat \<Rightarrow> u8 list \<Rightarrow> u32 \<Rightarrow> u32 \<Rightarrow> 's \<Rightarrow> (nat \<times> 's) res" where
  "out_rev out idx maxlen buf width flags s =
    (let start_idx = idx in
     bindR (if \<not> has flags FLAGS_LEFT \<and> \<not> has flags FLAGS_ZEROPAD
            then out_all out (replicate (unat width - length buf) (ch CHR '' '')) idx maxlen s
            else Inr (idx, s)) (\<lambda>(idx, s).
     bindR (out_all out (rev buf) idx maxlen s) (\<lambda>(idx, s).
     if has flags FLAGS_LEFT
     then out_all out (replicate (unat width - (idx - start_idx)) (ch CHR '' '')) idx maxlen s
     else Inr (idx, s))))"

definition push_char :: "u8 \<Rightarrow> u8 list \<Rightarrow> u8 list" where
  "push_char c buf = (if length buf < PRINTF_NTOA_BUFFER_SIZE then buf @ [c] else buf)"

definition pad_zeros :: "u32 \<Rightarrow> u8 list \<Rightarrow> u8 list" where
  "pad_zeros n buf = buf @ replicate (min (unat n) PRINTF_NTOA_BUFFER_SIZE - length buf) (ch CHR ''0'')"

definition ntoa_pad :: "u8 list \<Rightarrow> bool \<Rightarrow> u32 \<Rightarrow> u32 \<Rightarrow> u32 \<Rightarrow> u8 list \<times> u32" where
  "ntoa_pad buf negative prec width flags =
    (if has flags FLAGS_LEFT then (buf, width)
     else (let width = (if width \<noteq> 0 \<and> has flags FLAGS_ZEROPAD \<and>
                           (negative \<or> has flags (FLAGS_PLUS OR FLAGS_SPACE)) then width - 1 else width);
               buf = pad_zeros prec buf;
               buf = (if has flags FLAGS_ZEROPAD then pad_zeros width buf else buf)
           in (buf, width)))"

definition ntoa_hash :: "u8 list \<Rightarrow> u32 \<Rightarrow> u32 \<Rightarrow> u32 \<Rightarrow> u32 \<Rightarrow> u8 list" where
  "ntoa_hash buf base prec width flags =
    (if has flags FLAGS_HASH
     then (let buf = (if \<not> has flags FLAGS_PRECISION \<and> buf \<noteq> [] \<and>
                         (length buf = unat prec \<or> length buf = unat width)
                      then (let buf = butlast buf in if buf \<noteq> [] \<and> base = 16 then butlast buf else buf)
                      else buf);
               buf = (if base = 16 \<and> \<not> has flags FLAGS_UPPERCASE \<and> length buf < PRINTF_NTOA_BUFFER_SIZE
                      then buf @ [ch CHR ''x'']
                      else if base = 16 \<and> has flags FLAGS_UPPERCASE \<and> length buf < PRINTF_NTOA_BUFFER_SIZE
                      then buf @ [ch CHR ''X'']
                      else if base = 2 \<and> length buf < PRINTF_NTOA_BUFFER_SIZE then buf @ [ch CHR ''b''] else buf)
           in push_char (ch CHR ''0'') buf)
     else buf)"

definition ntoa_sign :: "u8 list \<Rightarrow> bool \<Rightarrow> u32 \<Rightarrow> u8 list" where
  "ntoa_sign buf negative flags =
    (if length buf < PRINTF_NTOA_BUFFER_SIZE
     then (if negative then buf @ [ch CHR ''-'']
           else if has flags FLAGS_PLUS then buf @ [ch CHR ''+'']
           else if has flags FLAGS_SPACE then buf @ [ch CHR '' ''] else buf)
     else buf)"

definition ntoa_format ::
  "'s out \<Rightarrow> nat \<Rightarrow> nat \<Rightarrow> u8 list \<Rightarrow> bool \<Rightarrow> u32 \<Rightarrow> u32 \<Rightarrow> u32 \<Rightarrow> u32 \<Rightarrow> 's \<Rightarrow> (nat \<times> 's) res" where
  "ntoa_format out idx maxlen buf negative base prec width flags s =
    (let (buf, width) = ntoa_pad buf negative prec width flags
     in out_rev out idx maxlen (ntoa_sign (ntoa_hash buf base prec width flags) negative flags) width flags s)"

definition digit_char :: "bool \<Rightarrow> u64 \<Rightarrow> u8" where
  "digit_char upper d =
    (if d < 10 then ch CHR ''0'' + ucast d
     else (if upper then ch CHR ''A'' else ch CHR ''a'') + ucast d - 10)"

function ntoa_digits :: "bool \<Rightarrow> u64 \<Rightarrow> u64 \<Rightarrow> u8 list \<Rightarrow> u8 list" where
  "ntoa_digits upper base value buf =
    (let buf = buf @ [digit_char upper (value mod base)]; value = value div base
     in if value \<noteq> 0 \<and> length buf < PRINTF_NTOA_BUFFER_SIZE
        then ntoa_digits upper base value buf else buf)"
  by pat_completeness auto
termination
  by (relation "measure (\<lambda>(upper, base, value, buf). PRINTF_NTOA_BUFFER_SIZE - length buf)") auto

declare ntoa_digits.simps [simp del]

definition ntoa_long ::
  "'s out \<Rightarrow> nat \<Rightarrow> nat \<Rightarrow> u64 \<Rightarrow> bool \<Rightarrow> u64 \<Rightarrow> u32 \<Rightarrow> u32 \<Rightarrow> u32 \<Rightarrow> 's \<Rightarrow> (nat \<times> 's) res" where
  "ntoa_long out idx maxlen value negative base prec width flags s =
    (let flags = (if value = 0 then flags AND NOT FLAGS_HASH else flags);
         buf = (if \<not> has flags FLAGS_PRECISION \<or> value \<noteq> 0
                then ntoa_digits (has flags FLAGS_UPPERCASE) base value [] else [])
     in ntoa_format out idx maxlen buf negative (ucast base) prec width flags s)"

definition ntoa_long_long ::
  "'s out \<Rightarrow> nat \<Rightarrow> nat \<Rightarrow> u64 \<Rightarrow> bool \<Rightarrow> u64 \<Rightarrow> u32 \<Rightarrow> u32 \<Rightarrow> u32 \<Rightarrow> 's \<Rightarrow> (nat \<times> 's) res" where
  "ntoa_long_long out idx maxlen value negative base prec width flags s =
    (let flags = (if value = 0 then flags AND NOT FLAGS_HASH else flags);
         buf = (if \<not> has flags FLAGS_PRECISION \<or> value \<noteq> 0
                then ntoa_digits (has flags FLAGS_UPPERCASE) base value [] else [])
     in ntoa_format out idx maxlen buf negative (ucast base) prec width flags s)"

section \<open>The text of an integer\<close>

definition rev_text :: "u8 list \<Rightarrow> u32 \<Rightarrow> u32 \<Rightarrow> u8 list" where
  "rev_text buf width flags =
    (if has flags FLAGS_LEFT then rev buf @ replicate (unat width - length buf) (ch CHR '' '')
     else if has flags FLAGS_ZEROPAD then rev buf
     else replicate (unat width - length buf) (ch CHR '' '') @ rev buf)"

definition ntoa_text :: "u64 \<Rightarrow> bool \<Rightarrow> u64 \<Rightarrow> u32 \<Rightarrow> u32 \<Rightarrow> u32 \<Rightarrow> u8 list" where
  "ntoa_text value negative base prec width flags =
    (let flags = (if value = 0 then flags AND NOT FLAGS_HASH else flags);
         buf = (if \<not> has flags FLAGS_PRECISION \<or> value \<noteq> 0
                then ntoa_digits (has flags FLAGS_UPPERCASE) base value [] else []);
         (buf, width) = ntoa_pad buf negative prec width flags
     in rev_text (ntoa_sign (ntoa_hash buf (ucast base) prec width flags) negative flags) width flags)"

lemma out_all_append: "out_all out (cs @ ds) idx maxlen s =
    bindR (out_all out cs idx maxlen s) (\<lambda>(idx', s'). out_all out ds idx' maxlen s')"
  by (induction cs arbitrary: idx s) (auto simp: bindR_assoc intro: bindR_cong)

lemma out_all_idx: "out_all out cs idx maxlen s = Inr (idx', s') \<Longrightarrow> idx' = idx + length cs"
proof (induction cs arbitrary: idx s)
  case (Cons c cs)
  then obtain s1 where "out_all out cs (idx + 1) maxlen s1 = Inr (idx', s')"
    by (auto simp: bindR_eq_Inr_iff)
  from Cons.IH [OF this] show ?case
    by simp
qed simp

lemma out_rev_text: "out_rev out idx maxlen buf width flags s = out_all out (rev_text buf width flags) idx maxlen s"
proof -
  have "bindR (out_all out (rev buf) idx maxlen s) (\<lambda>(i, s). out_all out (replicate (unat width - (i - idx)) c) i maxlen s) =
      out_all out (rev buf @ replicate (unat width - length buf) c) idx maxlen s" for c
    unfolding out_all_append
    by (cases "out_all out (rev buf) idx maxlen s") (auto dest: out_all_idx)
  moreover have "bindR m (\<lambda>(i, s). Inr (i, s)) = m" for m :: "(nat \<times> 'a) res"
    by (cases m) auto
  ultimately show ?thesis
    by (auto simp: out_rev_def rev_text_def out_all_append Let_def)
qed

lemma ntoa_format_text:
  "ntoa_format out idx maxlen buf negative base prec width flags s =
     out_all out (case ntoa_pad buf negative prec width flags of (buf, width) \<Rightarrow>
       rev_text (ntoa_sign (ntoa_hash buf base prec width flags) negative flags) width flags) idx maxlen s"
  by (simp add: ntoa_format_def out_rev_text split_def Let_def)

lemma ntoa_long_text:
  "ntoa_long out idx maxlen v negative base prec width flags s =
     out_all out (ntoa_text v negative base prec width flags) idx maxlen s"
  "ntoa_long_long out idx maxlen v negative base prec width flags s =
     out_all out (ntoa_text v negative base prec width flags) idx maxlen s"
  by (simp_all add: ntoa_long_def ntoa_long_long_def ntoa_text_def ntoa_format_text Let_def)

end
