(* ===== verification/Gdb_Double.thy ===== *)
theory Gdb_Double
  imports Complex_Main Gdb_Prelude "HOL-Library.Log_Nat"
begin

unbundle bit_operations_syntax

text \<open>
  The type \<open>double\<close> of the target, IEEE 754 binary64 with rounding to nearest, ties to even:
  the bits of a number, its value as a rational, the double nearest to a rational, and the
  operations of C on them. Every operation is rounded on its own; a compiler that contracts a
  product and a sum into one operation computes something else.
\<close>

section \<open>Bits and values\<close>

type_synonym double = u64

definition sign_bit :: double where
  "sign_bit = push_bit 63 1"

definition negative :: "double \<Rightarrow> bool" where
  "negative d \<longleftrightarrow> bit d 63"

definition exponent_bits :: "double \<Rightarrow> int" where
  "exponent_bits d = uint (drop_bit 52 d AND 0x7FF)"

definition fraction_bits :: "double \<Rightarrow> int" where
  "fraction_bits d = uint (d AND 0xFFFFFFFFFFFFF)"

definition is_nan :: "double \<Rightarrow> bool" where
  "is_nan d \<longleftrightarrow> exponent_bits d = 0x7FF \<and> fraction_bits d \<noteq> 0"

definition is_inf :: "double \<Rightarrow> bool" where
  "is_inf d \<longleftrightarrow> exponent_bits d = 0x7FF \<and> fraction_bits d = 0"

definition is_finite :: "double \<Rightarrow> bool" where
  "is_finite d \<longleftrightarrow> exponent_bits d < 0x7FF"

definition two_to :: "int \<Rightarrow> rat" where
  "two_to e = (if 0 \<le> e then of_int (2 ^ nat e) else 1 / of_int (2 ^ nat (- e)))"

text \<open>An infinity counts as the power of two after the largest double, so that comparisons
  can compare values.\<close>

definition val :: "double \<Rightarrow> rat" where
  "val d = (if negative d then - 1 else 1) *
     (if exponent_bits d = 0 then of_int (fraction_bits d) * two_to (- 1074)
      else of_int (2 ^ 52 + fraction_bits d) * two_to (exponent_bits d - 1075))"

lemma val_code [code]:
  "val d = (if exponent_bits d = 0 \<and> fraction_bits d = 0 then 0
     else (if negative d then - 1 else 1) *
       (if exponent_bits d = 0 then of_int (fraction_bits d) * two_to (- 1074)
        else of_int (2 ^ 52 + fraction_bits d) * two_to (exponent_bits d - 1075)))"
  by (simp add: val_def)

section \<open>Rounding\<close>

definition round_even :: "rat \<Rightarrow> int" where
  "round_even x =
    (let n = \<lfloor>x\<rfloor>; r = x - of_int n
     in if r < 1 / 2 \<or> r = 1 / 2 \<and> even n then n else n + 1)"

text \<open>The exponent of the largest power of two that is not above a positive rational.\<close>

definition binade :: "rat \<Rightarrow> int" where
  "binade x = (case quotient_of x of (n, d) \<Rightarrow>
     let k = bitlen n - bitlen d in if two_to k \<le> x then k else k - 1)"

text \<open>The exponent of the last bit of the doubles around a positive rational.\<close>

definition last_exp :: "rat \<Rightarrow> int" where
  "last_exp x = max (binade x - 52) (- 1074)"

definition to_double :: "bool \<Rightarrow> rat \<Rightarrow> double" where
  "to_double neg x =
    (if x = 0 then (if neg then sign_bit else 0)
     else (let m = \<bar>x\<bar>; e = last_exp m; n = round_even (m / two_to e);
               b = min ((e + 1074) * 2 ^ 52 + n) (0x7FF * 2 ^ 52)
           in word_of_int b OR (if x < 0 then sign_bit else 0)))"

section \<open>Operations\<close>

definition nan :: double where "nan = 0x7FF8000000000000"

definition infinity :: "bool \<Rightarrow> double" where
  "infinity neg = 0x7FF0000000000000 OR (if neg then sign_bit else 0)"

definition fneg :: "double \<Rightarrow> double" where
  "fneg d = d XOR sign_bit"

definition fadd :: "double \<Rightarrow> double \<Rightarrow> double" where
  "fadd a b =
    (if is_nan a \<or> is_nan b \<or> is_inf a \<and> is_inf b \<and> negative a \<noteq> negative b then nan
     else if is_inf a then a
     else if is_inf b then b
     else to_double (negative a \<and> negative b) (val a + val b))"

definition fsub :: "double \<Rightarrow> double \<Rightarrow> double" where
  "fsub a b = fadd a (fneg b)"

definition fmul :: "double \<Rightarrow> double \<Rightarrow> double" where
  "fmul a b =
    (if is_nan a \<or> is_nan b \<or> is_inf a \<and> val b = 0 \<or> val a = 0 \<and> is_inf b then nan
     else if is_inf a \<or> is_inf b then infinity (negative a \<noteq> negative b)
     else to_double (negative a \<noteq> negative b) (val a * val b))"

definition fdiv :: "double \<Rightarrow> double \<Rightarrow> double" where
  "fdiv a b =
    (if is_nan a \<or> is_nan b \<or> is_inf a \<and> is_inf b \<or> val a = 0 \<and> val b = 0 then nan
     else if is_inf a \<or> val b = 0 then infinity (negative a \<noteq> negative b)
     else if is_inf b then to_double (negative a \<noteq> negative b) 0
     else to_double (negative a \<noteq> negative b) (val a / val b))"

definition flt :: "double \<Rightarrow> double \<Rightarrow> bool" where
  "flt a b \<longleftrightarrow> \<not> is_nan a \<and> \<not> is_nan b \<and> val a < val b"

definition fge :: "double \<Rightarrow> double \<Rightarrow> bool" where
  "fge a b \<longleftrightarrow> \<not> is_nan a \<and> \<not> is_nan b \<and> val b \<le> val a"

text \<open>Conversions: an integer becomes the nearest double, a double loses its fraction and must
  fit the integer type.\<close>

definition of_integer :: "int \<Rightarrow> double" where
  "of_integer n = to_double False (of_int n)"

definition truncate :: "rat \<Rightarrow> int" where
  "truncate x = (if 0 \<le> x then \<lfloor>x\<rfloor> else \<lceil>x\<rceil>)"

definition to_int :: "double \<Rightarrow> int res" where
  "to_int d =
    (let n = truncate (val d)
     in if is_finite d \<and> - (2 ^ 31) \<le> n \<and> n < 2 ^ 31 then Inr n else Inl IntOverflow)"

definition to_ulong :: "double \<Rightarrow> u64 res" where
  "to_ulong d =
    (let n = truncate (val d)
     in if is_finite d \<and> 0 \<le> n \<and> n < 2 ^ 64 then Inr (word_of_int n) else Inl IntOverflow)"

text \<open>The double that a decimal constant denotes.\<close>

definition literal :: "rat \<Rightarrow> double" where
  "literal x = to_double False x"

section \<open>Powers of two\<close>

lemma two_to_powi: "two_to e = 2 powi e"
  by (simp add: two_to_def power_int_def inverse_eq_divide power_one_over)

lemma two_to_pos [simp]: "0 < two_to e"
  by (simp add: two_to_powi)

lemma two_to_nonneg [simp]: "0 \<le> two_to e"
  using two_to_pos [of e] by linarith

lemma two_to_nonzero [simp]: "two_to e \<noteq> 0"
  using two_to_pos [of e] by linarith

lemma two_to_add: "two_to (a + b) = two_to a * two_to b"
  by (simp add: two_to_powi power_int_add)

lemma two_to_diff: "two_to (a - b) = two_to a / two_to b"
  by (simp add: two_to_powi power_int_diff)

lemma two_to_0 [simp]: "two_to 0 = 1"
  by (simp add: two_to_def)

lemma two_to_nat: "two_to (int n) = 2 ^ n"
  by (simp add: two_to_def)

lemma two_to_numeral: "two_to (numeral n) = 2 ^ numeral n"
  by (simp add: two_to_def)

lemma two_to_mono: "a \<le> b \<Longrightarrow> two_to a \<le> two_to b"
  by (simp add: two_to_powi power_int_increasing)

lemma two_to_strict_mono: "a < b \<Longrightarrow> two_to a < two_to b"
  by (simp add: two_to_powi power_int_strict_increasing)

lemma two_to_less_imp: "two_to a < two_to b \<Longrightarrow> a < b"
  using two_to_mono [of b a] by linarith

lemma two_to_Suc: "two_to (1 + e) = 2 * two_to e"
  using two_to_add [of 1 e] by (simp add: two_to_def)

section \<open>The nearest integer\<close>

lemma round_even_error: "\<bar>of_int (round_even x) - x\<bar> \<le> 1 / 2"
proof -
  let ?r = "x - of_int \<lfloor>x\<rfloor>"
  have r: "0 \<le> ?r" "?r < 1"
    by linarith+
  have "round_even x = \<lfloor>x\<rfloor> \<and> ?r \<le> 1 / 2 \<or> round_even x = \<lfloor>x\<rfloor> + 1 \<and> 1 / 2 \<le> ?r"
    by (auto simp: round_even_def Let_def)
  with r show ?thesis
    by (elim disjE conjE; simp only: of_int_add of_int_1; linarith)
qed

lemma round_even_int [simp]: "round_even (of_int n) = n"
  by (simp add: round_even_def)

lemma round_even_mono_int:
  "of_int k \<le> x \<Longrightarrow> k \<le> round_even x" "x \<le> of_int k \<Longrightarrow> round_even x \<le> k"
proof -
  assume "of_int k \<le> x"
  then show "k \<le> round_even x"
    using le_floor_iff [of k x] by (simp add: round_even_def Let_def)
next
  assume x: "x \<le> of_int k"
  show "round_even x \<le> k"
  proof (cases "x = of_int k")
    case False
    with x have "\<lfloor>x\<rfloor> < k"
      by (simp add: floor_less_iff)
    then show ?thesis
      by (simp add: round_even_def Let_def)
  qed simp
qed

section \<open>Binades\<close>

lemma binade_bounds:
  assumes "0 < x"
  shows "two_to (binade x) \<le> x" "x < two_to (binade x + 1)"
proof -
  obtain n d where q: "quotient_of x = (n, d)"
    by (cases "quotient_of x")
  then have d: "0 < d" and x: "x = of_int n / of_int d"
    using quotient_of_denom_pos quotient_of_div by blast+
  with assms have n: "0 < n"
    by (simp add: zero_less_divide_iff)
  have pow: "two_to (bitlen m - 1) \<le> of_int m \<and> of_int m < two_to (bitlen m)" if "0 < m" for m :: int
  proof -
    from that have "0 < bitlen m"
      using bitlen_eq_zero_iff [of m] bitlen_nonneg [of m] by linarith
    then have "two_to (bitlen m - 1) = of_int (2 ^ nat (bitlen m - 1))" "two_to (bitlen m) = of_int (2 ^ nat (bitlen m))"
      by (simp_all add: two_to_def)
    with bitlen_bounds [OF that] show ?thesis
      by (simp only: of_int_le_iff of_int_less_iff)
  qed
  let ?k = "bitlen n - bitlen d"
  have "x < two_to (bitlen n) / two_to (bitlen d - 1)"
    unfolding x using pow [OF n] pow [OF d] d n
    by (intro frac_less) (auto simp: less_imp_le)
  also have "\<dots> = two_to (?k + 1)"
    by (simp add: two_to_diff two_to_add)
  finally have up: "x < two_to (?k + 1)" .
  have "two_to (?k - 1) = two_to (bitlen n - 1) / two_to (bitlen d)"
    by (simp add: two_to_diff)
  also have "\<dots> \<le> x"
    unfolding x using pow [OF n] pow [OF d] d n
    by (intro frac_le) (auto simp: less_imp_le)
  finally have low: "two_to (?k - 1) \<le> x" .
  show "two_to (binade x) \<le> x" "x < two_to (binade x + 1)"
    using up low by (auto simp: binade_def q Let_def)
qed

lemma binade_less: "0 < x \<Longrightarrow> x < two_to e \<Longrightarrow> binade x < e"
  using binade_bounds(1) [of x] two_to_less_imp [of "binade x" e] by linarith

section \<open>Rounded values\<close>

text \<open>The bits that \<open>to_double\<close> puts together have the value \<open>n * 2 ^ e\<close>.\<close>

lemma exponent_of_int: "0 \<le> b \<Longrightarrow> b < 2 ^ 63 \<Longrightarrow> exponent_bits (word_of_int b) = b div 2 ^ 52"
  unfolding exponent_bits_def
proof -
  assume b: "0 \<le> b" "b < 2 ^ 63"
  have "(0x7FF :: u64) = mask 11" by (simp add: mask_eq_exp_minus_1)
  then have "uint (drop_bit 52 (word_of_int b :: u64) AND 0x7FF) = uint (take_bit 11 (drop_bit 52 (word_of_int b :: u64)))"
    by (simp add: take_bit_eq_mask)
  also have "\<dots> = take_bit 11 (drop_bit 52 (take_bit 64 b))"
    by (simp add: unsigned_take_bit_eq unsigned_drop_bit_eq uint_word_of_int_eq )
  also have "\<dots> = (b div 2 ^ 52) mod 2 ^ 11" using b
    by (simp add: take_bit_eq_mod drop_bit_eq_div)
  also have "\<dots> = b div 2 ^ 52" using b by (intro mod_pos_pos_trivial) (auto simp: pos_imp_zdiv_nonneg_iff  intro: div_less_dividend)
  finally show "uint (drop_bit 52 (word_of_int b :: u64) AND 0x7FF) = b div 2 ^ 52" .
qed

lemma fraction_of_int: "0 \<le> b \<Longrightarrow> b < 2 ^ 63 \<Longrightarrow> fraction_bits (word_of_int b) = b mod 2 ^ 52"
proof -
  assume b: "0 \<le> b" "b < 2 ^ 63"
  have "(0xFFFFFFFFFFFFF :: u64) = mask 52" by (simp add: mask_eq_exp_minus_1)
  then have "uint ((word_of_int b :: u64) AND 0xFFFFFFFFFFFFF) = uint (take_bit 52 (word_of_int b :: u64))"
    by (simp add: take_bit_eq_mask)
  also have "\<dots> = take_bit 52 (take_bit 64 b)"
    by (simp add: unsigned_take_bit_eq uint_word_of_int_eq)
  also have "\<dots> = b mod 2 ^ 52" using b
    by (simp add: take_bit_eq_mod)
  finally show ?thesis by (simp add: fraction_bits_def)
qed
lemma sign_parts:
  "exponent_bits (d OR sign_bit) = exponent_bits d" "fraction_bits (d OR sign_bit) = fraction_bits d"
  "negative (d OR sign_bit)"
  "exponent_bits (fneg d) = exponent_bits d" "fraction_bits (fneg d) = fraction_bits d"
  "negative (fneg d) \<longleftrightarrow> \<not> negative d"
proof -
  have e: "drop_bit 52 sign_bit AND 0x7FF = 0" and f: "sign_bit AND 0xFFFFFFFFFFFFF = 0"
    by (simp_all add: sign_bit_def)
  show "exponent_bits (d OR sign_bit) = exponent_bits d"
    unfolding exponent_bits_def drop_bit_or bit.conj_disj_distrib2 e by simp
  show "fraction_bits (d OR sign_bit) = fraction_bits d"
    unfolding fraction_bits_def bit.conj_disj_distrib2 f by simp
  show "exponent_bits (fneg d) = exponent_bits d"
    unfolding exponent_bits_def fneg_def drop_bit_xor bit.conj_xor_distrib2 e by simp
  show "fraction_bits (fneg d) = fraction_bits d"
    unfolding fraction_bits_def fneg_def bit.conj_xor_distrib2 f by simp
  show "negative (d OR sign_bit)" "negative (fneg d) \<longleftrightarrow> \<not> negative d"
    by (simp_all only: negative_def fneg_def bit_or_iff bit_xor_iff sign_bit_def bit_push_bit_iff) simp_all
qed

lemma negative_of_int: "0 \<le> b \<Longrightarrow> b < 2 ^ 63 \<Longrightarrow> \<not> negative (word_of_int b)"
  using bit_iff_odd [of b 63] by (simp add: negative_def bit_word_of_int_iff)
lemma val_fneg [simp]: "val (fneg d) = - val d"
  by (simp add: val_def sign_parts)

lemma val_sign: "\<not> negative d \<Longrightarrow> val (d OR sign_bit) = - val d"
  by (simp only: val_def sign_parts if_True if_False mult_minus_left mult_1_left)

lemma is_finite_parts [simp]:
  "is_finite (d OR sign_bit) = is_finite d" "is_finite (fneg d) = is_finite d"
  by (simp_all only: is_finite_def sign_parts)

lemma val_bits:
  assumes "0 \<le> n" "n \<le> 2 ^ 53" "- 1074 \<le> e" "e \<le> 970 \<or> e = 971 \<and> n < 2 ^ 53" "e = - 1074 \<or> 2 ^ 52 \<le> n"
  shows "val (word_of_int ((e + 1074) * 2 ^ 52 + n)) = of_int n * two_to e"
    "is_finite (word_of_int ((e + 1074) * 2 ^ 52 + n))" "\<not> negative (word_of_int ((e + 1074) * 2 ^ 52 + n))"
proof -
  let ?b = "(e + 1074) * 2 ^ 52 + n"
  have b: "0 \<le> ?b" "?b < 2 ^ 63"
    using assms by (simp, auto)
  note parts = exponent_of_int [OF b] fraction_of_int [OF b] negative_of_int [OF b]
  have "?b div 2 ^ 52 < 0x7FF"
    using assms by (auto simp: less_eq_div_iff_mult_less_eq div_less_iff_less_mult)
  then show "is_finite (word_of_int ?b)" "\<not> negative (word_of_int ?b)"
    using parts by (simp_all add: is_finite_def)
  consider "n < 2 ^ 52" | "2 ^ 52 \<le> n" "n < 2 ^ 53" | "n = 2 ^ 53"
    using assms(2) by linarith
  then show "val (word_of_int ?b) = of_int n * two_to e"
  proof cases
    case 1
    with assms have "e = - 1074" "?b div 2 ^ 52 = 0" "?b mod 2 ^ 52 = n"
      by auto
    with parts show ?thesis
      by (simp add: val_def)
  next
    case 2
    have "?b = (e + 1075) * 2 ^ 52 + (n - 2 ^ 52)"
      by (simp add: algebra_simps)
    moreover from 2 have "(n - 2 ^ 52) div 2 ^ 52 = 0"
      by (intro div_pos_pos_trivial) simp_all
    moreover from 2 have "(n - 2 ^ 52) mod 2 ^ 52 = n - 2 ^ 52"
      by (intro mod_pos_pos_trivial) simp_all
    ultimately have "?b div 2 ^ 52 = e + 1075" "?b mod 2 ^ 52 = n - 2 ^ 52"
      by (simp_all only: div_mult_self3 mod_mult_self3) simp_all
    with parts assms(3) show ?thesis
      by (simp add: val_def)
  next
    case 3
    then have "?b = (e + 1076) * 2 ^ 52"
      by (simp add: algebra_simps)
    then have "?b div 2 ^ 52 = e + 1076" "?b mod 2 ^ 52 = 0"
      by (simp_all only: nonzero_mult_div_cancel_right mod_mult_self2_is_0) simp_all
    with parts assms(3) 3 two_to_Suc [of e] show ?thesis
      by (simp add: val_def)
  qed
qed

text \<open>Rounding a rational that is not above the largest double to a multiple of the last bit.\<close>

definition max_val :: rat where
  "max_val = (2 ^ 53 - 1) * two_to 971"

lemma max_val_less: "max_val < two_to 1024"
proof -
  have "two_to 1024 = 2 ^ 53 * two_to 971"
    using two_to_add [of 53 971] by (simp add: two_to_numeral)
  then show ?thesis
    by (simp add: max_val_def)
qed

lemma last_exp_bounds:
  assumes "0 < m" "m \<le> max_val"
  shows "- 1074 \<le> last_exp m" "last_exp m \<le> 971" "m / two_to (last_exp m) < 2 ^ 53"
    "last_exp m = - 1074 \<or> 2 ^ 52 \<le> m / two_to (last_exp m)"
proof -
  note b = binade_bounds [OF assms(1)]
  have "binade m < 1024"
    using assms max_val_less by (intro binade_less) simp_all
  then show "- 1074 \<le> last_exp m" "last_exp m \<le> 971"
    by (simp_all add: last_exp_def)
  have "binade m + 1 \<le> last_exp m + 53"
    by (simp add: last_exp_def)
  then have "m < two_to (last_exp m + 53)"
    using b(2) two_to_mono by (meson less_le_trans)
  then show "m / two_to (last_exp m) < 2 ^ 53"
    by (simp add: two_to_add two_to_numeral divide_less_eq mult.commute)
  show "last_exp m = - 1074 \<or> 2 ^ 52 \<le> m / two_to (last_exp m)"
  proof (cases "last_exp m = - 1074")
    case False
    then have "last_exp m + 52 = binade m"
      by (simp add: last_exp_def max_def split: if_splits)
    with b(1) have "two_to (last_exp m + 52) \<le> m"
      by simp
    then show ?thesis
      by (simp add: two_to_add two_to_numeral le_divide_eq mult.commute)
  qed simp
qed

definition rounded :: "rat \<Rightarrow> rat" where
  "rounded x = (if x = 0 then 0
     else sgn x * of_int (round_even (\<bar>x\<bar> / two_to (last_exp \<bar>x\<bar>))) * two_to (last_exp \<bar>x\<bar>))"

lemma rounded_0 [simp]: "rounded 0 = 0"
  by (simp add: rounded_def)

lemma rounded_minus: "rounded (- x) = - rounded x"
  by (simp add: rounded_def)

lemma rounded_sign: "0 \<le> x \<Longrightarrow> 0 \<le> rounded x" "x \<le> 0 \<Longrightarrow> rounded x \<le> 0"
proof -
  have pos: "0 \<le> rounded y" if "0 \<le> y" for y
    using that round_even_mono_int(1) [of 0 "y / two_to (last_exp y)"] by (simp add: rounded_def)
  show "0 \<le> x \<Longrightarrow> 0 \<le> rounded x"
    by (rule pos)
  show "x \<le> 0 \<Longrightarrow> rounded x \<le> 0"
    using pos [of "- x"] by (simp add: rounded_minus)
qed

lemma to_double_val:
  assumes "\<bar>x\<bar> \<le> max_val"
  shows "val (to_double neg x) = rounded x" "is_finite (to_double neg x)"
    "negative (to_double neg x) \<longleftrightarrow> x < 0 \<or> x = 0 \<and> neg"
proof -
  let ?m = "\<bar>x\<bar>"
  let ?e = "last_exp ?m"
  let ?n = "round_even (?m / two_to ?e)"
  let ?b = "if ?m = 0 then 0 else min ((?e + 1074) * 2 ^ 52 + ?n) (0x7FF * 2 ^ 52)"
  let ?d = "word_of_int ?b :: double"
  have "val ?d = \<bar>rounded x\<bar> \<and> is_finite ?d \<and> \<not> negative ?d"
  proof (cases "x = 0")
    case True
    then show ?thesis
      by (simp add: rounded_def val_def is_finite_def negative_def exponent_bits_def fraction_bits_def)
  next
    case False
    then have "0 < ?m"
      by simp
    note l = last_exp_bounds [OF this assms]
    have "?m / two_to ?e \<le> of_int (2 ^ 53)"
      using l(3) by simp
    note n53 = round_even_mono_int(2) [OF this]
    have "of_int 0 \<le> ?m / two_to ?e"
      by simp
    note n0 = round_even_mono_int(1) [OF this]
    have n52: "?e = - 1074 \<or> 2 ^ 52 \<le> ?n"
      using l(4) round_even_mono_int(1) [of "2 ^ 52" "?m / two_to ?e"] by auto
    have n971: "?n < 2 ^ 53" if "?e = 971"
    proof -
      have "?m / two_to ?e \<le> of_int (2 ^ 53 - 1)"
        using assms that by (simp add: max_val_def divide_le_eq)
      from round_even_mono_int(2) [OF this] show ?thesis
        by simp
    qed
    then have e971: "?e \<le> 970 \<or> ?e = 971 \<and> ?n < 2 ^ 53"
      using l(2) by linarith
    have "?b = (?e + 1074) * 2 ^ 52 + ?n"
      using False n53 e971 by (auto simp: min_def)
    with val_bits [OF n0 n53 l(1) e971 n52] False n0 show ?thesis
      by (simp add: rounded_def abs_mult)
  qed
  then obtain d where d: "d = ?d" "val d = \<bar>rounded x\<bar>" "is_finite d" "\<not> negative d"
    by blast
  have "to_double neg x = (if x < 0 \<or> x = 0 \<and> neg then d OR sign_bit else d)"
    by (simp add: to_double_def d(1) Let_def)
  with d rounded_sign [of x] show "val (to_double neg x) = rounded x" "is_finite (to_double neg x)"
    "negative (to_double neg x) \<longleftrightarrow> x < 0 \<or> x = 0 \<and> neg"
    by (auto simp: val_sign sign_parts)
qed

text \<open>How far rounding moves a number.\<close>

lemma rounded_error: "\<bar>rounded x - x\<bar> \<le> \<bar>x\<bar> * two_to (- 53) + two_to (- 1075)"
proof (cases "x = 0")
  case False
  let ?m = "\<bar>x\<bar>"
  let ?e = "last_exp ?m"
  have m: "0 < ?m"
    using False by simp
  have "of_int (round_even (?m / two_to ?e)) * two_to ?e - ?m =
      (of_int (round_even (?m / two_to ?e)) - ?m / two_to ?e) * two_to ?e"
    by (simp add: left_diff_distrib)
  also have "\<bar>\<dots>\<bar> \<le> 1 / 2 * two_to ?e"
    unfolding abs_mult by (rule mult_mono [OF round_even_error]) simp_all
  finally have "\<bar>of_int (round_even (?m / two_to ?e)) * two_to ?e - ?m\<bar> \<le> two_to ?e / 2"
    by simp
  moreover have "\<bar>rounded x - x\<bar> = \<bar>of_int (round_even (?m / two_to ?e)) * two_to ?e - ?m\<bar>"
    using False by (cases x "0 :: rat" rule: linorder_cases) (simp_all add: rounded_def abs_minus_commute)
  moreover have "two_to ?e / 2 \<le> ?m * two_to (- 53) + two_to (- 1075)"
  proof (cases "?e = - 1074")
    case True
    then have "two_to ?e / 2 = two_to (- 1075)"
      using two_to_Suc [of "- 1075"] by simp
    then show ?thesis
      by simp
  next
    case False
    then have "?e = binade ?m + - 52"
      by (simp add: last_exp_def max_def split: if_splits)
    then have "two_to ?e / 2 = two_to (binade ?m) * two_to (- 53)"
      using two_to_add [of "binade ?m" "- 52"] two_to_Suc [of "- 53"] by simp
    also have "\<dots> \<le> ?m * two_to (- 53)"
      using binade_bounds(1) [OF m] by (simp add: mult_right_mono)
    finally show ?thesis
      by (simp add: add_increasing2)
  qed
  ultimately show ?thesis
    by simp
qed simp

text \<open>A number with few bits is not moved at all.\<close>

lemma rounded_exact_less:
  assumes "\<bar>k\<bar> < 2 ^ 53" "- 1074 \<le> e"
  shows "rounded (of_int k * two_to e) = of_int k * two_to e"
proof (cases "k = 0")
  case False
  let ?m = "of_int \<bar>k\<bar> * two_to e"
  let ?e = "last_exp ?m"
  have m: "0 < ?m"
    using False by simp
  have "of_int \<bar>k\<bar> < (2 ^ 53 :: rat)"
    using assms(1) of_int_less_iff [of "\<bar>k\<bar>" "2 ^ 53", where 'a = rat] by simp
  then have "?m < 2 ^ 53 * two_to e"
    by simp
  also have "\<dots> = two_to (53 + e)"
    by (simp add: two_to_add two_to_numeral)
  finally have "binade ?m < 53 + e"
    by (rule binade_less [OF m])
  with assms(2) have e: "?e \<le> e"
    by (simp add: last_exp_def)
  have "?m / two_to ?e = of_int \<bar>k\<bar> * two_to (e - ?e)"
    by (simp add: two_to_diff)
  also have "\<dots> = of_int (\<bar>k\<bar> * 2 ^ nat (e - ?e))"
    using e by (simp add: two_to_def)
  finally have "of_int (round_even (?m / two_to ?e)) = ?m / two_to ?e"
    by (simp only: round_even_int)
  then show ?thesis
    using False by (auto simp: rounded_def abs_mult sgn_if zero_less_mult_iff abs_of_pos abs_of_neg not_less le_less)
qed simp

lemma rounded_exact:
  assumes "\<bar>k\<bar> \<le> 2 ^ 53" "- 1074 \<le> e"
  shows "rounded (of_int k * two_to e) = of_int k * two_to e"
proof (cases "\<bar>k\<bar> = 2 ^ 53")
  case True
  then obtain j :: int where j: "\<bar>j\<bar> < 2 ^ 53" "k = j * 2"
    by (cases "0 \<le> k") (auto simp: abs_if intro: that [of "2 ^ 52"] that [of "- (2 ^ 52)"])
  then have "of_int k * two_to e = of_int j * two_to (1 + e)"
    by (simp add: two_to_Suc)
  with rounded_exact_less [OF j(1), of "1 + e"] assms(2) show ?thesis
    by simp
qed (use rounded_exact_less assms in simp)

lemma rounded_int: "\<bar>k\<bar> \<le> 2 ^ 53 \<Longrightarrow> rounded (of_int k) = of_int k"
  using rounded_exact [of k 0] by simp

lemma field_bounds: "0 \<le> exponent_bits d" "exponent_bits d \<le> 0x7FF" "0 \<le> fraction_bits d" "fraction_bits d < 2 ^ 52"
proof -
  have m: "(0x7FF :: u64) = mask 11" "(0xFFFFFFFFFFFFF :: u64) = mask 52"
    by (simp_all add: mask_eq_exp_minus_1)
  have "exponent_bits d = take_bit 11 (uint (drop_bit 52 d))" "fraction_bits d = take_bit 52 (uint d)"
    by (simp_all only: exponent_bits_def fraction_bits_def m take_bit_eq_mask [symmetric] unsigned_take_bit_eq)
  then show "0 \<le> exponent_bits d" "exponent_bits d \<le> 0x7FF" "0 \<le> fraction_bits d" "fraction_bits d < 2 ^ 52"
    using take_bit_int_less_exp [of 11 "uint (drop_bit 52 d)"] take_bit_int_less_exp [of 52 "uint d"] by simp_all
qed

lemma finite_val:
  assumes "is_finite d"
  obtains k e where "val d = of_int k * two_to e" "\<bar>k\<bar> < 2 ^ 53" "- 1074 \<le> e" "e \<le> 971"
proof -
  note f = field_bounds [of d]
  let ?k = "(if negative d then - 1 else 1) * (if exponent_bits d = 0 then fraction_bits d else 2 ^ 52 + fraction_bits d)"
  let ?e = "if exponent_bits d = 0 then - 1074 else exponent_bits d - 1075"
  have "val d = of_int ?k * two_to ?e" "\<bar>?k\<bar> < 2 ^ 53" "- 1074 \<le> ?e" "?e \<le> 971"
    using f assms by (auto simp: val_def is_finite_def)
  with that show thesis
    by blast
qed

lemma rounded_val: "is_finite d \<Longrightarrow> rounded (val d) = val d"
  by (metis finite_val rounded_exact_less)

section \<open>Operations on finite numbers\<close>

lemma finite_not_special: "is_finite d \<Longrightarrow> \<not> is_nan d" "is_finite d \<Longrightarrow> \<not> is_inf d"
  by (auto simp: is_finite_def is_nan_def is_inf_def)

lemma zero_double [simp]: "is_finite 0" "val 0 = 0"
  by (simp_all add: is_finite_def val_def negative_def exponent_bits_def fraction_bits_def)

lemma fadd_val:
  assumes "is_finite a" "is_finite b" "\<bar>val a + val b\<bar> \<le> max_val"
  shows "is_finite (fadd a b) \<and> val (fadd a b) = rounded (val a + val b)"
  using assms by (simp add: fadd_def finite_not_special to_double_val)

lemma fsub_val:
  assumes "is_finite a" "is_finite b" "\<bar>val a - val b\<bar> \<le> max_val"
  shows "is_finite (fsub a b) \<and> val (fsub a b) = rounded (val a - val b)"
  using assms fadd_val [of a "fneg b"] by (simp add: fsub_def)

lemma fmul_val:
  assumes "is_finite a" "is_finite b" "\<bar>val a * val b\<bar> \<le> max_val"
  shows "is_finite (fmul a b) \<and> val (fmul a b) = rounded (val a * val b)"
  using assms by (simp add: fmul_def finite_not_special to_double_val)

lemma fdiv_val:
  assumes "is_finite a" "is_finite b" "val b \<noteq> 0" "\<bar>val a / val b\<bar> \<le> max_val"
  shows "is_finite (fdiv a b) \<and> val (fdiv a b) = rounded (val a / val b)"
  using assms by (simp add: fdiv_def finite_not_special to_double_val)

lemma flt_val: "is_finite a \<Longrightarrow> is_finite b \<Longrightarrow> flt a b \<longleftrightarrow> val a < val b"
  by (simp add: flt_def finite_not_special)

lemma fge_val: "is_finite a \<Longrightarrow> is_finite b \<Longrightarrow> fge a b \<longleftrightarrow> val b \<le> val a"
  by (simp add: fge_def finite_not_special)

lemma max_val_large: "2 ^ 1000 \<le> max_val"
proof -
  have "(2 ^ 1000 :: rat) = 2 ^ 29 * two_to 971"
    by (simp add: two_to_numeral power_add [symmetric])
  also have "\<dots> \<le> max_val"
    unfolding max_val_def by (intro mult_right_mono) simp_all
  finally show ?thesis .
qed

lemma moderate: "\<bar>x\<bar> \<le> 10 ^ 20 \<Longrightarrow> \<bar>x\<bar> \<le> max_val"
proof -
  assume "\<bar>x\<bar> \<le> 10 ^ 20"
  also have "(10 ^ 20 :: rat) \<le> 2 ^ 1000"
    by simp
  also note max_val_large
  finally show ?thesis .
qed

lemma of_integer_val:
  assumes "\<bar>n\<bar> \<le> 2 ^ 53"
  shows "is_finite (of_integer n) \<and> val (of_integer n) = of_int n"
proof -
  have "\<bar>of_int n :: rat\<bar> \<le> 2 ^ 53"
    using assms of_int_le_iff [of "\<bar>n\<bar>" "2 ^ 53", where 'a = rat] by simp
  then have "\<bar>of_int n :: rat\<bar> \<le> max_val"
    by (intro moderate) simp
  with assms show ?thesis
    by (simp add: of_integer_def to_double_val rounded_int)
qed

lemma literal_val: "\<bar>x\<bar> \<le> 10 ^ 20 \<Longrightarrow> is_finite (literal x) \<and> val (literal x) = rounded x"
  using moderate [of x] by (simp add: literal_def to_double_val)

text \<open>Operations on numbers of moderate size, up to a small error.\<close>

abbreviation eps :: rat where "eps \<equiv> 1 / 100000000000"

lemma rounded_near:
  assumes "\<bar>x\<bar> \<le> 10000"
  shows "\<bar>rounded x - x\<bar> \<le> eps"
proof -
  have small: "two_to (- 53) \<le> 1 / (9 * 10 ^ 15)"
    by (simp add: two_to_def)
  with assms have "\<bar>x\<bar> * two_to (- 53) \<le> 10000 * (1 / (9 * 10 ^ 15))"
    by (intro mult_mono) simp_all
  moreover have "two_to (- 1075) \<le> 1 / (9 * 10 ^ 15)"
    using two_to_mono [of "- 1075" "- 53"] small by simp
  ultimately show ?thesis
    using rounded_error [of x] by simp
qed

lemma near:
  assumes "- (10000) \<le> x" "x \<le> 10000"
  shows "\<bar>x\<bar> \<le> max_val" "x - eps \<le> rounded x" "rounded x \<le> x + eps"
proof -
  from assms have x: "\<bar>x\<bar> \<le> 10000"
    by (simp add: abs_le_iff)
  then show "\<bar>x\<bar> \<le> max_val"
    by (intro moderate) simp
  show "x - eps \<le> rounded x" "rounded x \<le> x + eps"
    using rounded_near [OF x] by linarith+
qed

text \<open>Interval arithmetic on them.\<close>

definition between :: "rat \<Rightarrow> rat \<Rightarrow> double \<Rightarrow> bool" where
  "between l u d \<longleftrightarrow> is_finite d \<and> l \<le> val d \<and> val d \<le> u"

lemma betweenD: "between l u d \<Longrightarrow> is_finite d" "between l u d \<Longrightarrow> l \<le> val d" "between l u d \<Longrightarrow> val d \<le> u"
  by (simp_all add: between_def)

lemma between_mono: "between l u d \<Longrightarrow> l' \<le> l \<Longrightarrow> u \<le> u' \<Longrightarrow> between l' u' d"
  by (auto simp: between_def)

lemma between_rounded:
  assumes "is_finite d" "val d = rounded x" "l \<le> x - eps" "x + eps \<le> u" "- (10000) \<le> x" "x \<le> 10000"
  shows "between l u d"
  using near [OF assms(5,6)] assms by (simp add: between_def)

lemma between_literal:
  assumes "- (10000) \<le> x" "x \<le> 10000"
  shows "between (x - eps) (x + eps) (literal x)"
  using near [OF assms] by (simp add: between_def literal_def to_double_val)

lemma between_integer: "\<bar>n\<bar> \<le> 2 ^ 53 \<Longrightarrow> between (of_int n) (of_int n) (of_integer n)"
  using of_integer_val [of n] by (simp add: between_def)

lemma between_add:
  assumes "between l1 u1 a" "between l2 u2 b" "- (10000) \<le> l1 + l2" "u1 + u2 \<le> 10000"
    "l \<le> l1 + l2 - eps" "u1 + u2 + eps \<le> u"
  shows "between l u (fadd a b)"
proof -
  note d = betweenD [OF assms(1)] betweenD [OF assms(2)]
  have x: "- (10000) \<le> val a + val b" "val a + val b \<le> 10000"
    using d assms(3,4) by linarith+
  have "l \<le> val a + val b - eps" "val a + val b + eps \<le> u"
    using d assms(5,6) by linarith+
  with fadd_val [OF d(1,4) near(1) [OF x]] x show ?thesis
    by (blast intro: between_rounded)
qed

lemma between_neg: "between l u a \<Longrightarrow> between (- u) (- l) (fneg a)"
  by (simp add: between_def)

lemma between_sub:
  assumes "between l1 u1 a" "between l2 u2 b" "- (10000) \<le> l1 - u2" "u1 - l2 \<le> 10000"
    "l \<le> l1 - u2 - eps" "u1 - l2 + eps \<le> u"
  shows "between l u (fsub a b)"
  unfolding fsub_def using assms by (intro between_add [OF assms(1) between_neg [OF assms(2)]]) simp_all

lemma between_mul:
  assumes "is_finite a" "is_finite b" "- (10000) \<le> val a * val b" "val a * val b \<le> 10000"
    "l \<le> val a * val b - eps" "val a * val b + eps \<le> u"
  shows "between l u (fmul a b)"
  using fmul_val [OF assms(1,2) near(1) [OF assms(3,4)]] assms(3-) by (blast intro: between_rounded)

text \<open>Factors of known size, a square, and an integer times a constant.\<close>

lemma between_mul_abs:
  assumes "between (- u) u a" "between (- v) v b" "u * v \<le> 10000" "u * v + eps \<le> w"
  shows "between (- w) w (fmul a b)"
proof -
  note d = betweenD [OF assms(1)] betweenD [OF assms(2)]
  have "\<bar>val a * val b\<bar> \<le> u * v"
    unfolding abs_mult using d by (intro mult_mono) (simp_all add: abs_le_iff)
  then have "- (u * v) \<le> val a * val b" "val a * val b \<le> u * v"
    by (simp_all add: abs_le_iff)
  with assms(3,4) show ?thesis
    by (intro between_mul [OF d(1,4)]) linarith+
qed

lemma between_square:
  assumes "between (- u) u a" "u * u \<le> 10000" "u * u + eps \<le> w"
  shows "between (- eps) w (fmul a a)"
proof -
  note d = betweenD [OF assms(1)]
  have "\<bar>val a\<bar> * \<bar>val a\<bar> \<le> u * u"
    using d by (intro mult_mono) (simp_all add: abs_le_iff)
  then have "0 \<le> val a * val a" "val a * val a \<le> u * u"
    by simp_all
  with assms(2,3) show ?thesis
    by (intro between_mul [OF d(1,1)]) linarith+
qed

lemma between_scale:
  assumes "\<bar>n\<bar> \<le> 2000" "\<bar>c\<bar> \<le> 4"
  shows "between (c * of_int n - 1 / 1000000) (c * of_int n + 1 / 1000000) (fmul (of_integer n) (literal c))"
proof -
  have n: "is_finite (of_integer n)" "val (of_integer n) = of_int n"
    using of_integer_val [of n] assms(1) by auto
  have n': "\<bar>of_int n :: rat\<bar> \<le> 2000"
    using assms(1) of_int_le_iff [of "\<bar>n\<bar>" 2000, where 'a = rat] by simp
  have "between (c - eps) (c + eps) (literal c)"
    using assms(2) by (intro between_literal) (simp_all add: abs_le_iff)
  note l = betweenD [OF this]
  have eq: "\<bar>of_int n * val (literal c) - c * of_int n\<bar> = \<bar>of_int n\<bar> * \<bar>val (literal c) - c\<bar>"
    by (simp add: abs_mult [symmetric] right_diff_distrib mult.commute)
  have "\<bar>val (literal c) - c\<bar> \<le> eps"
    using l by linarith
  then have "\<bar>of_int n\<bar> * \<bar>val (literal c) - c\<bar> \<le> 2000 * eps"
    using n' by (intro mult_mono) simp_all
  with eq have p: "of_int n * val (literal c) \<le> c * of_int n + 2000 * eps" "c * of_int n - 2000 * eps \<le> of_int n * val (literal c)"
    by (linarith+)
  have "\<bar>c * of_int n\<bar> \<le> 4 * 2000"
    unfolding abs_mult using assms(2) n' by (intro mult_mono) simp_all
  then have q: "c * of_int n \<le> 8000" "- 8000 \<le> c * of_int n"
    by (simp_all add: abs_le_iff)
  show ?thesis
    using p q by (intro between_mul [OF n(1) l(1)]) (simp_all add: n(2))
qed

lemma quotient_between:
  assumes "0 < l" "l \<le> y" "- u \<le> x" "x \<le> v" "0 \<le> u" "0 \<le> (v :: rat)"
  shows "- (u / l) \<le> x / y" "x / y \<le> v / l"
proof -
  from assms have y: "0 < y"
    by linarith
  have "x / y \<le> v / y"
    using assms y by (simp add: divide_right_mono)
  also have "\<dots> \<le> v / l"
    using assms by (intro divide_left_mono) (auto simp: y)
  finally show "x / y \<le> v / l" .
  have "u / y \<le> u / l"
    using assms by (intro divide_left_mono) (auto simp: y)
  moreover have "- (u / y) \<le> x / y"
    using divide_right_mono [of "- u" x y] assms y by simp
  ultimately show "- (u / l) \<le> x / y"
    by linarith
qed

lemma between_quotient:
  assumes "is_finite a" "is_finite b" "val b \<noteq> 0" "- (10000) \<le> val a / val b" "val a / val b \<le> 10000"
    "l \<le> val a / val b - eps" "val a / val b + eps \<le> u"
  shows "between l u (fdiv a b)"
  using fdiv_val [OF assms(1-3) near(1) [OF assms(4,5)]] assms(4-) by (blast intro: between_rounded)

lemma between_div:
  assumes "between (- u) v a" "between l r b" "0 < l" "0 \<le> u" "0 \<le> v" "u / l \<le> 10000" "v / l \<le> 10000"
    "w \<le> - (u / l) - eps" "v / l + eps \<le> t"
  shows "between w t (fdiv a b)"
proof -
  note d = betweenD [OF assms(1)] betweenD [OF assms(2)]
  note q = quotient_between [OF assms(3) d(5) d(2,3) assms(4,5)]
  show ?thesis
    using q d assms by (intro between_quotient [OF d(1,4)]) linarith+
qed

lemma truncate_bounds: "x - 1 < of_int (truncate x)" "of_int (truncate x) < x + 1"
  "0 \<le> x \<Longrightarrow> of_int (truncate x) \<le> x" "x < 0 \<Longrightarrow> x \<le> of_int (truncate x)"
  unfolding truncate_def by (simp_all split: if_splits) linarith+

lemma to_int_val:
  assumes "is_finite d" "- 1000000000 \<le> val d" "val d \<le> 1000000000"
  shows "to_int d = Inr (truncate (val d))"
proof -
  have "of_int (truncate (val d)) < (2 ^ 31 :: rat)" "- (2 ^ 31 :: rat) \<le> of_int (truncate (val d))"
    using truncate_bounds(1,2) [of "val d"] assms by simp_all
  then have "truncate (val d) < 2 ^ 31" "- (2 ^ 31) \<le> truncate (val d)"
    by simp_all
  with assms(1) show ?thesis
    by (simp add: to_int_def Let_def)
qed

lemma power_bits:
  assumes "- 1022 \<le> e" "e \<le> 1023"
  shows "is_finite (push_bit 52 (word_of_int (e + 1023)))" "val (push_bit 52 (word_of_int (e + 1023))) = two_to e"
proof -
  have p: "push_bit 52 (word_of_int (e + 1023)) = (word_of_int (((e - 52) + 1074) * 2 ^ 52 + 2 ^ 52) :: u64)"
    by (simp add: push_bit_eq_mult algebra_simps)
  have n: "0 \<le> (2 ^ 52 :: int)" "(2 ^ 52 :: int) \<le> 2 ^ 53" "- 1074 \<le> e - 52" "e - 52 \<le> 970 \<or> e - 52 = 971 \<and> (2 ^ 52 :: int) < 2 ^ 53"
      "e - 52 = - 1074 \<or> 2 ^ 52 \<le> (2 ^ 52 :: int)"
    using assms by auto
  show "is_finite (push_bit 52 (word_of_int (e + 1023)))"
    unfolding p by (rule val_bits(2) [OF n])
  have "of_int (2 ^ 52) * two_to (e - 52) = two_to e"
    using two_to_add [of 52 "e - 52"] by (simp add: two_to_numeral)
  then show "val (push_bit 52 (word_of_int (e + 1023))) = two_to e"
    unfolding p using val_bits(1) [OF n] by simp
qed

lemma exponent_value:
  assumes "is_finite d"
  shows "\<bar>val d\<bar> < two_to (exponent_bits d - 1022)" "exponent_bits d \<le> 0x7FE"
proof -
  note f = field_bounds [of d]
  have "of_int (fraction_bits d) < (2 ^ 52 :: rat)"
    using f(4) of_int_less_iff [of "fraction_bits d" "2 ^ 52", where 'a = rat] by simp
  moreover have "two_to (- 1022) = 2 ^ 52 * two_to (- 1074)" 
    using two_to_add [of 52 "- 1074"] by (simp add: two_to_numeral)
  moreover have "two_to (exponent_bits d - 1022) = 2 ^ 53 * two_to (exponent_bits d - 1075)"
    using two_to_add [of 53 "exponent_bits d - 1075"] by (simp add: two_to_numeral)
  ultimately show "\<bar>val d\<bar> < two_to (exponent_bits d - 1022)"
    using f(3) by (auto simp: val_def abs_mult)
  show "exponent_bits d \<le> 0x7FE"
    using assms by (simp add: is_finite_def)
qed

text \<open>A number with its exponent replaced by zero lies between one and two.\<close>

lemma significand:
  fixes d :: double
  defines "m \<equiv> (d AND 0xFFFFFFFFFFFFF) OR push_bit 52 1023"
  shows "is_finite m" "1 \<le> val m" "val m < 2"
proof -
  have z: "drop_bit 52 (0xFFFFFFFFFFFFF :: u64) = 0" "drop_bit 52 (push_bit 52 1023 :: u64) AND 0x7FF = 1023"
      "(push_bit 52 1023 :: u64) AND 0xFFFFFFFFFFFFF = 0"
    by simp_all
  have e: "exponent_bits m = 1023"
    unfolding exponent_bits_def m_def drop_bit_or drop_bit_and bit.conj_disj_distrib2 z by simp
  have f: "fraction_bits m = fraction_bits d"
    unfolding fraction_bits_def m_def bit.conj_disj_distrib2 z by (simp add: and.assoc)
  have n: "\<not> negative m"
    by (simp add: negative_def m_def bit_or_iff bit_and_iff bit_push_bit_iff)
  have "of_int (fraction_bits d) < (2 ^ 52 :: rat)"
    using field_bounds(4) [of d] of_int_less_iff [of "fraction_bits d" "2 ^ 52", where 'a = rat] by simp
  with e f n field_bounds(3) [of d] show "is_finite m" "1 \<le> val m" "val m < 2"
    by (simp_all add: is_finite_def val_def two_to_def)
qed

end
