(* ===== verification/Gdb_Float.thy ===== *)
theory Gdb_Float
  imports Gdb_Out Gdb_Double
begin

unbundle bit_operations_syntax

text \<open>
  The floating-point conversions of \<open>src/printf.c\<close>. \<open>_ftoa\<close> writes a number with a fixed
  number of digits after the point; \<open>_etoa\<close> finds the decimal exponent, scales the number and
  calls \<open>_ftoa\<close> for the significand, which calls \<open>_etoa\<close> for a number too large for it.
\<close>

section \<open>The digits of a number\<close>

definition PRINTF_FTOA_BUFFER_SIZE :: nat where "PRINTF_FTOA_BUFFER_SIZE = 32"
definition PRINTF_DEFAULT_FLOAT_PRECISION :: u32 where "PRINTF_DEFAULT_FLOAT_PRECISION = 6"
definition PRINTF_MAX_FLOAT :: double where "PRINTF_MAX_FLOAT = literal (10 ^ 9)"
definition DBL_MAX :: double where "DBL_MAX = 0x7FEFFFFFFFFFFFFF"

definition pow10 :: "u32 \<Rightarrow> double res" where
  "pow10 i = (if i < 10 then Inr (literal (10 ^ unat i)) else Inl OutOfBounds)"

text \<open>As in the integer conversions, the array is the list of its characters, the first one
  written first.\<close>

definition ftoa_push :: "u8 \<Rightarrow> u8 list \<Rightarrow> u8 list" where
  "ftoa_push c buf = (if length buf < PRINTF_FTOA_BUFFER_SIZE then buf @ [c] else buf)"

definition ftoa_zeros :: "nat \<Rightarrow> u8 list \<Rightarrow> u8 list" where
  "ftoa_zeros n buf = buf @ replicate (min n (PRINTF_FTOA_BUFFER_SIZE - length buf)) (ch CHR ''0'')"

definition limit_precision :: "u32 \<Rightarrow> u8 list \<times> u32" where
  "limit_precision prec =
    (let n = min PRINTF_FTOA_BUFFER_SIZE (unat prec - 9)
     in (replicate n (ch CHR ''0''), prec - of_nat n))"

text \<open>The integral part and the fraction in units of the last digit. \<open>whole\<close> is an \<open>int\<close> that is
  at most \<open>10 ^ 9\<close>.\<close>

definition split_round :: "double \<Rightarrow> u32 \<Rightarrow> (int \<times> u64) res" where
  "split_round value prec =
    bindR (to_int value) (\<lambda>whole.
    bindR (pow10 prec) (\<lambda>p.
    let tmp = fmul (fsub value (of_integer whole)) p
    in bindR (to_ulong tmp) (\<lambda>units.
    let diff = fsub tmp (of_integer (uint units))
    in if flt (literal 0.5) diff
       then (let units = units + 1
             in Inr (if fge (of_integer (uint units)) p then (whole + 1, 0) else (whole, units)))
       else if flt diff (literal 0.5) then Inr (whole, units)
       else if units = 0 \<or> units AND 1 \<noteq> 0 then Inr (whole, units + 1)
       else Inr (whole, units))))"

function frac_digits :: "u64 \<Rightarrow> u32 \<Rightarrow> u8 list \<Rightarrow> u8 list \<times> u32" where
  "frac_digits units count buf =
    (if length buf < PRINTF_FTOA_BUFFER_SIZE
     then (let count = count - 1; buf = buf @ [48 + ucast (units mod 10)]; units = units div 10
           in if units = 0 then (buf, count) else frac_digits units count buf)
     else (buf, count))"
  by pat_completeness auto
termination
  by (relation "measure (\<lambda>(units, count, buf). PRINTF_FTOA_BUFFER_SIZE - length buf)") auto

declare frac_digits.simps [simp del]

definition ftoa_fraction :: "u64 \<Rightarrow> u32 \<Rightarrow> u8 list \<Rightarrow> u8 list" where
  "ftoa_fraction units prec buf =
    (case frac_digits units prec buf of (buf, count) \<Rightarrow> ftoa_push (ch CHR ''.'') (ftoa_zeros (unat count) buf))"

function whole_digits :: "int \<Rightarrow> u8 list \<Rightarrow> u8 list" where
  "whole_digits whole buf =
    (if length buf < PRINTF_FTOA_BUFFER_SIZE
     then (let buf = buf @ [word_of_int (48 + whole mod 10)]; whole = whole div 10
           in if whole = 0 then buf else whole_digits whole buf)
     else buf)"
  by pat_completeness auto
termination
  by (relation "measure (\<lambda>(whole, buf). PRINTF_FTOA_BUFFER_SIZE - length buf)") auto

declare whole_digits.simps [simp del]

text \<open>With no fraction to print, a half is rounded to the even neighbour.\<close>

definition round_whole :: "double \<Rightarrow> int \<Rightarrow> int" where
  "round_whole value whole =
    (let diff = fsub value (of_integer whole)
     in if (\<not> flt diff (literal 0.5) \<or> flt (literal 0.5) diff) \<and> odd whole then whole + 1 else whole)"

definition ftoa_number :: "double \<Rightarrow> u32 \<Rightarrow> u8 list res" where
  "ftoa_number value prec =
    (case limit_precision prec of (buf, prec) \<Rightarrow>
     bindR (split_round value prec) (\<lambda>(whole, units).
     Inr (if prec = 0 then whole_digits (round_whole value whole) buf
          else whole_digits whole (ftoa_fraction units prec buf))))"

definition ftoa_pad :: "u8 list \<Rightarrow> bool \<Rightarrow> u32 \<Rightarrow> u32 \<Rightarrow> u8 list \<times> u32" where
  "ftoa_pad buf neg width flags =
    (if \<not> has flags FLAGS_LEFT \<and> has flags FLAGS_ZEROPAD
     then (let width = (if width \<noteq> 0 \<and> (neg \<or> has flags (FLAGS_PLUS OR FLAGS_SPACE)) then width - 1 else width)
           in (ftoa_zeros (unat width - length buf) buf, width))
     else (buf, width))"

definition ftoa_sign :: "u8 list \<Rightarrow> bool \<Rightarrow> u32 \<Rightarrow> u8 list" where
  "ftoa_sign buf neg flags =
    (if neg then ftoa_push (ch CHR ''-'') buf
     else if has flags FLAGS_PLUS then ftoa_push (ch CHR ''+'') buf
     else if has flags FLAGS_SPACE then ftoa_push (ch CHR '' '') buf
     else buf)"

text \<open>The part of \<open>_ftoa\<close> for numbers up to \<open>10 ^ 9\<close>.\<close>

definition ftoa_fixed ::
  "'s out \<Rightarrow> nat \<Rightarrow> nat \<Rightarrow> double \<Rightarrow> u32 \<Rightarrow> u32 \<Rightarrow> u32 \<Rightarrow> 's \<Rightarrow> (nat \<times> 's) res" where
  "ftoa_fixed out idx maxlen value prec width flags s =
    (let neg = flt value 0;
         value = (if neg then fsub 0 value else value);
         prec = (if has flags FLAGS_PRECISION then prec else PRINTF_DEFAULT_FLOAT_PRECISION)
     in bindR (ftoa_number value prec) (\<lambda>buf.
        case ftoa_pad buf neg width flags of (buf, width) \<Rightarrow>
        out_rev out idx maxlen (ftoa_sign buf neg flags) width flags s))"

section \<open>The decimal exponent\<close>

text \<open>The decimal logarithm from the binary exponent and an expansion of the logarithm around
  1.5, and the exponential function as a continued fraction.\<close>

definition log10_approx :: "int \<Rightarrow> double \<Rightarrow> double" where
  "log10_approx exp2 F =
    fadd (fadd (literal 0.1760912590558) (fmul (of_integer exp2) (literal 0.301029995663981)))
      (fmul (fsub F (literal 1.5)) (literal 0.289529654602168))"

definition exp_approx :: "double \<Rightarrow> double" where
  "exp_approx z =
    (let z2 = fmul z z
     in fadd (of_integer 1) (fdiv (fmul (of_integer 2) z)
          (fadd (fsub (of_integer 2) z) (fdiv z2 (fadd (of_integer 6) (fdiv z2 (fadd (of_integer 10)
             (fdiv z2 (of_integer 14)))))))))"

text \<open>The exponent \<open>e\<close> of a positive number and the approximation of \<open>10 ^ e\<close>.\<close>

definition etoa_exponent :: "double \<Rightarrow> (int \<times> double) res" where
  "etoa_exponent value =
    (let exp2 = uint (drop_bit 52 value AND 0x7FF) - 1023;
         F = (value AND 0xFFFFFFFFFFFFF) OR push_bit 52 1023
     in bindR (to_int (log10_approx exp2 F)) (\<lambda>expval.
        bindR (to_int (fadd (fmul (of_integer expval) (literal 3.321928094887362)) (literal 0.5))) (\<lambda>exp2.
        let z = fsub (fmul (of_integer expval) (literal 2.302585092994046)) (fmul (of_integer exp2) (literal 0.6931471805599453));
            F = fmul (push_bit 52 (word_of_int (exp2 + 1023))) (exp_approx z)
        in Inr (if flt value F then (expval - 1, fdiv F (of_integer 10)) else (expval, F)))))"

text \<open>What \<open>_etoa\<close> passes on: the scaled number, its precision, width and flags, the exponent
  and the width of the exponent, which is zero if there is none.\<close>

definition etoa_plan :: "double \<Rightarrow> u32 \<Rightarrow> u32 \<Rightarrow> u32 \<Rightarrow> (double \<times> u32 \<times> u32 \<times> u32 \<times> int \<times> u32) res" where
  "etoa_plan value prec width flags =
    (let neg = flt value 0;
         value = (if neg then fneg value else value);
         prec = (if has flags FLAGS_PRECISION then prec else PRINTF_DEFAULT_FLOAT_PRECISION)
     in bindR (etoa_exponent value) (\<lambda>(expval, F).
        let minwidth = (if expval < 100 \<and> expval > - 100 then 4 else 5)
        in bindR (if has flags FLAGS_ADAPT_EXP
               then if fge value (literal (1 / 10 ^ 4)) \<and> flt value (literal (10 ^ 6))
                    then bindR (if sint prec > expval
                                then if sint prec - expval < 2 ^ 31
                                     then Inr (word_of_int (sint prec - expval - 1)) else Inl IntOverflow
                                else Inr 0)
                           (\<lambda>prec. Inr (prec, flags OR FLAGS_PRECISION, 0, 0))
                    else Inr (if prec > 0 \<and> has flags FLAGS_PRECISION then prec - 1 else prec, flags, minwidth, expval)
               else Inr (prec, flags, minwidth, expval)) (\<lambda>(prec, flags, minwidth, expval).
        let fwidth = (if width > minwidth then width - minwidth else 0);
            fwidth = (if has flags FLAGS_LEFT \<and> minwidth \<noteq> 0 then 0 else fwidth);
            value = (if expval \<noteq> 0 then fdiv value F else value)
        in Inr (if neg then fneg value else value, prec, fwidth, flags, expval, minwidth))))"

definition etoa_suffix ::
  "'s out \<Rightarrow> nat \<Rightarrow> nat \<Rightarrow> nat \<Rightarrow> int \<Rightarrow> u32 \<Rightarrow> u32 \<Rightarrow> u32 \<Rightarrow> 's \<Rightarrow> (nat \<times> 's) res" where
  "etoa_suffix out start_idx idx maxlen expval minwidth width flags s =
    (if minwidth \<noteq> 0
     then bindR (out (if has flags FLAGS_UPPERCASE then ch CHR ''E'' else ch CHR ''e'') idx maxlen s) (\<lambda>s.
          bindR (ntoa_long out (idx + 1) maxlen (word_of_int (if expval < 0 then - expval else expval)) (expval < 0) 10 0
                   (minwidth - 1) (FLAGS_ZEROPAD OR FLAGS_PLUS) s) (\<lambda>(idx, s).
          if has flags FLAGS_LEFT
          then out_all out (replicate (unat width - (idx - start_idx)) (ch CHR '' '')) idx maxlen s
          else Inr (idx, s)))
     else Inr (idx, s))"

definition special :: "double \<Rightarrow> bool" where
  "special d \<longleftrightarrow> is_nan d \<or> flt DBL_MAX d \<or> flt d (fneg DBL_MAX)"

definition large :: "double \<Rightarrow> bool" where
  "large d \<longleftrightarrow> flt PRINTF_MAX_FLOAT d \<or> flt d (fneg PRINTF_MAX_FLOAT)"

section \<open>The estimate of the exponent\<close>

lemma log10_approx_val:
  assumes "\<bar>exp2\<bar> \<le> 1024" "between 1 2 F"
  shows "between (301029995663981 / 1000000000000000 * of_int exp2 + 31 / 1000) (301029995663981 / 1000000000000000 * of_int exp2 + 322 / 1000) (log10_approx exp2 F)"
proof -
  let ?x = "301029995663981 / 1000000000000000 * of_int exp2 :: rat"
  have x: "\<bar>of_int exp2 :: rat\<bar> \<le> 1024"
    using assms(1) of_int_le_iff [of "\<bar>exp2\<bar>" 1024, where 'a = rat] by simp
  have a: "between (?x - 1 / 1000000) (?x + 1 / 1000000) (fmul (of_integer exp2) (literal 0.301029995663981))"
    by (rule between_mono [OF between_scale]) (use assms(1) in simp_all)
  have b: "between (?x + 17608 / 100000) (?x + 1761 / 10000) (fadd (literal 0.1760912590558) (fmul (of_integer exp2) (literal 0.301029995663981)))"
    using x by (intro between_add [OF between_literal a]) (simp_all add: abs_le_iff)
  have d: "between (- (5001 / 10000)) (5001 / 10000) (fsub F (literal 1.5))"
    by (rule between_sub [OF assms(2) between_literal]) simp_all
  have "between (- (28953 / 100000)) (28953 / 100000) (literal 0.289529654602168)"
    by (rule between_mono [OF between_literal]) simp_all
  from between_mul_abs [OF d this, of "145 / 1000"]
  have e: "between (- (145 / 1000)) (145 / 1000) (fmul (fsub F (literal 1.5)) (literal 0.289529654602168))"
    by simp
  show ?thesis
    unfolding log10_approx_def using x by (intro between_add [OF b e]) (simp_all add: abs_le_iff)
qed

lemma exp_approx_val:
  assumes "between (- (105 / 100)) (36 / 100) z"
  shows "between (3 / 10) (16 / 10) (exp_approx z)"
proof -
  let ?z = "val z" and ?z2 = "fmul z z"
  note z = betweenD [OF assms]
  note int = between_integer [of 1, simplified] between_integer [of 2, simplified] between_integer [of 6, simplified]
    between_integer [of 10, simplified] between_integer [of 14, simplified]
  have "between (- (105 / 100)) (105 / 100) z"
    by (rule between_mono [OF assms]) simp_all
  from between_square [OF this, of "12 / 10"] have z2: "between (- (1 / 1000)) (12 / 10) ?z2"
    using between_mono by fastforce
  have div: "between (- (1 / 1000)) (23 / 100) (fdiv ?z2 y)" if "between (59 / 10) 20 y" for y
    by (rule between_div [OF z2 that]) simp_all
  let ?a = "fdiv ?z2 (of_integer 14)"
  have a: "between (- (1 / 1000)) (23 / 100) ?a"
    by (rule div [OF between_mono [OF int(5)]]) simp_all
  let ?b = "fadd (of_integer 10) ?a"
  have b: "between (59 / 10) 20 ?b"
    by (rule between_add [OF int(4) a]) simp_all
  let ?d = "fadd (of_integer 6) (fdiv ?z2 ?b)"
  have d: "between (59 / 10) 20 ?d"
    by (rule between_add [OF int(3) div [OF b]]) simp_all
  have f: "between (19999 / 10000 - ?z) (20001 / 10000 - ?z) (fsub (of_integer 2) z)"
    using z by (intro between_sub [OF int(2), of ?z ?z z]) (simp_all add: between_def)
  let ?g = "fadd (fsub (of_integer 2) z) (fdiv ?z2 ?d)"
  have g: "between (199 / 100 - ?z) (224 / 100 - ?z) ?g"
    using z by (intro between_add [OF f div [OF d]]) simp_all
  let ?h = "fmul (of_integer 2) z"
  have h: "between (2 * ?z - 1 / 10000) (2 * ?z + 1 / 10000) ?h"
    using z betweenD [OF int(2)] of_integer_val [of 2] by (intro between_mul) simp_all
  note gh = betweenD [OF g] betweenD [OF h]
  have gpos: "0 < val ?g"
    using gh z by simp
  have "- (6999 / 10000) * val ?g \<le> val ?h" "val ?h \<le> 59 / 100 * val ?g"
    using gh z by simp_all
  then have q: "- (6999 / 10000) \<le> val ?h / val ?g" "val ?h / val ?g \<le> 59 / 100"
    using pos_le_divide_eq [OF gpos, of "- (6999 / 10000)" "val ?h"] pos_divide_le_eq [OF gpos, of "val ?h" "59 / 100"] by blast+
  define r where "r = val ?h / val ?g"
  have i: "between (- (69995 / 100000)) (591 / 1000) (fdiv ?h ?g)"
    using gpos q [folded r_def] by (intro between_quotient [OF gh(4) gh(1)]) (simp_all add: r_def [symmetric])
  show ?thesis
    unfolding exp_approx_def Let_def by (rule between_add [OF int(1) i]) simp_all
qed

lemma power_estimate:
  assumes "is_finite p" "val p = two_to y" "is_finite f" "3 / 10 \<le> val f" "val f \<le> 16 / 10" "- 1021 < y" "y < 1024"
  shows "is_finite (fmul p f)" "1 / 4 * two_to y \<le> val (fmul p f)"
    "is_finite (fdiv (fmul p f) (of_integer 10))" "1 / 80 * two_to y \<le> val (fdiv (fmul p f) (of_integer 10))"
proof -
  let ?t = "two_to y"
  have t: "?t \<le> two_to 1023" "two_to (- 1075) \<le> ?t * two_to (- 50)" "0 < ?t"
    using assms(6,7) two_to_mono [of y 1023] two_to_mono [of "- 1075" "y - 50"] two_to_add [of y "- 50"] by simp_all
  have small: "two_to (- 50) \<le> 1 / 1000000" "two_to (- 53) \<le> 1 / 1000000"
    by (simp_all add: two_to_def)
  have "16 / 10 * two_to 1023 \<le> max_val"
    using two_to_add [of 52 971] by (simp add: max_val_def two_to_numeral)
  have q: "3 / 10 * ?t \<le> ?t * val f" "?t * val f \<le> 16 / 10 * ?t"
    using assms(4,5) t(3) by (simp_all add: mult.commute mult_right_mono)
  have m: "\<bar>x\<bar> \<le> max_val" "x - 1 / 100 * ?t \<le> rounded x" "rounded x \<le> x + 1 / 100 * ?t"
    if "0 \<le> x" "x \<le> 16 / 10 * ?t" for x
  proof -
    show "\<bar>x\<bar> \<le> max_val"
      using that t(1) \<open>16 / 10 * two_to 1023 \<le> max_val\<close> by simp
    have "x * two_to (- 53) \<le> (16 / 10 * ?t) * (1 / 1000000)"
      using that small(2) by (intro mult_mono) simp_all
    moreover have "?t * two_to (- 50) \<le> ?t * (1 / 1000000)"
      using small(1) by (intro mult_left_mono) simp_all
    ultimately have "\<bar>rounded x - x\<bar> \<le> 1 / 100 * ?t"
      using rounded_error [of x] t(2) abs_of_nonneg [OF that(1)] t(3) by linarith
    then show "x - 1 / 100 * ?t \<le> rounded x" "rounded x \<le> x + 1 / 100 * ?t"
      by linarith+
  qed
  have q0: "0 \<le> ?t * val f"
    using q(1) t(3) by linarith
  have G: "is_finite (fmul p f)" "val (fmul p f) = rounded (?t * val f)"
    using fmul_val [OF assms(1,3)] m(1) [OF q0 q(2)] assms(2) by simp_all
  then show "is_finite (fmul p f)" by blast
  have Gb: "29 / 100 * ?t \<le> val (fmul p f)" "val (fmul p f) \<le> 161 / 100 * ?t"
    using m(2,3) [OF q0 q(2)] q G(2) by linarith+
  then show "1 / 4 * ?t \<le> val (fmul p f)"
    using t(3) by linarith
  have d: "0 \<le> val (fmul p f) / 10" "val (fmul p f) / 10 \<le> 16 / 10 * ?t"
    using Gb t(3) by linarith+
  have ten: "is_finite (of_integer 10)" "val (of_integer 10) = 10"
    using of_integer_val [of 10] by simp_all
  have D: "is_finite (fdiv (fmul p f) (of_integer 10))" "val (fdiv (fmul p f) (of_integer 10)) = rounded (val (fmul p f) / 10)"
    using fdiv_val [OF G(1) ten(1)] m(1) [OF d] ten(2) by simp_all
  then show "is_finite (fdiv (fmul p f) (of_integer 10))" by blast
  show "1 / 80 * ?t \<le> val (fdiv (fmul p f) (of_integer 10))"
    using m(2) [OF d] Gb t(3) D(2) by linarith
qed

text \<open>The scaled number is small: the estimate is off by less than a factor of \<open>2 ^ 16\<close>.\<close>

lemma etoa_exponent_scales:
  assumes "is_finite d" "0 \<le> val d"
  shows "\<exists>e F. etoa_exponent d = Inr (e, F) \<and> is_finite F \<and> 0 < val F \<and> val d \<le> 2 ^ 16 * val F \<and>
    (e = 0 \<longrightarrow> val d \<le> 2 ^ 16) \<and> \<bar>e\<bar> \<le> 308"
proof -
  define E where "E = exponent_bits d - 1023"
  let ?c = "301029995663981 / 1000000000000000 :: rat"
  have E: "- 1023 \<le> E" "E \<le> 1023"
    using field_bounds(1) [of d] exponent_value(2) [OF assms(1)] by (simp_all add: E_def)
  then have E': "- 1023 \<le> (of_int E :: rat)" "(of_int E :: rat) \<le> 1023"
    using of_int_le_iff [of "- 1023" E, where 'a = rat] of_int_le_iff [of E 1023, where 'a = rat] by simp_all
  have vE: "val d < two_to (E + 1)"
    using exponent_value(1) [OF assms(1)] assms(2) by (simp add: E_def)
  define F where "F = (d AND 0xFFFFFFFFFFFFF) OR push_bit 52 1023"
  have F: "between 1 2 F"
    using significand [of d] unfolding F_def between_def by (simp add: less_imp_le)
  define a where "a = log10_approx E F"
  have a: "is_finite a" "?c * of_int E + 31 / 1000 \<le> val a" "val a \<le> ?c * of_int E + 322 / 1000"
    using log10_approx_val [OF _ F, of E] E unfolding a_def by (simp_all only: between_def abs_le_iff) auto
  define x where "x = truncate (val a)"
  have x: "to_int a = Inr x"
    unfolding x_def by (rule to_int_val [OF a(1)]; use a E' in linarith)
  have t: "val a - 1 < of_int x" "of_int x < val a + 1"
    unfolding x_def by (rule truncate_bounds)+
  then have xr: "?c * of_int E - 97 / 100 \<le> of_int x" "of_int x \<le> ?c * of_int E + 133 / 100"
    using a by linarith+
  have "- 308 < (of_int x :: rat)" "(of_int x :: rat) < 309"
    using truncate_bounds(3,4) [of "val a"] xr a E' unfolding x_def [symmetric] by linarith+
  then have xi: "- 308 < x" "x < 309"
    by simp_all
  then have xr': "- 307 \<le> (of_int x :: rat)" "(of_int x :: rat) \<le> 308"
    using of_int_le_iff [of "- 307" x, where 'a = rat] of_int_le_iff [of x 308, where 'a = rat] by simp_all
  define b where "b = fadd (fmul (of_integer x) (literal 3.321928094887362)) (literal 0.5)"
  have b: "between (3321928094887362 / 1000000000000000 * of_int x + 4999 / 10000) (3321928094887362 / 1000000000000000 * of_int x + 5001 / 10000) b"
    unfolding b_def by (rule between_add [OF between_scale between_literal]) (use xi xr' in simp_all)
  note b = betweenD [OF this]
  define y where "y = truncate (val b)"
  have y: "to_int b = Inr y"
    unfolding y_def by (rule to_int_val [OF b(1)]; use b xr' in linarith)
  have "val b - 1 < of_int y" "of_int y < val b + 1"
    unfolding y_def by (rule truncate_bounds)+
  then have yr: "3321928094887362 / 1000000000000000 * of_int x - 5001 / 10000 \<le> (of_int y :: rat)" "(of_int y :: rat) \<le> 3321928094887362 / 1000000000000000 * of_int x + 15001 / 10000"
    using b by linarith+
  have "- 1021 < (of_int y :: rat)" "(of_int y :: rat) < 1024"
    using truncate_bounds(3,4) [of "val b"] yr b xr' unfolding y_def [symmetric] by linarith+
  then have yi: "- 1021 < y" "y < 1024"
    by simp_all
  define z where "z = fsub (fmul (of_integer x) (literal 2.302585092994046)) (fmul (of_integer y) (literal 0.6931471805599453))"
  have "between (- (105 / 100)) (36 / 100) z"
    unfolding z_def by (rule between_sub [OF between_scale between_scale]) (use xi yi xr' yr in simp_all)
  from exp_approx_val [OF this] have f: "is_finite (exp_approx z)" "3 / 10 \<le> val (exp_approx z)" "val (exp_approx z) \<le> 16 / 10"
    by (simp_all add: between_def)
  define G where "G = fmul (push_bit 52 (word_of_int (y + 1023))) (exp_approx z)"
  have "of_int (E + 1 - y) < (5 :: rat)"
    using yr xr E' by simp
  then have "E + 1 \<le> 4 + y"
    by simp
  then have "val d < two_to (4 + y)"
    using vE two_to_mono less_le_trans by blast
  then have dy: "val d < 16 * two_to y"
    by (simp add: two_to_add two_to_numeral)
  have p: "is_finite (push_bit 52 (word_of_int (y + 1023)))" "val (push_bit 52 (word_of_int (y + 1023))) = two_to y"
    using power_bits [of y] yi by simp_all
  from power_estimate [OF p f] yi have G: "is_finite G" "1 / 4 * two_to y \<le> val G" "is_finite (fdiv G (of_integer 10))"
    "1 / 80 * two_to y \<le> val (fdiv G (of_integer 10))"
    by (simp_all add: G_def)
  have G80: "1 / 80 * two_to y \<le> val G"
    using G(2) two_to_pos [of y] by linarith
  define r where "r = (if flt d G then (x - 1, fdiv G (of_integer 10)) else (x, G))"
  have r: "etoa_exponent d = Inr r"
    unfolding etoa_exponent_def r_def G_def z_def
    by (simp only: Let_def exponent_bits_def [symmetric] E_def [symmetric] F_def [symmetric] a_def [symmetric] x bindR_Inr
        b_def [symmetric] y)
  have rs: "is_finite (snd r)" "1 / 80 * two_to y \<le> val (snd r)" "\<bar>fst r\<bar> \<le> 308" "fst r = 0 \<Longrightarrow> x \<le> 1"
    using G xi G80 by (auto simp: r_def split: if_splits)
  then have "0 < val (snd r)" "val d \<le> 65536 * val (snd r)"
    using dy two_to_pos [of y] by linarith+
  moreover have "val d \<le> 2 ^ 16" if "x \<le> 1"
  proof -
    have "(of_int x :: rat) \<le> 1"
      using that by simp
    then have "of_int (E + 1) < (8 :: rat)"
      using xr by simp
    then have "two_to (E + 1) \<le> two_to 16"
      by (intro two_to_mono) simp
    with vE show ?thesis
      by (simp add: two_to_numeral)
  qed
  ultimately show ?thesis
    using r rs by (intro exI [of _ "fst r"] exI [of _ "snd r"]) auto
qed

section \<open>The two conversions\<close>

lemma val_DBL_MAX: "is_finite DBL_MAX" "val DBL_MAX = max_val"
  by (simp_all add: is_finite_def val_def exponent_bits_def fraction_bits_def negative_def DBL_MAX_def max_val_def)

lemma finite_max_val:
  assumes "is_finite d"
  shows "\<bar>val d\<bar> \<le> max_val"
proof -
  obtain k e where k: "val d = of_int k * two_to e" "\<bar>k\<bar> < 2 ^ 53" "- 1074 \<le> e" "e \<le> 971"
    by (rule finite_val [OF assms])
  have "\<bar>of_int k :: rat\<bar> \<le> 2 ^ 53 - 1"
    using k(2) of_int_le_iff [of "\<bar>k\<bar>" "2 ^ 53 - 1", where 'a = rat] by simp
  then show ?thesis
    unfolding k(1) abs_mult max_val_def using two_to_mono [OF k(4)] by (intro mult_mono) simp_all
qed

lemma special_iff: "special d \<longleftrightarrow> \<not> is_finite d"
proof
  assume s: "special d"
  show "\<not> is_finite d"
  proof
    assume d: "is_finite d"
    with s finite_max_val [OF d] show False
      by (auto simp: special_def finite_not_special flt_val val_DBL_MAX abs_le_iff)
  qed
next
  assume d: "\<not> is_finite d"
  show "special d"
  proof (cases "is_nan d")
    case False
    with d have "exponent_bits d = 0x7FF" "fraction_bits d = 0"
      using field_bounds(2) [of d] by (auto simp: is_finite_def is_nan_def)
    moreover have "2 ^ 52 * two_to 972 = two_to 1024"
      using two_to_add [of 52 972] by (simp add: two_to_numeral)
    ultimately have "val d = two_to 1024 \<or> val d = - two_to 1024"
      by (simp add: val_def)
    with False max_val_less show ?thesis
      by (auto simp: special_def flt_def finite_not_special val_DBL_MAX)
  qed (simp add: special_def)
qed

lemma finiteI: "\<not> is_nan d \<Longrightarrow> \<not> flt d (fneg DBL_MAX) \<Longrightarrow> \<not> flt DBL_MAX d \<Longrightarrow> is_finite d"
  using special_iff [of d] by (simp add: special_def)

lemma large_iff: "is_finite d \<Longrightarrow> large d \<longleftrightarrow> 1000000000 < \<bar>val d\<bar>"
proof -
  have "\<bar>10 ^ 9 :: rat\<bar> \<le> 10 ^ 20"
    by simp
  from literal_val [OF this] rounded_int [of "10 ^ 9"]
  have "is_finite PRINTF_MAX_FLOAT" "val PRINTF_MAX_FLOAT = 1000000000"
    by (simp_all add: PRINTF_MAX_FLOAT_def)
  then show "is_finite d \<Longrightarrow> large d \<longleftrightarrow> 1000000000 < \<bar>val d\<bar>"
    by (auto simp: large_def flt_val)
qed

lemma rounded_le: "0 \<le> x \<Longrightarrow> x \<le> 2 ^ 16 \<Longrightarrow> rounded x \<le> 2 ^ 17"
proof -
  assume x: "0 \<le> x" "x \<le> 2 ^ 16"
  have "two_to (- 1075) \<le> 1" "two_to (- 53) \<le> 1 / 2"
    using two_to_mono [of "- 1075" 0] by (simp_all add: two_to_def)
  moreover from this have "x * two_to (- 53) \<le> 2 ^ 16 * (1 / 2)"
    using x by (intro mult_mono) simp_all
  ultimately show ?thesis
    using rounded_error [of x] x by simp
qed

lemma literal_1e6: "is_finite (literal (10 ^ 6))" "val (literal (10 ^ 6)) = 1000000"
proof -
  have "\<bar>10 ^ 6 :: rat\<bar> \<le> 10 ^ 20"
    by simp
  from literal_val [OF this] rounded_int [of "10 ^ 6"]
  show "is_finite (literal (10 ^ 6))" "val (literal (10 ^ 6)) = 1000000"
    by simp_all
qed

text \<open>\<open>_etoa\<close> always passes on a number that \<open>_ftoa\<close> does not pass back.\<close>

lemma etoa_plan_scaled:
  assumes "is_finite d" "etoa_plan d prec width flags = Inr (d', r)"
  shows "is_finite d'" "\<bar>val d'\<bar> \<le> 1000000"
proof -
  define v where "v = (if flt d 0 then fneg d else d)"
  have v: "is_finite v" "0 \<le> val v"
    using assms(1) by (auto simp: v_def flt_val)
  obtain e F where F: "etoa_exponent v = Inr (e, F)" "is_finite F" "0 < val F" "val v \<le> 2 ^ 16 * val F" "e = 0 \<longrightarrow> val v \<le> 2 ^ 16"
    using etoa_exponent_scales [OF v] by blast
  have q: "0 \<le> val v / val F" "val v / val F \<le> 2 ^ 16"
    using v F by (simp_all add: pos_divide_le_eq)
  have "is_finite (fdiv v F)" "val (fdiv v F) = rounded (val v / val F)"
    using fdiv_val [OF v(1) F(2)] moderate [of "val v / val F"] F(3) q by auto
  with rounded_sign(1) [OF q(1)] rounded_le [OF q] have s: "is_finite (fdiv v F)" "0 \<le> val (fdiv v F)" "val (fdiv v F) \<le> 1000000"
    by simp_all
  have v6: "val v \<le> 1000000" if "flt v (literal (10 ^ 6))"
    using that v(1) literal_1e6 by (simp only: flt_val)
  have "\<exists>u. d' = (if flt d 0 then fneg u else u) \<and> (u = fdiv v F \<or> u = v \<and> val v \<le> 1000000)"
    using assms(2) F v6 unfolding etoa_plan_def Let_def v_def [symmetric]
    by (auto simp: bindR_eq_Inr_iff split: if_splits)
  with s v show "is_finite d'" "\<bar>val d'\<bar> \<le> 1000000"
    by (auto simp: abs_le_iff)
qed

function ftoa :: "'s out \<Rightarrow> nat \<Rightarrow> nat \<Rightarrow> double \<Rightarrow> u32 \<Rightarrow> u32 \<Rightarrow> u32 \<Rightarrow> 's \<Rightarrow> (nat \<times> 's) res"
  and etoa :: "'s out \<Rightarrow> nat \<Rightarrow> nat \<Rightarrow> double \<Rightarrow> u32 \<Rightarrow> u32 \<Rightarrow> u32 \<Rightarrow> 's \<Rightarrow> (nat \<times> 's) res" where
  "ftoa out idx maxlen d prec width flags s =
    (if is_nan d then out_rev out idx maxlen (str ''nan'') width flags s
     else if flt d (fneg DBL_MAX) then out_rev out idx maxlen (str ''fni-'') width flags s
     else if flt DBL_MAX d
     then out_rev out idx maxlen (if has flags FLAGS_PLUS then str ''fni+'' else str ''fni'') width flags s
     else if large d then etoa out idx maxlen d prec width flags s
     else ftoa_fixed out idx maxlen d prec width flags s)"
| "etoa out idx maxlen d prec width flags s =
    (if special d then ftoa out idx maxlen d prec width flags s
     else bindR (etoa_plan d prec width flags) (\<lambda>(d', prec', fwidth, flags', expval, minwidth).
          bindR (ftoa out idx maxlen d' prec' fwidth (flags' AND NOT FLAGS_ADAPT_EXP) s) (\<lambda>(idx', s').
          etoa_suffix out idx idx' maxlen expval minwidth width flags' s')))"
  by pat_completeness auto
termination
  by (relation "measure (\<lambda>x. case x of
      Inl (out, idx, maxlen, d, r) \<Rightarrow> if is_finite d \<and> large d then 3 else 0
    | Inr (out, idx, maxlen, d, r) \<Rightarrow> if is_finite d then 2 else 1)")
    (auto simp: special_iff large_iff intro: finiteI dest: etoa_plan_scaled)

declare ftoa.simps [simp del] etoa.simps [simp del]

section \<open>The text of a number\<close>

text \<open>What the conversions output, without a sink; the recursion ends after one step.\<close>

definition fixed_text :: "double \<Rightarrow> u32 \<Rightarrow> u32 \<Rightarrow> u32 \<Rightarrow> u8 list res" where
  "fixed_text d prec width flags =
    (let neg = flt d 0;
         d = (if neg then fsub 0 d else d);
         prec = (if has flags FLAGS_PRECISION then prec else PRINTF_DEFAULT_FLOAT_PRECISION)
     in bindR (ftoa_number d prec) (\<lambda>buf.
        case ftoa_pad buf neg width flags of (buf, width) \<Rightarrow>
        Inr (rev_text (ftoa_sign buf neg flags) width flags)))"

definition small_text :: "double \<Rightarrow> u32 \<Rightarrow> u32 \<Rightarrow> u32 \<Rightarrow> u8 list res" where
  "small_text d prec width flags =
    (if is_nan d then Inr (rev_text (str ''nan'') width flags)
     else if flt d (fneg DBL_MAX) then Inr (rev_text (str ''fni-'') width flags)
     else if flt DBL_MAX d
     then Inr (rev_text (if has flags FLAGS_PLUS then str ''fni+'' else str ''fni'') width flags)
     else fixed_text d prec width flags)"

definition suffix_text :: "nat \<Rightarrow> int \<Rightarrow> u32 \<Rightarrow> u32 \<Rightarrow> u32 \<Rightarrow> u8 list" where
  "suffix_text n expval minwidth width flags =
    (if minwidth \<noteq> 0
     then (let e = (if has flags FLAGS_UPPERCASE then ch CHR ''E'' else ch CHR ''e'') #
                 ntoa_text (word_of_int (if expval < 0 then - expval else expval)) (expval < 0) 10 0
                   (minwidth - 1) (FLAGS_ZEROPAD OR FLAGS_PLUS)
           in e @ (if has flags FLAGS_LEFT then replicate (unat width - (n + length e)) (ch CHR '' '') else []))
     else [])"

definition etoa_text :: "double \<Rightarrow> u32 \<Rightarrow> u32 \<Rightarrow> u32 \<Rightarrow> u8 list res" where
  "etoa_text d prec width flags =
    (if special d then small_text d prec width flags
     else bindR (etoa_plan d prec width flags) (\<lambda>(d', prec', fwidth, flags', expval, minwidth).
          bindR (small_text d' prec' fwidth (flags' AND NOT FLAGS_ADAPT_EXP)) (\<lambda>cs.
          Inr (cs @ suffix_text (length cs) expval minwidth width flags'))))"

definition ftoa_text :: "double \<Rightarrow> u32 \<Rightarrow> u32 \<Rightarrow> u32 \<Rightarrow> u8 list res" where
  "ftoa_text d prec width flags =
    (if \<not> special d \<and> large d then etoa_text d prec width flags else small_text d prec width flags)"

lemma ftoa_fixed_text: "ftoa_fixed out idx maxlen d prec width flags s =
    bindR (fixed_text d prec width flags) (\<lambda>cs. out_all out cs idx maxlen s)"
  by (simp add: ftoa_fixed_def fixed_text_def bindR_assoc out_rev_text Let_def split_def)

lemma ftoa_small:
  assumes "special d \<or> \<not> large d"
  shows "ftoa out idx maxlen d prec width flags s = bindR (small_text d prec width flags) (\<lambda>cs. out_all out cs idx maxlen s)"
  using assms finiteI [of d] special_iff [of d]
  by (subst ftoa.simps) (auto simp: small_text_def out_rev_text ftoa_fixed_text)

lemma etoa_suffix_text: "etoa_suffix out start (start + n) maxlen expval minwidth width flags s =
    out_all out (suffix_text n expval minwidth width flags) (start + n) maxlen s"
proof -
  let ?e = "if has flags FLAGS_UPPERCASE then ch CHR ''E'' else ch CHR ''e''"
  let ?ds = "ntoa_text (word_of_int (if expval < 0 then - expval else expval)) (expval < 0) 10 0
    (minwidth - 1) (FLAGS_ZEROPAD OR FLAGS_PLUS)"
  have "bindR (out_all out ?ds (Suc (start + n)) maxlen s') (\<lambda>(idx, s). out_all out (replicate (unat width - (idx - start)) c) idx maxlen s) =
      out_all out (?ds @ replicate (unat width - Suc (n + length ?ds)) c) (Suc (start + n)) maxlen s'" for s' c
    unfolding out_all_append
    by (cases "out_all out ?ds (Suc (start + n)) maxlen s'") (auto dest: out_all_idx)
  moreover have "bindR m (\<lambda>(i, s). Inr (i, s)) = m" for m :: "(nat \<times> 'a) res"
    by (cases m) auto
  ultimately show ?thesis
    by (simp add: etoa_suffix_def suffix_text_def ntoa_long_text Let_def)
qed

lemma etoa_output: "etoa out idx maxlen d prec width flags s =
    bindR (etoa_text d prec width flags) (\<lambda>cs. out_all out cs idx maxlen s)"
proof (cases "special d")
  case True
  then show ?thesis
    by (subst etoa.simps) (simp add: etoa_text_def ftoa_small)
next
  case False
  then have fin: "is_finite d"
    by (simp add: special_iff)
  have "bindR (ftoa out idx maxlen d' prec' fwidth flags'' s) (\<lambda>(idx', s'). etoa_suffix out idx idx' maxlen expval minwidth width flags' s') =
      bindR (small_text d' prec' fwidth flags'') (\<lambda>cs. out_all out (cs @ suffix_text (length cs) expval minwidth width flags') idx maxlen s)"
    if "etoa_plan d prec width flags = Inr (d', r)" for d' r prec' fwidth flags'' expval minwidth flags'
  proof -
    have "\<not> large d'"
      using etoa_plan_scaled [OF fin that] by (simp add: large_iff)
    have "bindR (out_all out cs idx maxlen s) (\<lambda>(idx', s'). etoa_suffix out idx idx' maxlen expval minwidth width flags' s') =
        out_all out (cs @ suffix_text (length cs) expval minwidth width flags') idx maxlen s" for cs
      unfolding out_all_append
      by (cases "out_all out cs idx maxlen s") (auto dest!: out_all_idx simp: etoa_suffix_text)
    with \<open>\<not> large d'\<close> show ?thesis
      by (simp add: ftoa_small bindR_assoc)
  qed
  with False show ?thesis
    by (subst etoa.simps, cases "etoa_plan d prec width flags") (auto simp: etoa_text_def bindR_assoc)
qed

lemma ftoa_output: "ftoa out idx maxlen d prec width flags s =
    bindR (ftoa_text d prec width flags) (\<lambda>cs. out_all out cs idx maxlen s)"
proof (cases "\<not> special d \<and> large d")
  case True
  then have "\<not> is_nan d" "\<not> flt d (fneg DBL_MAX)" "\<not> flt DBL_MAX d"
    by (simp_all add: special_def)
  with True show ?thesis
    by (subst ftoa.simps) (simp add: etoa_output ftoa_text_def)
qed (auto simp: ftoa_text_def ftoa_small)

end
