(* ===== verification/Gdb_Decimal.thy ===== *)
theory Gdb_Decimal
  imports Gdb_Float
begin

unbundle bit_operations_syntax

text \<open>
  What \<open>_ftoa\<close> prints: the decimal numeral with the given number of digits after the point
  that is nearest to the number, up to a tie and a small error, and what it prints instead when
  a tie carries into the integral part.
\<close>

section \<open>Numerals\<close>

definition digit :: "nat \<Rightarrow> u8" where
  "digit n = 48 + of_nat (n mod 10)"

fun digits :: "nat \<Rightarrow> u8 list" where
  "digits n = (if n < 10 then [digit n] else digits (n div 10) @ [digit n])"

declare digits.simps [simp del]

text \<open>The last \<open>p\<close> digits of a number.\<close>

fun last_digits :: "nat \<Rightarrow> nat \<Rightarrow> u8 list" where
  "last_digits 0 n = []"
| "last_digits (Suc p) n = last_digits p (n div 10) @ [digit n]"

text \<open>The number \<open>n / 10 ^ p\<close> with \<open>p\<close> digits after the point.\<close>

definition decimal :: "nat \<Rightarrow> nat \<Rightarrow> u8 list" where
  "decimal p n = digits (n div 10 ^ p) @ (if p = 0 then [] else ch CHR ''.'' # last_digits p n)"

lemma length_last_digits [simp]: "length (last_digits p n) = p"
  by (induction p arbitrary: n) auto

lemma last_digits_0: "last_digits p 0 = replicate p (ch CHR ''0'')"
  by (induction p) (simp_all add: digit_def replicate_append_same)

lemma last_digits_add: "last_digits (p + q) n = last_digits p (n div 10 ^ q) @ last_digits q n"
  by (induction q arbitrary: n) (simp_all add: div_mult2_eq)

lemma last_digits_mod: "last_digits p (n mod 10 ^ p) = last_digits p n"
proof (induction p arbitrary: n)
  case (Suc p)
  have "n mod 10 ^ Suc p div 10 = n div 10 mod 10 ^ p"
    using mod_mult2_eq [of n 10 "10 ^ p"] by simp
  moreover have "digit (n mod 10 ^ Suc p) = digit n"
    by (simp add: digit_def mod_mod_cancel)
  ultimately show ?case
    using Suc.IH [of "n div 10"] by simp
qed simp

section \<open>The digit loops\<close>

lemma digits_length: "n < 10 ^ Suc k \<Longrightarrow> length (digits n) \<le> Suc k"
proof (induction k arbitrary: n)
  case (Suc k)
  then have "n div 10 < 10 ^ Suc k"
    by (simp add: less_mult_imp_div_less)
  with Suc.IH show ?case
    by (subst digits.simps) auto
qed (subst digits.simps; simp)

lemma whole_digits_text:
  assumes "length buf + length (digits n) \<le> PRINTF_FTOA_BUFFER_SIZE"
  shows "whole_digits (int n) buf = buf @ rev (digits n)"
  using assms
proof (induction n arbitrary: buf rule: digits.induct)
  case (1 n)
  have "int n mod 10 = int (n mod 10)"
    by (simp add: zmod_int)
  then have d: "word_of_int (48 + int n mod 10) = digit n"
    by (simp add: digit_def)
  show ?case
  proof (cases "n < 10")
    case True
    with "1.prems" d show ?thesis
      by (subst whole_digits.simps, subst digits.simps) (simp add: Let_def digits.simps [of n])
  next
    case False
    with "1.prems" have len: "length (buf @ [digit n]) + length (digits (n div 10)) \<le> PRINTF_FTOA_BUFFER_SIZE"
        "length buf < PRINTF_FTOA_BUFFER_SIZE"
      by (simp_all add: digits.simps [of n])
    have "int n div 10 = int (n div 10)" "int n div 10 \<noteq> 0"
      using False by (simp_all add: zdiv_int)
    with "1.IH" [OF False len(1)] False len(2) d show ?thesis
      by (subst whole_digits.simps) (simp add: Let_def digits.simps [of n])
  qed
qed

lemma frac_digits_text:
  assumes "length buf + length (digits (unat u)) \<le> PRINTF_FTOA_BUFFER_SIZE"
  shows "frac_digits u count buf = (buf @ rev (digits (unat u)), count - of_nat (length (digits (unat u))))"
  using assms
proof (induction "unat u" arbitrary: u count buf rule: digits.induct)
  case 1
  have m: "unat (u mod 10) = unat u mod 10" "unat (u div 10) = unat u div 10"
    by (simp_all add: unat_mod_distrib unat_div_distrib)
  have "ucast (u mod 10) = (of_nat (unat (u mod 10)) :: u8)"
    by simp
  then have d: "48 + ucast (u mod 10) = digit (unat u)"
    by (simp add: digit_def m(1))
  show ?case
  proof (cases "unat u < 10")
    case True
    then have "u div 10 = 0"
      using m(2) by (metis div_less unat_eq_zero)
    with True "1.prems" d show ?thesis
      by (subst frac_digits.simps) (simp add: Let_def digits.simps [of "unat u"])
  next
    case False
    with "1.prems" have len: "length (buf @ [digit (unat u)]) + length (digits (unat (u div 10))) \<le> PRINTF_FTOA_BUFFER_SIZE"
        "length buf < PRINTF_FTOA_BUFFER_SIZE"
      by (simp_all add: digits.simps [of "unat u"] m(2))
    have "u div 10 \<noteq> 0"
      using False m(2) by auto
    with "1.hyps" [OF False m(2) [symmetric] len(1), of "count - 1"] False len(2) d show ?thesis
      by (subst frac_digits.simps) (simp add: Let_def digits.simps [of "unat u"] m(2))
  qed
qed

lemma last_digits_digits:
  assumes "n < 10 ^ p" "0 < p"
  shows "last_digits p n = replicate (p - length (digits n)) (ch CHR ''0'') @ digits n"
  using assms
proof (induction p arbitrary: n)
  case (Suc p)
  show ?case
  proof (cases "n < 10")
    case True
    then show ?thesis
      by (simp add: last_digits_0 digits.simps [of n])
  next
    case False
    with Suc.prems have "n div 10 < 10 ^ p" "0 < p"
      by (auto simp: less_mult_imp_div_less gr0_conv_Suc) (cases p; simp)
    from Suc.IH [OF this] False show ?thesis
      by (simp add: digits.simps [of n])
  qed
qed simp

lemma ftoa_fraction_text:
  assumes "unat u < 10 ^ unat p" "0 < p" "p < 10"
  shows "ftoa_fraction u p [] = rev (ch CHR ''.'' # last_digits (unat p) (unat u))"
proof -
  let ?n = "unat u" and ?l = "length (digits (unat u))"
  have p: "0 < unat p" "unat p < 10"
    using assms(2,3) by (simp_all add: word_less_nat_alt)
  then obtain k where k: "unat p = Suc k"
    by (cases "unat p") auto
  have l: "?l \<le> unat p"
    using digits_length [of ?n k] assms(1) k by simp
  have c: "unat (p - of_nat ?l) = unat p - ?l"
    using l p by (simp add: unat_sub word_le_nat_alt unat_of_nat)
  have "frac_digits u p [] = (rev (digits ?n), p - of_nat ?l)"
    using frac_digits_text [of "[]" u p] l p by (simp add: PRINTF_FTOA_BUFFER_SIZE_def)
  then have "ftoa_fraction u p [] = rev (digits ?n) @ replicate (unat p - ?l) (ch CHR ''0'') @ [ch CHR ''.'']"
    using l p by (simp add: ftoa_fraction_def ftoa_zeros_def ftoa_push_def c PRINTF_FTOA_BUFFER_SIZE_def min_def)
  then show ?thesis
    using last_digits_digits [OF assms(1) p(1)] by simp
qed

text \<open>A fraction that has been rounded up to one more digit than there is room for.\<close>

lemma digits_power: "digits (10 ^ p) = 49 # replicate p (ch CHR ''0'')"
proof (induction p)
  case (Suc p)
  have "digits (10 ^ Suc p) = digits (10 ^ p) @ [digit (10 ^ Suc p)]"
    by (subst digits.simps) simp
  with Suc show ?case
    by (simp add: digit_def replicate_append_same)
qed (simp add: digits.simps digit_def)

lemma ftoa_fraction_carry:
  assumes "unat u = 10 ^ unat p" "0 < p" "p < 10"
  shows "ftoa_fraction u p [] =
    rev (replicate (31 - unat p) (ch CHR ''0'') @ [49] @ replicate (unat p) (ch CHR ''0''))"
proof -
  have p: "0 < unat p" "unat p < 10"
    using assms(2,3) by (simp_all add: word_less_nat_alt)
  have "frac_digits u p [] = (rev (digits (10 ^ unat p)), p - of_nat (Suc (unat p)))"
    using frac_digits_text [of "[]" u p] p assms(1) by (simp add: PRINTF_FTOA_BUFFER_SIZE_def digits_power)
  moreover have "p - of_nat (Suc (unat p)) = - 1"
    by simp
  ultimately show ?thesis
    using p by (simp add: ftoa_fraction_def ftoa_zeros_def ftoa_push_def PRINTF_FTOA_BUFFER_SIZE_def digits_power
        unsigned_minus_1_eq_mask min_def mask_eq_exp_minus_1)
qed

section \<open>Rounding\<close>

text \<open>The fractional part of a number is exact.\<close>

lemma frac_exact:
  assumes "is_finite d" "0 \<le> val d"
  shows "rounded (val d - of_int \<lfloor>val d\<rfloor>) = val d - of_int \<lfloor>val d\<rfloor>" "val d - of_int \<lfloor>val d\<rfloor> \<le> 1 - two_to (- 53)"
proof -
  obtain k e where k: "val d = of_int k * two_to e" "\<bar>k\<bar> < 2 ^ 53" "- 1074 \<le> e" "e \<le> 971"
    by (rule finite_val [OF assms(1)])
  let ?w = "\<lfloor>val d\<rfloor>"
  have "rounded (val d - of_int ?w) = val d - of_int ?w \<and> val d - of_int ?w \<le> 1 - two_to (- 53)"
  proof (cases "0 \<le> e")
    case True
    then have "val d = of_int (k * 2 ^ nat e)"
      by (simp add: k(1) two_to_def)
    then have "val d - of_int ?w = 0"
      by (metis floor_of_int cancel_comm_monoid_add_class.diff_cancel)
    then show ?thesis
      by (simp add: two_to_def)
  next
    case False
    define m where "m = nat (- e)"
    then have e: "e = - int m" "0 < m"
      using False by auto
    have t: "two_to e = 1 / 2 ^ m"
      using e by (simp add: two_to_def)
    let ?j = "k - ?w * 2 ^ m"
    have j: "val d - of_int ?w = of_int ?j * two_to e"
      by (simp add: k(1) t diff_divide_distrib)
    have k0: "0 \<le> k"
      using assms(2) two_to_pos [of e] by (simp add: k(1) zero_le_mult_iff not_le [symmetric])
    have "0 \<le> of_int ?j * two_to e" and lt: "of_int ?j * two_to e < 1"
      unfolding j [symmetric] by linarith+
    then have "\<not> (of_int ?j :: rat) < 0"
      using mult_neg_pos [OF _ two_to_pos [of e]] by fastforce
    then have j0: "0 \<le> ?j" "(of_int ?j :: rat) < 2 ^ m"
      using lt by (simp_all only: t of_int_less_0_iff not_less) (simp add: pos_divide_less_eq)
    then have j2: "?j < 2 ^ m"
      using of_int_less_iff [of ?j "2 ^ m", where 'a = rat] by simp
    have "0 \<le> ?w"
      using assms(2) by simp
    then have j1: "?j \<le> k"
      by simp
    have j53: "\<bar>?j\<bar> < 2 ^ 53"
      using j0(1) j1 k(2) k0 by simp
    have "of_int ?j * two_to e \<le> 1 - two_to (- 53)"
    proof (cases "m \<le> 53")
      case True
      have "(of_int ?j :: rat) \<le> 2 ^ m - 1"
        using j2 of_int_le_iff [of ?j "2 ^ m - 1", where 'a = rat] by simp
      then have "of_int ?j * two_to e \<le> (2 ^ m - 1) * two_to e"
        by (intro mult_right_mono) simp_all
      also have "\<dots> = 1 - two_to e"
        by (simp add: t diff_divide_distrib)
      also have "\<dots> \<le> 1 - two_to (- 53)"
        using True e two_to_mono [of "- 53" e] by simp
      finally show ?thesis .
    next
      case False
      have "(of_int ?j :: rat) \<le> 2 ^ 53"
        using j53 of_int_le_iff [of ?j "2 ^ 53", where 'a = rat] j0(1) by simp
      moreover have "two_to e \<le> two_to (- 54)"
        using False e by (intro two_to_mono) simp
      ultimately have "of_int ?j * two_to e \<le> 2 ^ 53 * two_to (- 54)"
        using j0(1) by (intro mult_mono) simp_all
      then show ?thesis
        by (simp add: two_to_def)
    qed
    with rounded_exact_less [OF j53 k(3)] show ?thesis
      unfolding j by blast
  qed
  then show "rounded (val d - of_int ?w) = val d - of_int ?w" "val d - of_int ?w \<le> 1 - two_to (- 53)"
    by blast+
qed

lemma pow10_val: "p < 10 \<Longrightarrow> \<exists>t. pow10 p = Inr t \<and> is_finite t \<and> val t = 10 ^ unat p"
proof -
  assume "p < 10"
  then have "unat p < 10"
    by (simp add: word_less_nat_alt)
  then have "(10 ^ unat p :: int) \<le> 10 ^ 10"
    by (intro power_increasing) simp_all
  moreover have "(10 ^ unat p :: rat) \<le> 10 ^ 20"
    using \<open>unat p < 10\<close> by (intro power_increasing) simp_all
  ultimately show ?thesis
    using literal_val [of "10 ^ unat p"] rounded_int [of "10 ^ unat p"] \<open>p < 10\<close> by (auto simp: pow10_def)
qed

text \<open>The fraction in units of the last digit, as \<open>_ftoa\<close> computes it.\<close>

definition scaled :: "rat \<Rightarrow> nat \<Rightarrow> rat" where
  "scaled v p = rounded ((v - of_int \<lfloor>v\<rfloor>) * 10 ^ p)"

lemma scaled_bounds:
  assumes "is_finite d" "0 \<le> val d" "p < 10"
  shows "0 \<le> scaled (val d) p" "scaled (val d) p < 10 ^ p" "\<bar>scaled (val d) p - (val d - of_int \<lfloor>val d\<rfloor>) * 10 ^ p\<bar> \<le> 1 / 2 ^ 23"
proof -
  let ?x = "val d - of_int \<lfloor>val d\<rfloor>" and ?t = "10 ^ p :: rat"
  have x: "0 \<le> ?x" "?x \<le> 1 - two_to (- 53)"
    using frac_exact(2) [OF assms(1,2)] by linarith+
  have t: "1 \<le> ?t" "?t \<le> 10 ^ 9"
    using assms(3) power_increasing [of p 9 "10 :: rat"] by simp_all
  have y: "0 \<le> ?x * ?t" "?x * ?t \<le> (1 - two_to (- 53)) * ?t"
    using x t by (simp_all add: mult_right_mono)
  show "0 \<le> scaled (val d) p"
    unfolding scaled_def using y by (intro rounded_sign(1)) simp
  have e: "\<bar>scaled (val d) p - ?x * ?t\<bar> \<le> ?x * ?t * two_to (- 53) + two_to (- 1075)"
    using rounded_error [of "?x * ?t"] y by (simp add: scaled_def)
  have tiny: "two_to (- 1075) < two_to (- 106)"
    by (rule two_to_strict_mono) simp
  have "?x * ?t * (1 + two_to (- 53)) \<le> (1 - two_to (- 53)) * ?t * (1 + two_to (- 53))"
    using y by (intro mult_right_mono) simp_all
  also have "\<dots> = ?t - ?t * two_to (- 106)"
    using two_to_add [of "- 53" "- 53"] by (simp add: algebra_simps)
  finally have "?x * ?t + ?x * ?t * two_to (- 53) \<le> ?t - ?t * two_to (- 106)"
    by (simp only: ring_distribs mult_1_right)
  moreover have "1 * two_to (- 106) \<le> ?t * two_to (- 106)"
    using t by (intro mult_right_mono) simp_all
  ultimately show "scaled (val d) p < ?t"
    using e tiny by linarith
  have "?x \<le> 1"
    using x(2) two_to_nonneg [of "- 53"] by linarith
  then have "?x * ?t \<le> 10 ^ 9"
    using x(1) t mult_mono [of ?x 1 ?t "10 ^ 9"] by simp
  then have "?x * ?t * two_to (- 53) \<le> 10 ^ 9 * two_to (- 53)"
    by (intro mult_right_mono) simp_all
  then show "\<bar>scaled (val d) p - ?x * ?t\<bar> \<le> 1 / 2 ^ 23"
    using e tiny by (simp add: two_to_def)
qed

lemma literal_half: "is_finite (literal 0.5)" "val (literal 0.5) = 1 / 2"
proof -
  have "rounded (1 / 2) = 1 / 2"
    using rounded_exact_less [of 1 "- 1"] by (simp add: two_to_def)
  then show "is_finite (literal 0.5)" "val (literal 0.5) = 1 / 2"
    using literal_val [of "0.5"] by simp_all
qed

definition nearest_units :: "int \<Rightarrow> rat \<Rightarrow> nat \<Rightarrow> int \<times> int" where
  "nearest_units w y p =
    (let n = \<lfloor>y\<rfloor>; r = y - of_int n
     in if 1 / 2 < r then (if 10 ^ p \<le> n + 1 then (w + 1, 0) else (w, n + 1))
        else if r < 1 / 2 then (w, n)
        else if n = 0 \<or> odd n then (w, n + 1) else (w, n))"

lemma split_round_val:
  assumes "is_finite d" "0 \<le> val d" "val d \<le> 1000000000" "p < 10"
  shows "split_round d p = Inr (map_prod id word_of_int (nearest_units \<lfloor>val d\<rfloor> (scaled (val d) (unat p)) (unat p)))"
proof -
  let ?w = "\<lfloor>val d\<rfloor>"
  define y where "y = scaled (val d) (unat p)"
  define n where "n = \<lfloor>y\<rfloor>"
  have p: "unat p < 10"
    using assms(4) by (simp add: word_less_nat_alt)
  have w: "0 \<le> ?w" "?w \<le> 1000000000"
    using assms(2,3) floor_mono [OF assms(3)] by simp_all
  have whole: "to_int d = Inr ?w"
    using to_int_val [OF assms(1)] assms(2,3) by (simp add: truncate_def)
  have W: "is_finite (of_integer ?w)" "val (of_integer ?w) = of_int ?w"
    using of_integer_val [of ?w] w by simp_all
  have x: "0 \<le> val d - of_int ?w" "val d - of_int ?w < 1"
    by linarith+
  then have X: "is_finite (fsub d (of_integer ?w))" "val (fsub d (of_integer ?w)) = val d - of_int ?w"
    using fsub_val [OF assms(1) W(1)] moderate [of "val d - of_int ?w"] frac_exact(1) [OF assms(1,2)] W(2) by auto
  obtain t where t: "pow10 p = Inr t" "is_finite t" "val t = 10 ^ unat p"
    using pow10_val [OF assms(4)] by blast
  have t9: "(10 ^ unat p :: rat) \<le> 10 ^ 9"
    using p power_increasing [of "unat p" 9 "10 :: rat"] by simp
  have "\<bar>(val d - of_int ?w) * 10 ^ unat p\<bar> \<le> 1 * 10 ^ 9"
    unfolding abs_mult using x t9 by (intro mult_mono) simp_all
  then have m: "\<bar>(val d - of_int ?w) * 10 ^ unat p\<bar> \<le> max_val"
    by (intro moderate) simp
  define tmp where "tmp = fmul (fsub d (of_integer ?w)) t"
  have tmp: "is_finite tmp" "val tmp = y"
    using fmul_val [OF X(1) t(2)] m X(2) t(3) by (simp_all add: tmp_def y_def scaled_def)
  have y: "0 \<le> y" "y < 10 ^ unat p"
    using scaled_bounds(1,2) [OF assms(1,2) p] by (simp_all add: y_def)
  then have n: "0 \<le> n" "n < 2 ^ 40"
    using t9 floor_mono [of y "10 ^ 9"] by (simp_all add: n_def)
  have units: "to_ulong tmp = Inr (word_of_int n)"
    using tmp n y by (simp add: to_ulong_def truncate_def n_def [symmetric])
  have u: "uint (word_of_int n :: u64) = n" "uint (word_of_int n + 1 :: u64) = n + 1"
    using n by (simp_all add: uint_word_of_int_eq take_bit_int_eq_self uint_plus_if')
  have N: "is_finite (of_integer n)" "val (of_integer n) = of_int n" "is_finite (of_integer (n + 1))" "val (of_integer (n + 1)) = of_int (n + 1)"
    using of_integer_val [of n] of_integer_val [of "n + 1"] n by auto
  have "0 \<le> y - of_int n" "y - of_int n \<le> 1"
    unfolding n_def by linarith+
  then have "\<bar>y - of_int n\<bar> \<le> max_val"
    by (intro moderate) simp
  then have diff: "is_finite (fsub tmp (of_integer n))" "val (fsub tmp (of_integer n)) = y - of_int n"
    using fsub_val [OF tmp(1) N(1)] frac_exact(1) [OF tmp(1)] y(1) tmp(2) N(2) by (simp_all add: n_def)
  have ge: "fge (of_integer (n + 1)) t \<longleftrightarrow> 10 ^ unat p \<le> n + 1"
    using fge_val [OF N(3) t(2)] N(4) t(3) of_int_le_iff [of "10 ^ unat p" "n + 1", where 'a = rat] by simp
  have zero: "(word_of_int n :: u64) = 0 \<longleftrightarrow> n = 0"
    using u(1) by (metis uint_0_iff word_of_int_0)
  have odd: "(word_of_int n :: u64) AND 1 \<noteq> 0 \<longleftrightarrow> odd n"
    using bit_word_of_int_iff [of n 0, where 'a = 64] by (simp add: and_one_eq mod2_eq_if bit_0)
  show ?thesis
    unfolding split_round_def whole t(1) bindR_Inr Let_def tmp_def [symmetric] units u
    by (simp only: flt_val [OF literal_half(1) diff(1)] flt_val [OF diff(1) literal_half(1)] diff(2) literal_half(2) ge zero odd
        nearest_units_def Let_def y_def [symmetric] n_def [symmetric] if_distrib [of Inr] if_distrib [of "map_prod id word_of_int"]
        map_prod_simp id_apply word_of_int_0 wi_hom_add [symmetric] word_of_int_1)
qed

text \<open>The numeral that is printed, and how far it is from the number. A tie at the last unit
  below one is excluded: \<open>_ftoa\<close> rounds it up without carrying.\<close>

definition half_carry :: "rat \<Rightarrow> nat \<Rightarrow> bool" where
  "half_carry v p \<longleftrightarrow> 0 < p \<and> scaled v p = 10 ^ p - 1 / 2"

lemma nearest_units_bound:
  assumes "0 \<le> y" "y < 10 ^ p" "y \<noteq> 10 ^ p - 1 / 2" "nearest_units w y p = (w', n')"
  shows "0 \<le> n'" "n' < 10 ^ p" "w \<le> w'" "w' \<le> w + 1" "\<bar>of_int (w' * 10 ^ p + n') - (of_int w * 10 ^ p + y)\<bar> \<le> 1 / 2"
proof -
  let ?n = "\<lfloor>y\<rfloor>"
  have n: "0 \<le> ?n" "?n < 10 ^ p"
    using assms(1,2) by (simp_all add: floor_less_iff)
  have r: "of_int ?n \<le> y" "y < of_int ?n + 1"
    by linarith+
  have last: "?n + 1 < 10 ^ p" if "y - of_int ?n = 1 / 2"
  proof (rule ccontr)
    assume "\<not> ?n + 1 < 10 ^ p"
    with n(2) have "?n = 10 ^ p - 1"
      by simp
    then have "of_int ?n = (10 ^ p - 1 :: rat)"
      by simp
    with that assms(3) show False
      by simp
  qed
  have carry: "(10 ^ p :: rat) = of_int ?n + 1" if "10 ^ p \<le> ?n + 1"
  proof -
    from that n(2) have "10 ^ p = ?n + 1"
      by simp
    from arg_cong [OF this, of "of_int :: int \<Rightarrow> rat"] show ?thesis
      by simp
  qed
  have "0 \<le> n' \<and> n' < 10 ^ p \<and> w \<le> w' \<and> w' \<le> w + 1 \<and> \<bar>of_int (w' * 10 ^ p + n') - (of_int w * 10 ^ p + y)\<bar> \<le> 1 / 2"
    using assms(4) n r last carry
    by (auto simp: nearest_units_def Let_def abs_le_iff algebra_simps split: if_splits)
  then show "0 \<le> n'" "n' < 10 ^ p" "w \<le> w'" "w' \<le> w + 1" "\<bar>of_int (w' * 10 ^ p + n') - (of_int w * 10 ^ p + y)\<bar> \<le> 1 / 2"
    by blast+
qed

lemma round_whole_val:
  assumes "is_finite d" "0 \<le> val d" "val d \<le> 1000000000"
  shows "round_whole d \<lfloor>val d\<rfloor> = (if val d - of_int \<lfloor>val d\<rfloor> \<noteq> 1 / 2 \<and> val d - of_int \<lfloor>val d\<rfloor> < 1 / 2 \<or> even \<lfloor>val d\<rfloor>
      then \<lfloor>val d\<rfloor> else \<lfloor>val d\<rfloor> + 1)"
    "round_whole d (\<lfloor>val d\<rfloor> + 1) = \<lfloor>val d\<rfloor> + 1"
proof -
  let ?w = "\<lfloor>val d\<rfloor>"
  have w: "0 \<le> ?w" "?w \<le> 1000000000"
    using assms(2,3) floor_mono [OF assms(3)] by simp_all
  have W: "is_finite (of_integer ?w)" "val (of_integer ?w) = of_int ?w"
      "is_finite (of_integer (?w + 1))" "val (of_integer (?w + 1)) = of_int ?w + 1"
    using of_integer_val [of ?w] of_integer_val [of "?w + 1"] w by auto
  have x: "0 \<le> val d - of_int ?w" "val d - of_int ?w < 1"
    by linarith+
  have X: "is_finite (fsub d (of_integer ?w))" "val (fsub d (of_integer ?w)) = val d - of_int ?w"
    using fsub_val [OF assms(1) W(1)] moderate [of "val d - of_int ?w"] frac_exact(1) [OF assms(1,2)] W(2) x by auto
  have "\<bar>val d - (of_int ?w + 1)\<bar> \<le> max_val"
    by (rule near(1)) (use x in linarith)+
  then have Y: "is_finite (fsub d (of_integer (?w + 1)))" "val (fsub d (of_integer (?w + 1))) \<le> 0"
    using fsub_val [OF assms(1) W(3)] W(4) rounded_sign(2) [of "val d - (of_int ?w + 1)"] x by simp_all
  show "round_whole d ?w = (if val d - of_int ?w \<noteq> 1 / 2 \<and> val d - of_int ?w < 1 / 2 \<or> even ?w then ?w else ?w + 1)"
    unfolding round_whole_def Let_def flt_val [OF X(1) literal_half(1)] flt_val [OF literal_half(1) X(1)] X(2) literal_half(2)
    by auto
  show "round_whole d (?w + 1) = ?w + 1"
    unfolding round_whole_def Let_def flt_val [OF Y(1) literal_half(1)] flt_val [OF literal_half(1) Y(1)] literal_half(2)
    using Y(2) by simp
qed

lemma limit_precision_small: "p < 10 \<Longrightarrow> limit_precision p = ([], p)"
  by (simp add: limit_precision_def word_less_nat_alt)

lemma unat_word_of_int: "0 \<le> n \<Longrightarrow> n < 2 ^ 64 \<Longrightarrow> unat (word_of_int n :: u64) = nat n"
proof -
  assume "0 \<le> n" "n < 2 ^ 64"
  then have "uint (word_of_int n :: u64) = n"
    by (simp add: uint_word_of_int_eq take_bit_int_eq_self)
  then show ?thesis
    by (simp only: unat_eq_nat_uint)
qed

lemma ftoa_number_fraction:
  assumes "is_finite d" "0 \<le> val d" "val d \<le> 1000000000" "p < 10" "\<not> half_carry (val d) (unat p)" "p \<noteq> 0"
  shows "\<exists>N. ftoa_number d p = Inr (rev (decimal (unat p) N)) \<and>
    \<bar>of_nat N - val d * 10 ^ unat p\<bar> \<le> 1 / 2 + 1 / 2 ^ 23"
proof -
  let ?w = "\<lfloor>val d\<rfloor>" and ?y = "scaled (val d) (unat p)"
  have p: "unat p < 10" "0 < unat p"
    using assms(4,6) by (simp_all add: word_less_nat_alt unat_gt_0)
  obtain w n where wn: "nearest_units ?w ?y (unat p) = (w, n)"
    by (cases "nearest_units ?w ?y (unat p)")
  note y = scaled_bounds [OF assms(1,2) p(1)]
  have "?y \<noteq> 10 ^ unat p - 1 / 2"
    using assms(5) p(2) by (simp add: half_carry_def)
  note b = nearest_units_bound [OF y(1,2) this wn]
  have "0 \<le> ?w" "?w \<le> 1000000000"
    using assms(2,3) floor_mono [OF assms(3)] by simp_all
  then have w: "0 \<le> w" "w \<le> 1000000001"
    using b(3,4) by linarith+
  let ?N = "nat w * 10 ^ unat p + nat n"
  have n9: "nat n < 10 ^ unat p" "(10 :: nat) ^ unat p \<le> 10 ^ 9"
    using b(1,2) p(1) power_increasing [of "unat p" 9 "10 :: nat"] by (simp_all add: nat_less_iff)
  have u: "unat (word_of_int n :: u64) = nat n"
    using b(1,2) p(1) power_increasing [of "unat p" 9 "10 :: int"] by (intro unat_word_of_int) simp_all
  have "ftoa_number d p = Inr (whole_digits w (ftoa_fraction (word_of_int n) p []))"
    using split_round_val [OF assms(1-4)] wn assms(6) by (simp add: ftoa_number_def limit_precision_small assms(4))
  also have "ftoa_fraction (word_of_int n) p [] = rev (ch CHR ''.'' # last_digits (unat p) (nat n))"
    using ftoa_fraction_text [of "word_of_int n" p] u n9(1) assms(4,6) by (simp add: word_neq_0_conv)
  also have "whole_digits w \<dots> = rev (ch CHR ''.'' # last_digits (unat p) (nat n)) @ rev (digits (nat w))"
    using whole_digits_text [of _ "nat w"] digits_length [of "nat w" 9] w p
    by (simp add: PRINTF_FTOA_BUFFER_SIZE_def nat_less_iff)
  also have "\<dots> = rev (decimal (unat p) ?N)"
    using n9(1) p(2) last_digits_mod [of "unat p" ?N] by (simp add: decimal_def)
  finally have "ftoa_number d p = Inr (rev (decimal (unat p) ?N))" .
  moreover have "(of_nat ?N :: rat) = of_int (w * 10 ^ unat p + n)"
    using w(1) b(1) by simp
  moreover have "val d * 10 ^ unat p = of_int ?w * 10 ^ unat p + (val d - of_int ?w) * 10 ^ unat p"
    by (simp add: left_diff_distrib)
  ultimately show ?thesis
    using b(5) y(3) by (intro exI [of _ ?N]) linarith
qed

lemma ftoa_number_whole:
  assumes "is_finite d" "0 \<le> val d" "val d \<le> 1000000000"
  shows "\<exists>N. ftoa_number d 0 = Inr (rev (decimal 0 N)) \<and> \<bar>of_nat N - val d\<bar> \<le> 1 / 2"
proof -
  let ?w = "\<lfloor>val d\<rfloor>" and ?x = "val d - of_int \<lfloor>val d\<rfloor>"
  have w: "0 \<le> ?w" "?w \<le> 1000000000"
    using assms(2,3) floor_mono [OF assms(3)] by simp_all
  have x: "0 \<le> ?x" "?x < 1"
    by linarith+
  have "scaled (val d) 0 = ?x"
    using frac_exact(1) [OF assms(1,2)] by (simp add: scaled_def)
  moreover have "\<lfloor>?x\<rfloor> = 0"
    using x by (simp add: floor_eq_iff)
  ultimately have n: "fst (nearest_units ?w (scaled (val d) 0) 0) = (if 1 / 2 < ?x then ?w + 1 else ?w)"
    by (simp add: nearest_units_def)
  define N where "N = (if 1 / 2 < ?x \<or> ?x = 1 / 2 \<and> odd ?w then ?w + 1 else ?w)"
  then have N: "0 \<le> N" "N \<le> 1000000001"
    using w by simp_all
  have "ftoa_number d 0 = Inr (whole_digits (round_whole d (if 1 / 2 < ?x then ?w + 1 else ?w)) [])"
    using split_round_val [OF assms, of 0] n
    by (simp add: ftoa_number_def limit_precision_small map_prod_def split_def)
  also have "round_whole d (if 1 / 2 < ?x then ?w + 1 else ?w) = N"
    unfolding N_def using round_whole_val [OF assms(1-3)] by auto
  also have "whole_digits N [] = rev (decimal 0 (nat N))"
    using whole_digits_text [of "[]" "nat N"] digits_length [of "nat N" 9] N
    by (simp add: decimal_def PRINTF_FTOA_BUFFER_SIZE_def nat_less_iff)
  finally have "ftoa_number d 0 = Inr (rev (decimal 0 (nat N)))" .
  moreover have "\<bar>of_nat (nat N) - val d\<bar> \<le> 1 / 2"
    using x w(1) by (auto simp: N_def abs_le_iff)
  ultimately show ?thesis
    by (intro exI [of _ "nat N"]) auto
qed

lemma ftoa_number_text:
  assumes "is_finite d" "0 \<le> val d" "val d \<le> 1000000000" "p < 10" "\<not> half_carry (val d) (unat p)"
  shows "\<exists>N. ftoa_number d p = Inr (rev (decimal (unat p) N)) \<and>
    \<bar>of_nat N - val d * 10 ^ unat p\<bar> \<le> 1 / 2 + 1 / 2 ^ 23"
proof (cases "p = 0")
  case True
  obtain N where "ftoa_number d 0 = Inr (rev (decimal 0 N))" "\<bar>of_nat N - val d\<bar> \<le> 1 / 2"
    using ftoa_number_whole [OF assms(1-3)] by blast
  with True show ?thesis
    by (intro exI [of _ N]) simp
qed (rule ftoa_number_fraction [OF assms])

text \<open>A tie at the last unit below one fills the array with zeros in front of the carried digit, and
  no room is left for the point, the integral part and the sign.\<close>

definition carry_text :: "nat \<Rightarrow> u8 list" where
  "carry_text p = replicate (31 - p) (ch CHR ''0'') @ [ch CHR ''1''] @ replicate p (ch CHR ''0'')"

lemma length_carry_text: "p < 10 \<Longrightarrow> length (carry_text p) = PRINTF_FTOA_BUFFER_SIZE"
  by (simp add: carry_text_def PRINTF_FTOA_BUFFER_SIZE_def)

lemma ftoa_number_carry:
  assumes "is_finite d" "0 \<le> val d" "val d \<le> 1000000000" "p < 10" "half_carry (val d) (unat p)"
  shows "ftoa_number d p = Inr (rev (carry_text (unat p)))"
proof -
  have p: "unat p < 10" "0 < unat p" "p \<noteq> 0"
    using assms(4,5) by (auto simp: word_less_nat_alt half_carry_def)
  have y: "scaled (val d) (unat p) = of_int (10 ^ unat p - 1) + 1 / 2"
    using assms(5) by (simp add: half_carry_def)
  have "\<lfloor>scaled (val d) (unat p)\<rfloor> = 10 ^ unat p - 1"
    unfolding y by (simp add: floor_eq_iff)
  moreover have "odd (10 ^ unat p - 1 :: int)"
    using p(2) by simp
  ultimately have n: "nearest_units w (scaled (val d) (unat p)) (unat p) = (w, 10 ^ unat p)" for w
    using y by (simp add: nearest_units_def)
  have "(10 :: int) ^ unat p \<le> 10 ^ 9"
    using p(1) by (intro power_increasing) simp_all
  then have "unat (word_of_int (10 ^ unat p) :: u64) = 10 ^ unat p"
    by (subst unat_word_of_int) (simp_all add: nat_power_eq)
  from ftoa_fraction_carry [OF this _ assms(4)] p(3)
  have f: "ftoa_fraction (word_of_int (10 ^ unat p)) p [] = rev (carry_text (unat p))"
    by (simp add: carry_text_def word_neq_0_conv)
  have "whole_digits w (rev (carry_text (unat p))) = rev (carry_text (unat p))" for w
    using length_carry_text [OF p(1)] by (subst whole_digits.simps) simp
  with split_round_val [OF assms(1-4)] n p(3) f show ?thesis
    by (simp add: ftoa_number_def limit_precision_small assms(4))
qed

section \<open>The text of a number with a given precision\<close>

lemma decimal_length: "n < 10 ^ 10 * 10 ^ p \<Longrightarrow> p < 10 \<Longrightarrow> length (decimal p n) \<le> 20"
  using digits_length [of "n div 10 ^ p" 9] by (cases p) (simp_all add: decimal_def less_mult_imp_div_less)

lemma magnitude_val:
  assumes "is_finite d"
  shows "flt d 0 \<longleftrightarrow> val d < 0" "is_finite (if flt d 0 then fsub 0 d else d)"
    "val (if flt d 0 then fsub 0 d else d) = \<bar>val d\<bar>"
proof -
  show lt: "flt d 0 \<longleftrightarrow> val d < 0"
    by (simp add: flt_val assms)
  have "is_finite (fsub 0 d) \<and> val (fsub 0 d) = - val d"
    using fsub_val [of 0 d] finite_max_val [OF assms] rounded_val [of "fneg d"] assms by simp
  then show "is_finite (if flt d 0 then fsub 0 d else d)" "val (if flt d 0 then fsub 0 d else d) = \<bar>val d\<bar>"
    using assms lt by auto
qed

definition sign_text :: "double \<Rightarrow> u8 list" where
  "sign_text d = (if val d < 0 then [ch CHR ''-''] else [])"

lemma no_flags: "\<not> has FLAGS_PRECISION FLAGS_LEFT" "\<not> has FLAGS_PRECISION FLAGS_ZEROPAD" "\<not> has FLAGS_PRECISION FLAGS_PLUS"
  "\<not> has FLAGS_PRECISION FLAGS_SPACE" "has FLAGS_PRECISION FLAGS_PRECISION"
  by (simp_all add: has_def FLAGS_PRECISION_def FLAGS_LEFT_def FLAGS_ZEROPAD_def FLAGS_PLUS_def FLAGS_SPACE_def)

lemma ftoa_text_moderate:
  assumes "is_finite d" "\<bar>val d\<bar> \<le> 1000000000"
  shows "ftoa_text d p width flags = fixed_text d p width flags"
proof -
  have "\<not> special d" "\<not> large d"
    using assms by (simp_all add: special_iff large_iff)
  then show ?thesis
    by (simp add: ftoa_text_def small_text_def special_def)
qed

lemma fixed_text_precision:
  assumes "is_finite d"
  shows "fixed_text d p 0 FLAGS_PRECISION =
    bindR (ftoa_number (if flt d 0 then fsub 0 d else d) p) (\<lambda>buf.
      Inr (rev (if val d < 0 then ftoa_push (ch CHR ''-'') buf else buf)))"
  by (simp add: fixed_text_def no_flags ftoa_pad_def ftoa_sign_def rev_text_def magnitude_val(1) [OF assms] Let_def)

lemma ftoa_text_decimal:
  assumes "is_finite d" "\<bar>val d\<bar> \<le> 1000000000" "p < 10" "\<not> half_carry \<bar>val d\<bar> (unat p)"
  shows "\<exists>N. ftoa_text d p 0 FLAGS_PRECISION = Inr (sign_text d @ decimal (unat p) N) \<and>
    \<bar>of_nat N - \<bar>val d\<bar> * 10 ^ unat p\<bar> \<le> 1 / 2 + 1 / 2 ^ 23"
proof -
  note m = magnitude_val [OF assms(1)]
  obtain N where N: "ftoa_number (if flt d 0 then fsub 0 d else d) p = Inr (rev (decimal (unat p) N))"
      "\<bar>of_nat N - \<bar>val d\<bar> * 10 ^ unat p\<bar> \<le> 1 / 2 + 1 / 2 ^ 23"
    using ftoa_number_text [OF m(2) _ _ assms(3)] assms(2,4) unfolding m(3) by auto
  have p: "unat p < 10"
    using assms(3) by (simp add: word_less_nat_alt)
  have "\<bar>val d\<bar> * 10 ^ unat p \<le> 1000000000 * 10 ^ unat p"
    using assms(2) by (intro mult_right_mono) simp_all
  moreover have "(1 :: rat) \<le> 10 ^ unat p"
    by simp
  moreover have "\<bar>of_nat N - \<bar>val d\<bar> * 10 ^ unat p\<bar> \<le> 1"
    by (rule order_trans [OF N(2)]) simp
  ultimately have "(of_nat N :: rat) < 10000000000 * 10 ^ unat p"
    by linarith
  then have "(of_nat N :: rat) < of_nat (10 ^ 10 * 10 ^ unat p)"
    by simp
  then have "length (decimal (unat p) N) \<le> 20"
    by (intro decimal_length p) (simp only: of_nat_less_iff)
  with N show ?thesis
    by (intro exI [of _ N]) (simp add: ftoa_text_moderate assms fixed_text_precision sign_text_def ftoa_push_def
        PRINTF_FTOA_BUFFER_SIZE_def)
qed

lemma ftoa_text_carry:
  assumes "is_finite d" "\<bar>val d\<bar> \<le> 1000000000" "p < 10" "half_carry \<bar>val d\<bar> (unat p)"
  shows "ftoa_text d p 0 FLAGS_PRECISION = Inr (carry_text (unat p))"
proof -
  note m = magnitude_val [OF assms(1)]
  have "unat p < 10"
    using assms(3) by (simp add: word_less_nat_alt)
  note len = length_carry_text [OF this]
  have "ftoa_number (if flt d 0 then fsub 0 d else d) p = Inr (rev (carry_text (unat p)))"
    using ftoa_number_carry [OF m(2) _ _ assms(3)] assms(2,4) unfolding m(3) by simp
  then show ?thesis
    by (simp add: ftoa_text_moderate assms fixed_text_precision ftoa_push_def len)
qed

end
