(* ===== verification/Gdb_Printf.thy ===== *)
theory Gdb_Printf
  imports Gdb_Decimal
begin

unbundle bit_operations_syntax

text \<open>
  The upper half of \<open>src/printf.c\<close>: the format interpreter, the conversions of arguments and the
  output functions that the library exports. \<open>format_text\<close> is what a format and its arguments say,
  as text; the locale \<open>sink\<close> states what an output function has to do with the position it is
  given, and relates what every sink receives to that text.
\<close>

section \<open>Reading the format\<close>

definition is_digit :: "u8 \<Rightarrow> bool" where
  "is_digit c \<longleftrightarrow> ch CHR ''0'' \<le> c \<and> c \<le> ch CHR ''9''"

fun atoi :: "cptr \<Rightarrow> u32 \<Rightarrow> (cptr \<times> u32) res" where
  "atoi [] i = Inl OutOfBounds"
| "atoi (c # s) i = (if is_digit c then atoi s (i * 10 + (ucast c - 48)) else Inr (c # s, i))"

fun strnlen_s :: "cptr \<Rightarrow> nat \<Rightarrow> nat res" where
  "strnlen_s [] n = Inl OutOfBounds"
| "strnlen_s (c # s) n = (if c = 0 then Inr 0 else case n of 0 \<Rightarrow> Inr 0 | Suc m \<Rightarrow>
     bindR (strnlen_s s m) (\<lambda>l. Inr (Suc l)))"

text \<open>
  Variable arguments: an integer occupies a slot of 64 bits, of which \<open>va_arg\<close> for \<open>int\<close>
  reads the low half.
\<close>

datatype va = Slot u64 | Ptr cptr | Dbl u64

fun va_slot :: "va list \<Rightarrow> (u64 \<times> va list) res" where
  "va_slot (Slot w # args) = Inr (w, args)"
| "va_slot _ = Inl OutOfBounds"

fun va_ptr :: "va list \<Rightarrow> (cptr \<times> va list) res" where
  "va_ptr (Ptr p # args) = Inr (p, args)"
| "va_ptr _ = Inl OutOfBounds"

fun va_dbl :: "va list \<Rightarrow> (u64 \<times> va list) res" where
  "va_dbl (Dbl d # args) = Inr (d, args)"
| "va_dbl _ = Inl OutOfBounds"

fun read_flags :: "cptr \<Rightarrow> u32 \<Rightarrow> (cptr \<times> u32) res" where
  "read_flags [] flags = Inl OutOfBounds"
| "read_flags (c # s) flags =
     (if c = ch CHR ''0'' then read_flags s (flags OR FLAGS_ZEROPAD)
      else if c = ch CHR ''-'' then read_flags s (flags OR FLAGS_LEFT)
      else if c = ch CHR ''+'' then read_flags s (flags OR FLAGS_PLUS)
      else if c = ch CHR '' '' then read_flags s (flags OR FLAGS_SPACE)
      else if c = ch CHR ''#'' then read_flags s (flags OR FLAGS_HASH)
      else Inr (c # s, flags))"

definition read_width :: "cptr \<Rightarrow> u32 \<Rightarrow> va list \<Rightarrow> (cptr \<times> u32 \<times> u32 \<times> va list) res" where
  "read_width s flags args =
    (case s of [] \<Rightarrow> Inl OutOfBounds | c # s' \<Rightarrow>
       if is_digit c then bindR (atoi s 0) (\<lambda>(s1, width). Inr (s1, flags, width, args))
       else if c = ch CHR ''*''
       then bindR (va_slot args) (\<lambda>(w, args').
         let w = ucast w :: u32
         in if sint w < 0
            then (if w = 0x80000000 then Inl IntOverflow else Inr (s', flags OR FLAGS_LEFT, - w, args'))
            else Inr (s', flags, w, args'))
       else Inr (s, flags, 0, args))"

definition read_precision :: "cptr \<Rightarrow> u32 \<Rightarrow> va list \<Rightarrow> (cptr \<times> u32 \<times> u32 \<times> va list) res" where
  "read_precision s flags args =
    (case s of [] \<Rightarrow> Inl OutOfBounds | c # s' \<Rightarrow>
       if c = ch CHR ''.''
       then (let flags = flags OR FLAGS_PRECISION
             in case s' of [] \<Rightarrow> Inl OutOfBounds | d # s'' \<Rightarrow>
               if is_digit d then bindR (atoi s' 0) (\<lambda>(s1, p). Inr (s1, flags, p, args))
               else if d = ch CHR ''*''
               then bindR (va_slot args) (\<lambda>(w, args').
                 let prec = ucast w :: u32 in Inr (s'', flags, if sint prec > 0 then prec else 0, args'))
               else Inr (s', flags, 0, args))
       else Inr (s, flags, 0, args))"

text \<open>The pointer difference, \<open>intmax_t\<close> and \<open>size_t\<close> are as long as \<open>long\<close> on the target.\<close>

definition read_length :: "cptr \<Rightarrow> u32 \<Rightarrow> (cptr \<times> u32) res" where
  "read_length s flags =
    (case s of [] \<Rightarrow> Inl OutOfBounds | c # s' \<Rightarrow>
       if c = ch CHR ''l''
       then (case s' of [] \<Rightarrow> Inl OutOfBounds | d # s'' \<Rightarrow>
               if d = ch CHR ''l'' then Inr (s'', flags OR FLAGS_LONG OR FLAGS_LONG_LONG)
               else Inr (s', flags OR FLAGS_LONG))
       else if c = ch CHR ''h''
       then (case s' of [] \<Rightarrow> Inl OutOfBounds | d # s'' \<Rightarrow>
               if d = ch CHR ''h'' then Inr (s'', flags OR FLAGS_SHORT OR FLAGS_CHAR)
               else Inr (s', flags OR FLAGS_SHORT))
       else if c = ch CHR ''t'' \<or> c = ch CHR ''j'' \<or> c = ch CHR ''z'' then Inr (s', flags OR FLAGS_LONG)
       else Inr (s, flags))"

section \<open>Specifiers\<close>

text \<open>The base and the flags of an integer conversion.\<close>

definition int_base :: "u8 \<Rightarrow> u64" where
  "int_base c = (if c = ch CHR ''x'' \<or> c = ch CHR ''X'' then 16 else if c = ch CHR ''o'' then 8
     else if c = ch CHR ''b'' then 2 else 10)"

definition int_flags :: "u8 \<Rightarrow> u32 \<Rightarrow> u32" where
  "int_flags c flags =
    (let flags = (if int_base c = 10 then flags AND NOT FLAGS_HASH else flags);
         flags = (if c = ch CHR ''X'' then flags OR FLAGS_UPPERCASE else flags);
         flags = (if c \<noteq> ch CHR ''i'' \<and> c \<noteq> ch CHR ''d'' then flags AND NOT (FLAGS_PLUS OR FLAGS_SPACE) else flags)
     in if has flags FLAGS_PRECISION then flags AND NOT FLAGS_ZEROPAD else flags)"

text \<open>The magnitude of a signed value; the least value has none.\<close>

definition magnitude :: "'a::len word \<Rightarrow> u64 res" where
  "magnitude v = (if sint v = - (2 ^ (LENGTH('a) - 1)) then Inl IntOverflow
     else Inr (ucast (if sint v > 0 then v else 0 - v)))"

definition conv_signed ::
  "'s out \<Rightarrow> nat \<Rightarrow> nat \<Rightarrow> u64 \<Rightarrow> u64 \<Rightarrow> u32 \<Rightarrow> u32 \<Rightarrow> u32 \<Rightarrow> 's \<Rightarrow> (nat \<times> 's) res" where
  "conv_signed out idx maxlen w base prec width flags s =
    (if has flags FLAGS_LONG_LONG
     then bindR (magnitude w) (\<lambda>m. ntoa_long_long out idx maxlen m (sint w < 0) base prec width flags s)
     else if has flags FLAGS_LONG
     then bindR (magnitude w) (\<lambda>m. ntoa_long out idx maxlen m (sint w < 0) base prec width flags s)
     else (let v = (if has flags FLAGS_CHAR then ucast (ucast w :: u8)
                    else if has flags FLAGS_SHORT then scast (ucast w :: u16) else ucast w) :: u32
           in bindR (magnitude v) (\<lambda>m. ntoa_long out idx maxlen m (sint v < 0) base prec width flags s)))"

definition conv_unsigned ::
  "'s out \<Rightarrow> nat \<Rightarrow> nat \<Rightarrow> u64 \<Rightarrow> u64 \<Rightarrow> u32 \<Rightarrow> u32 \<Rightarrow> u32 \<Rightarrow> 's \<Rightarrow> (nat \<times> 's) res" where
  "conv_unsigned out idx maxlen w base prec width flags s =
    (if has flags FLAGS_LONG_LONG then ntoa_long_long out idx maxlen w False base prec width flags s
     else if has flags FLAGS_LONG then ntoa_long out idx maxlen w False base prec width flags s
     else (let v = (if has flags FLAGS_CHAR then ucast (ucast w :: u8)
                    else if has flags FLAGS_SHORT then ucast (ucast w :: u16) else ucast (ucast w :: u32)) :: u64
           in ntoa_long out idx maxlen v False base prec width flags s))"

definition conv_integer ::
  "'s out \<Rightarrow> u8 \<Rightarrow> nat \<Rightarrow> nat \<Rightarrow> u32 \<Rightarrow> u32 \<Rightarrow> u32 \<Rightarrow> va list \<Rightarrow> 's \<Rightarrow> (nat \<times> va list \<times> 's) res" where
  "conv_integer out c idx maxlen prec width flags args s =
    (let base = int_base c; flags = int_flags c flags
     in bindR (va_slot args) (\<lambda>(w, args').
        bindR (if c = ch CHR ''i'' \<or> c = ch CHR ''d''
               then conv_signed out idx maxlen w base prec width flags s
               else conv_unsigned out idx maxlen w base prec width flags s)
          (\<lambda>(idx', s'). Inr (idx', args', s'))))"

text \<open>Padding around a text that counts for \<open>l\<close> characters.\<close>

definition padded :: "'s out \<Rightarrow> u8 list \<Rightarrow> nat \<Rightarrow> nat \<Rightarrow> nat \<Rightarrow> u32 \<Rightarrow> u32 \<Rightarrow> 's \<Rightarrow> (nat \<times> 's) res" where
  "padded out cs l idx maxlen width flags s =
    (let pad = replicate (unat width - l) (ch CHR '' '')
     in bindR (if has flags FLAGS_LEFT then Inr (idx, s) else out_all out pad idx maxlen s) (\<lambda>(idx, s).
        bindR (out_all out cs idx maxlen s) (\<lambda>(idx, s).
        if has flags FLAGS_LEFT then out_all out pad idx maxlen s else Inr (idx, s))))"

definition conv_char ::
  "'s out \<Rightarrow> nat \<Rightarrow> nat \<Rightarrow> u32 \<Rightarrow> u32 \<Rightarrow> va list \<Rightarrow> 's \<Rightarrow> (nat \<times> va list \<times> 's) res" where
  "conv_char out idx maxlen width flags args s =
    bindR (va_slot args) (\<lambda>(w, args').
    bindR (padded out [ucast w] 1 idx maxlen width flags s) (\<lambda>(idx', s'). Inr (idx', args', s')))"

fun read_text :: "nat option \<Rightarrow> cptr \<Rightarrow> u8 list res" where
  "read_text bound [] = Inl OutOfBounds"
| "read_text bound (c # s) = (if c = 0 then Inr [] else case bound of
     None \<Rightarrow> bindR (read_text None s) (\<lambda>cs. Inr (c # cs))
   | Some 0 \<Rightarrow> Inr []
   | Some (Suc n) \<Rightarrow> bindR (read_text (Some n) s) (\<lambda>cs. Inr (c # cs)))"

definition conv_string ::
  "'s out \<Rightarrow> nat \<Rightarrow> nat \<Rightarrow> u32 \<Rightarrow> u32 \<Rightarrow> u32 \<Rightarrow> va list \<Rightarrow> 's \<Rightarrow> (nat \<times> va list \<times> 's) res" where
  "conv_string out idx maxlen prec width flags args s =
    bindR (va_ptr args) (\<lambda>(p, args').
    bindR (strnlen_s p (if prec \<noteq> 0 then unat prec else 2 ^ 64 - 1)) (\<lambda>n.
    let l = (of_nat n :: u32);
        l = (if has flags FLAGS_PRECISION then (if l < prec then l else prec) else l)
    in bindR (read_text (if has flags FLAGS_PRECISION then Some (unat prec) else None) p) (\<lambda>cs.
       bindR (padded out cs (unat l) idx maxlen width flags s) (\<lambda>(idx', s'). Inr (idx', args', s')))))"

definition conv_pointer ::
  "'s out \<Rightarrow> nat \<Rightarrow> nat \<Rightarrow> u32 \<Rightarrow> u32 \<Rightarrow> va list \<Rightarrow> 's \<Rightarrow> (nat \<times> va list \<times> 's) res" where
  "conv_pointer out idx maxlen prec flags args s =
    bindR (va_slot args) (\<lambda>(w, args').
    bindR (ntoa_long_long out idx maxlen w False 16 prec 16 (flags OR FLAGS_ZEROPAD OR FLAGS_UPPERCASE) s)
      (\<lambda>(idx', s'). Inr (idx', args', s')))"

definition conv_float ::
  "'s out \<Rightarrow> u8 \<Rightarrow> nat \<Rightarrow> nat \<Rightarrow> u32 \<Rightarrow> u32 \<Rightarrow> u32 \<Rightarrow> va list \<Rightarrow> 's \<Rightarrow> (nat \<times> va list \<times> 's) res" where
  "conv_float out c idx maxlen prec width flags args s =
    bindR (va_dbl args) (\<lambda>(d, args').
    bindR (if c = ch CHR ''f'' \<or> c = ch CHR ''F''
           then ftoa out idx maxlen d prec width (if c = ch CHR ''F'' then flags OR FLAGS_UPPERCASE else flags) s
           else etoa out idx maxlen d prec width
             (let flags = (if c = ch CHR ''g'' \<or> c = ch CHR ''G'' then flags OR FLAGS_ADAPT_EXP else flags)
              in if c = ch CHR ''E'' \<or> c = ch CHR ''G'' then flags OR FLAGS_UPPERCASE else flags) s)
      (\<lambda>(idx', s'). Inr (idx', args', s')))"

definition conv_specifier ::
  "'s out \<Rightarrow> u8 \<Rightarrow> nat \<Rightarrow> nat \<Rightarrow> u32 \<Rightarrow> u32 \<Rightarrow> u32 \<Rightarrow> va list \<Rightarrow> 's \<Rightarrow> (nat \<times> va list \<times> 's) res" where
  "conv_specifier out c idx maxlen prec width flags args s =
    (if c \<in> set (str ''diuxXob'') then conv_integer out c idx maxlen prec width flags args s
     else if c \<in> set (str ''fFeEgG'') then conv_float out c idx maxlen prec width flags args s
     else if c = ch CHR ''c'' then conv_char out idx maxlen width flags args s
     else if c = ch CHR ''s'' then conv_string out idx maxlen prec width flags args s
     else if c = ch CHR ''p'' then conv_pointer out idx maxlen prec flags args s
     else bindR (out_all out [c] idx maxlen s) (\<lambda>(idx', s'). Inr (idx', args, s')))"

text \<open>Everything between the percent sign and the specifier.\<close>

definition read_spec :: "cptr \<Rightarrow> va list \<Rightarrow> (cptr \<times> u32 \<times> u32 \<times> u32 \<times> va list) res" where
  "read_spec s args =
    bindR (read_flags s 0) (\<lambda>(s1, flags1).
    bindR (read_width s1 flags1 args) (\<lambda>(s2, flags2, width, args2).
    bindR (read_precision s2 flags2 args2) (\<lambda>(s3, flags3, prec, args3).
    bindR (read_length s3 flags3) (\<lambda>(s4, flags4). Inr (s4, flags4, width, prec, args3)))))"

section \<open>Reading the format makes progress\<close>

lemma atoi_length: "atoi s i = Inr (s', n) \<Longrightarrow> length s' \<le> length s"
  by (induction s i rule: atoi.induct) (fastforce split: if_splits)+

lemma read_flags_length: "read_flags s fl = Inr (s', fl') \<Longrightarrow> length s' \<le> length s"
proof (induction s fl rule: read_flags.induct)
  case (2 c s flags)
  show ?case
  proof (cases "c \<in> set (str ''0-+ #'')")
    case True
    with "2.IH" "2.prems" have "length s' \<le> length s"
      by (auto split: if_splits)
    then show ?thesis
      by simp
  next
    case False
    with "2.prems" show ?thesis
      by simp
  qed
qed simp

lemma read_width_length: "read_width s fl args = Inr (s', r) \<Longrightarrow> length s' \<le> length s"
  by (auto simp: read_width_def Let_def bindR_eq_Inr_iff split: list.splits if_splits prod.splits dest!: atoi_length)

lemma read_precision_length: "read_precision s fl args = Inr (s', r) \<Longrightarrow> length s' \<le> length s"
  by (auto simp: read_precision_def Let_def bindR_eq_Inr_iff split: list.splits if_splits prod.splits dest!: atoi_length)

lemma read_length_length: "read_length s fl = Inr (s', r) \<Longrightarrow> length s' \<le> length s"
  by (auto simp: read_length_def split: list.splits if_splits)

lemma read_spec_length: "read_spec s args = Inr (s', r) \<Longrightarrow> length s' \<le> length s"
  by (fastforce simp: read_spec_def bindR_eq_Inr_iff dest: read_flags_length read_width_length
      read_precision_length read_length_length)

section \<open>The formatting loop\<close>

function vsnprintf_loop ::
  "'s out \<Rightarrow> nat \<Rightarrow> cptr \<Rightarrow> va list \<Rightarrow> nat \<Rightarrow> 's \<Rightarrow> (nat \<times> 's) res" where
  "vsnprintf_loop out maxlen [] args idx s = Inl OutOfBounds"
| "vsnprintf_loop out maxlen (c # f) args idx s =
     (if c = 0 then Inr (idx, s)
      else if c \<noteq> ch CHR ''%''
      then bindR (out c idx maxlen s) (vsnprintf_loop out maxlen f args (idx + 1))
      else bindR (read_spec f args) (\<lambda>(f', flags, width, prec, args').
           case f' of [] \<Rightarrow> Inl OutOfBounds
           | d # f'' \<Rightarrow>
               bindR (conv_specifier out d idx maxlen prec width flags args' s) (\<lambda>(idx', args'', s').
               vsnprintf_loop out maxlen f'' args'' idx' s')))"
  by pat_completeness auto
termination
  by (relation "measure (\<lambda>(out, maxlen, f, args, idx, s). length f)")
    (auto dest: read_spec_length)

definition vsnprintf_internal ::
  "'s out \<Rightarrow> nat \<Rightarrow> cptr \<Rightarrow> va list \<Rightarrow> 's \<Rightarrow> (u32 \<times> 's) res" where
  "vsnprintf_internal out maxlen format args s =
    bindR (vsnprintf_loop out maxlen format args 0 s) (\<lambda>(idx, s').
    bindR (out 0 (if idx < maxlen then idx else (maxlen + 2 ^ 64 - 1) mod 2 ^ 64) maxlen s') (\<lambda>s''.
    Inr (of_nat idx, s'')))"

text \<open>A call with no buffer uses the null output function.\<close>

definition snprintf ::
  "u8 list option \<Rightarrow> nat \<Rightarrow> cptr \<Rightarrow> va list \<Rightarrow> (u32 \<times> u8 list option) res" where
  "snprintf buffer count format args =
    (case buffer of
       None \<Rightarrow> vsnprintf_internal out_null count format args None
     | Some b \<Rightarrow> bindR (vsnprintf_internal out_buffer count format args b) (\<lambda>(n, b'). Inr (n, Some b')))"

definition sprintf ::
  "u8 list option \<Rightarrow> cptr \<Rightarrow> va list \<Rightarrow> (u32 \<times> u8 list option) res" where
  "sprintf buffer format args = snprintf buffer (2 ^ 64 - 1) format args"

definition printf :: "cptr \<Rightarrow> va list \<Rightarrow> u8 list \<Rightarrow> (u32 \<times> u8 list) res" where
  "printf format args chars = vsnprintf_internal out_char (2 ^ 64 - 1) format args chars"

definition fctprintf ::
  "(u8 \<Rightarrow> 's \<Rightarrow> 's res) \<Rightarrow> cptr \<Rightarrow> va list \<Rightarrow> 's \<Rightarrow> (u32 \<times> 's) res" where
  "fctprintf fct format args s = vsnprintf_internal (out_fct fct) (2 ^ 64 - 1) format args s"

section \<open>The text of a format\<close>

text \<open>
  The reference: what a format and its arguments say, as text, with no position, limit or
  sink. Every conversion of the code is \<open>out_all\<close> of the corresponding text.
\<close>

definition signed_text :: "u64 \<Rightarrow> u64 \<Rightarrow> u32 \<Rightarrow> u32 \<Rightarrow> u32 \<Rightarrow> u8 list res" where
  "signed_text w base prec width flags =
    (if has flags FLAGS_LONG_LONG \<or> has flags FLAGS_LONG
     then bindR (magnitude w) (\<lambda>m. Inr (ntoa_text m (sint w < 0) base prec width flags))
     else (let v = (if has flags FLAGS_CHAR then ucast (ucast w :: u8)
                    else if has flags FLAGS_SHORT then scast (ucast w :: u16) else ucast w) :: u32
           in bindR (magnitude v) (\<lambda>m. Inr (ntoa_text m (sint v < 0) base prec width flags))))"

definition unsigned_text :: "u64 \<Rightarrow> u64 \<Rightarrow> u32 \<Rightarrow> u32 \<Rightarrow> u32 \<Rightarrow> u8 list" where
  "unsigned_text w base prec width flags =
    (if has flags FLAGS_LONG_LONG \<or> has flags FLAGS_LONG then ntoa_text w False base prec width flags
     else (let v = (if has flags FLAGS_CHAR then ucast (ucast w :: u8)
                    else if has flags FLAGS_SHORT then ucast (ucast w :: u16) else ucast (ucast w :: u32)) :: u64
           in ntoa_text v False base prec width flags))"

definition pad_text :: "u8 list \<Rightarrow> nat \<Rightarrow> u32 \<Rightarrow> u32 \<Rightarrow> u8 list" where
  "pad_text cs l width flags =
    (let pad = replicate (unat width - l) (ch CHR '' '') in if has flags FLAGS_LEFT then cs @ pad else pad @ cs)"

definition spec_text ::
  "u8 \<Rightarrow> u32 \<Rightarrow> u32 \<Rightarrow> u32 \<Rightarrow> va list \<Rightarrow> (u8 list \<times> va list) res" where
  "spec_text c prec width flags args =
    (if c \<in> set (str ''diuxXob'')
     then bindR (va_slot args) (\<lambda>(w, args').
       if c = ch CHR ''i'' \<or> c = ch CHR ''d''
       then bindR (signed_text w (int_base c) prec width (int_flags c flags)) (\<lambda>cs. Inr (cs, args'))
       else Inr (unsigned_text w (int_base c) prec width (int_flags c flags), args'))
     else if c \<in> set (str ''fFeEgG'')
     then bindR (va_dbl args) (\<lambda>(d, args').
       bindR (if c = ch CHR ''f'' \<or> c = ch CHR ''F''
              then ftoa_text d prec width (if c = ch CHR ''F'' then flags OR FLAGS_UPPERCASE else flags)
              else etoa_text d prec width
                (let flags = (if c = ch CHR ''g'' \<or> c = ch CHR ''G'' then flags OR FLAGS_ADAPT_EXP else flags)
                 in if c = ch CHR ''E'' \<or> c = ch CHR ''G'' then flags OR FLAGS_UPPERCASE else flags))
         (\<lambda>cs. Inr (cs, args')))
     else if c = ch CHR ''c''
     then bindR (va_slot args) (\<lambda>(w, args'). Inr (pad_text [ucast w] 1 width flags, args'))
     else if c = ch CHR ''s''
     then bindR (va_ptr args) (\<lambda>(p, args').
       bindR (strnlen_s p (if prec \<noteq> 0 then unat prec else 2 ^ 64 - 1)) (\<lambda>n.
       let l = (of_nat n :: u32);
           l = (if has flags FLAGS_PRECISION then (if l < prec then l else prec) else l)
       in bindR (read_text (if has flags FLAGS_PRECISION then Some (unat prec) else None) p) (\<lambda>cs.
          Inr (pad_text cs (unat l) width flags, args'))))
     else if c = ch CHR ''p''
     then bindR (va_slot args) (\<lambda>(w, args').
       Inr (ntoa_text w False 16 prec 16 (flags OR FLAGS_ZEROPAD OR FLAGS_UPPERCASE), args'))
     else Inr ([c], args))"

function format_text :: "cptr \<Rightarrow> va list \<Rightarrow> u8 list res" where
  "format_text [] args = Inl OutOfBounds"
| "format_text (c # f) args =
     (if c = 0 then Inr []
      else if c \<noteq> ch CHR ''%'' then bindR (format_text f args) (\<lambda>cs. Inr (c # cs))
      else bindR (read_spec f args) (\<lambda>(f', flags, width, prec, args').
           case f' of [] \<Rightarrow> Inl OutOfBounds
           | d # f'' \<Rightarrow>
               bindR (spec_text d prec width flags args') (\<lambda>(ds, args'').
               bindR (format_text f'' args'') (\<lambda>cs. Inr (ds @ cs)))))"
  by pat_completeness auto
termination
  by (relation "measure (\<lambda>(f, args). length f)") (auto dest: read_spec_length)

section \<open>The conversions output their text\<close>

lemma conv_signed_text: "conv_signed out idx maxlen w base prec width flags s =
    bindR (signed_text w base prec width flags) (\<lambda>cs. out_all out cs idx maxlen s)"
  by (simp add: conv_signed_def signed_text_def ntoa_long_text bindR_assoc Let_def)

lemma conv_unsigned_text: "conv_unsigned out idx maxlen w base prec width flags s =
    out_all out (unsigned_text w base prec width flags) idx maxlen s"
  by (simp add: conv_unsigned_def unsigned_text_def ntoa_long_text Let_def)

lemma padded_text: "padded out cs l idx maxlen width flags s = out_all out (pad_text cs l width flags) idx maxlen s"
proof -
  have "bindR m (\<lambda>(i, s). Inr (i, s)) = m" for m :: "(nat \<times> 'a) res"
    by (cases m) auto
  then show ?thesis
    by (simp add: padded_def pad_text_def out_all_append Let_def)
qed

lemma conv_specifier_text: "conv_specifier out c idx maxlen prec width flags args s =
    bindR (spec_text c prec width flags args) (\<lambda>(cs, args').
    bindR (out_all out cs idx maxlen s) (\<lambda>(idx', s'). Inr (idx', args', s')))"
  unfolding conv_specifier_def spec_text_def conv_integer_def conv_float_def conv_char_def conv_string_def
    conv_pointer_def conv_signed_text conv_unsigned_text padded_text ntoa_long_text ftoa_output etoa_output Let_def
  by (simp add: bindR_assoc split_def if_distrib [of "\<lambda>m. bindR m _"] cong: if_cong)

section \<open>Sinks\<close>

text \<open>
  A sink holds the text that has been output to it. The formatting loop relies on one law: a
  character that is output at the position after the text is appended to it.
\<close>

locale sink =
  fixes out :: "'s out" and maxlen :: nat and holds :: "u8 list \<Rightarrow> 's \<Rightarrow> bool"
  assumes out_step: "holds t s \<Longrightarrow> \<exists>s'. out c (length t) maxlen s = Inr s' \<and> holds (t @ [c]) s'"
begin

lemma out_all_holds:
  assumes "holds t s"
  shows "\<exists>s'. out_all out cs (length t) maxlen s = Inr (length (t @ cs), s') \<and> holds (t @ cs) s'"
  using assms
proof (induction cs arbitrary: t s)
  case (Cons c cs)
  then obtain s1 where 1: "out c (length t) maxlen s = Inr s1" "holds (t @ [c]) s1"
    using out_step by blast
  from Cons.IH [OF 1(2)] obtain s2 where
    "out_all out cs (length t + 1) maxlen s1 = Inr (length (t @ [c] @ cs), s2)" "holds (t @ [c] @ cs) s2"
    by auto
  with 1 show ?case
    by simp
qed auto

text \<open>The loop fails exactly when the format does, and otherwise outputs its text.\<close>

lemma loop_holds:
  assumes "holds t s"
  shows "case format_text f args of
      Inl e \<Rightarrow> vsnprintf_loop out maxlen f args (length t) s = Inl e
    | Inr cs \<Rightarrow> \<exists>s'. vsnprintf_loop out maxlen f args (length t) s = Inr (length (t @ cs), s') \<and>
        holds (t @ cs) s'"
  using assms
proof (induction f args arbitrary: t s rule: format_text.induct)
  case (2 c f args)
  consider "c = 0" | "c \<noteq> 0" "c \<noteq> ch CHR ''%''" | "c = ch CHR ''%''" "c \<noteq> 0"
    by blast
  then show ?case
  proof cases
    case 1
    with "2.prems" show ?thesis
      by auto
  next
    case 2
    from out_step [OF "2.prems"] obtain s1 where s1: "out c (length t) maxlen s = Inr s1" "holds (t @ [c]) s1"
      by blast
    from "2.IH"(1) [OF 2 s1(2)] 2 s1(1) show ?thesis
      by (auto split: sum.splits)
  next
    case 3
    show ?thesis
    proof (cases "read_spec f args")
      case (Inr r)
      obtain f' flags width prec args' where r: "r = (f', flags, width, prec, args')"
        by (cases r) auto
      show ?thesis
      proof (cases f')
        case Nil
        with 3 Inr r show ?thesis
          by simp
      next
        case (Cons d f'')
        show ?thesis
        proof (cases "spec_text d prec width flags args'")
          case (Inr q)
          obtain ds args'' where q: "q = (ds, args'')"
            by (cases q)
          from out_all_holds [OF "2.prems", of ds] obtain s1 where
            s1: "out_all out ds (length t) maxlen s = Inr (length (t @ ds), s1)" "holds (t @ ds) s1"
            by blast
          from "2.IH"(2) [OF 3(2) _ _ refl refl refl refl _ _ refl s1(2)] 3 \<open>read_spec f args = Inr r\<close> r Cons Inr q
          have "case format_text f'' args'' of
              Inl e \<Rightarrow> vsnprintf_loop out maxlen f'' args'' (length (t @ ds)) s1 = Inl e
            | Inr cs \<Rightarrow> \<exists>s'. vsnprintf_loop out maxlen f'' args'' (length (t @ ds)) s1 =
                Inr (length ((t @ ds) @ cs), s') \<and> holds ((t @ ds) @ cs) s'"
            by simp
          with 3 \<open>read_spec f args = Inr r\<close> r Cons Inr q s1(1) show ?thesis
            by (auto simp: conv_specifier_text split: sum.splits)
        qed (use 3 Inr r Cons in \<open>simp add: conv_specifier_text\<close>)
      qed
    qed (use 3 in simp)
  qed
qed simp

lemma formatted:
  assumes "holds [] s"
  shows "case format_text f args of
      Inl e \<Rightarrow> vsnprintf_internal out maxlen f args s = Inl e
    | Inr cs \<Rightarrow> \<exists>s'. holds cs s' \<and> vsnprintf_internal out maxlen f args s =
        bindR (out 0 (if length cs < maxlen then length cs else (maxlen + 2 ^ 64 - 1) mod 2 ^ 64) maxlen s')
          (\<lambda>s''. Inr (of_nat (length cs), s''))"
  using loop_holds [OF assms, of f args]
  by (auto simp: vsnprintf_internal_def split: sum.splits)

end

text \<open>The buffer holds the first characters of the text, the device all but the NULs.\<close>

definition buffer_holds :: "nat \<Rightarrow> u8 list \<Rightarrow> u8 list \<Rightarrow> u8 list \<Rightarrow> bool" where
  "buffer_holds maxlen b0 t b \<longleftrightarrow> maxlen \<le> length b0 \<and> b = patch b0 0 (take maxlen t)"

interpretation buffer_sink: sink out_buffer maxlen "buffer_holds maxlen b0" for maxlen b0
proof
  fix t b c
  assume "buffer_holds maxlen b0 t b"
  then have len: "maxlen \<le> length b0" and b: "b = patch b0 0 (take maxlen t)"
    by (simp_all add: buffer_holds_def)
  show "\<exists>b'. out_buffer c (length t) maxlen b = Inr b' \<and> buffer_holds maxlen b0 (t @ [c]) b'"
  proof (cases "length t < maxlen")
    case True
    with len have "put b (length t) c = Inr (patch b0 0 (t @ [c]))"
      unfolding b by (simp add: put_patch) (metis patch_patch add_0 less_imp_le_nat order_trans)
    with True len show ?thesis
      by (simp add: out_buffer_def buffer_holds_def)
  next
    case False
    with len b show ?thesis
      by (simp add: out_buffer_def buffer_holds_def)
  qed
qed

interpretation null_sink: sink out_null maxlen "\<lambda>t s. s = s0" for maxlen s0
  by unfold_locales (simp add: out_null_def)

interpretation char_sink: sink out_char maxlen "\<lambda>t chars. chars = chars0 @ filter (\<lambda>c. c \<noteq> 0) t" for maxlen chars0
  by unfold_locales (simp add: out_char_def)

interpretation fct_sink: sink "out_fct (\<lambda>c s. Inr (g c s))" maxlen
    "\<lambda>t s. s = fold g (filter (\<lambda>c. c \<noteq> 0) t) s0" for g maxlen s0
  by unfold_locales (simp add: out_fct_def)

section \<open>Formatted output to a buffer\<close>

lemma wrap_dec: "0 < n \<Longrightarrow> n < 2 ^ 64 \<Longrightarrow> (n + 2 ^ 64 - 1) mod 2 ^ 64 = n - (1::nat)"
  using mod_add_self2 [of "n - 1" "2 ^ 64"] by simp

lemma snprintf_text:
  assumes "0 < count" "count \<le> length b" "length b < 2 ^ 64"
  shows "snprintf (Some b) count f args =
    (case format_text f args of Inl e \<Rightarrow> Inl e
     | Inr cs \<Rightarrow> Inr (of_nat (length cs), Some (patch b 0 (take (count - 1) cs @ [0]))))"
proof (cases "format_text f args")
  case (Inl e)
  with buffer_sink.formatted [of count b b f args] assms show ?thesis
    by (simp add: buffer_holds_def snprintf_def)
next
  case (Inr cs)
  let ?i = "if length cs < count then length cs else (count + 2 ^ 64 - 1) mod 2 ^ 64"
  have dec: "(count + 2 ^ 64 - 1) mod 2 ^ 64 = count - 1"
    using assms by (intro wrap_dec) simp_all
  have i: "?i = length (take (count - 1) cs)" and lt: "?i < count"
    using assms by (auto simp only: dec length_take min_def split: if_splits)
  have split: "take count cs = take (count - 1) cs @ drop (count - 1) (take count cs)"
    by (metis append_take_drop_id take_take min.absorb1 diff_le_self)
  have "patch (patch b 0 (take (count - 1) cs @ drop (count - 1) (take count cs)))
      (0 + length (take (count - 1) cs)) [0] = patch b 0 (take (count - 1) cs @ [0])"
    using assms by (intro patch_overlap) (auto simp: min_def)
  with i have "patch (patch b 0 (take count cs)) ?i [0] = patch b 0 (take (count - 1) cs @ [0])"
    by (simp only: split [symmetric] add_0)
  moreover have "?i < length (patch b 0 (take count cs))"
    using lt assms by simp
  ultimately have "put (patch b 0 (take count cs)) ?i 0 = Inr (patch b 0 (take (count - 1) cs @ [0]))"
    by (simp only: put_patch)
  with Inr buffer_sink.formatted [of count b b f args] assms lt show ?thesis
    by (auto simp: buffer_holds_def snprintf_def out_buffer_def)
qed

section \<open>Hexadecimal output\<close>

definition hex_text :: "u64 \<Rightarrow> u8 list" where
  "hex_text w = rev (ntoa_digits False 16 w [])"

lemma digit_char_hex:
  assumes "unat d < 16"
  shows "is_hex (digit_char False d)" "nat (hexchar_to_int (digit_char False d)) = unat d"
proof -
  have "uint d = int (unat d)"
    by simp
  with assms obtain i where i: "d = word_of_int i" "0 \<le> i" "i \<le> 15"
    using word_of_int_uint [of d, symmetric] unsigned_greater_eq [of d] by fastforce
  have "d \<in> {0, 1, 2, 3, 4, 5, 6, 7, 8, 9, 10, 11, 12, 13, 14, 15}"
    using nibble_cases [OF i(2,3)] unfolding i(1) by (elim insertE emptyE) simp_all
  then show "is_hex (digit_char False d)" "nat (hexchar_to_int (digit_char False d)) = unat d"
    by (elim insertE emptyE; simp add: digit_char_def is_hex_def hexchar_to_int_def)+
qed

lemma ntoa_digits_hex:
  assumes "unat w < 16 ^ Suc m" "length buf + Suc m \<le> PRINTF_NTOA_BUFFER_SIZE"
  shows "\<exists>ds. ntoa_digits False 16 w buf = buf @ ds \<and> list_all is_hex ds \<and> hex_number (rev ds) = unat w \<and>
    0 < length ds \<and> length ds \<le> Suc m"
  using assms
proof (induction m arbitrary: w buf)
  case 0
  then have "w div 16 = 0" "w mod 16 = w" "unat w < 16"
    by (simp_all add: word_arith_nat_div word_arith_nat_mod)
  with digit_char_hex [of w] show ?case
    by (subst ntoa_digits.simps) (simp add: Let_def hex_number_def)
next
  case (Suc m)
  have m: "unat (w mod 16) < 16" "unat (w mod 16) = unat w mod 16" "unat (w div 16) = unat w div 16"
    by (simp_all add: unat_mod_distrib unat_div_distrib)
  note d = digit_char_hex [OF m(1)]
  show ?case
  proof (cases "w div 16 = 0")
    case True
    then have "unat w mod 16 = unat w"
      using m(3) by (simp add: div_eq_0_iff)
    with True d m show ?thesis
      by (subst ntoa_digits.simps) (simp add: Let_def hex_number_def)
  next
    case False
    have "unat (w div 16) < 16 ^ Suc m"
      using Suc.prems(1) m(3) by (simp add: less_mult_imp_div_less)
    from Suc.IH [OF this, of "buf @ [digit_char False (w mod 16)]"] Suc.prems(2) obtain ds where
      ds: "ntoa_digits False 16 (w div 16) (buf @ [digit_char False (w mod 16)]) =
          (buf @ [digit_char False (w mod 16)]) @ ds"
        "list_all is_hex ds" "hex_number (rev ds) = unat (w div 16)" "0 < length ds" "length ds \<le> Suc m"
      by auto
    have "ntoa_digits False 16 w buf = buf @ digit_char False (w mod 16) # ds"
      using False ds(1) Suc.prems(2) by (subst ntoa_digits.simps) (simp add: Let_def)
    with ds d m show ?thesis
      by (intro exI [of _ "digit_char False (w mod 16) # ds"]) (simp add: hex_number_snoc)
  qed
qed

lemma hex_text_number:
  "list_all is_hex (hex_text w)" "hex_number (hex_text w) = unat w" "0 < length (hex_text w)" "length (hex_text w) \<le> 16"
proof -
  have "unat w < 16 ^ Suc 15"
    using unsigned_less [of w] by simp
  then show "list_all is_hex (hex_text w)" "hex_number (hex_text w) = unat w" "0 < length (hex_text w)" "length (hex_text w) \<le> 16"
    using ntoa_digits_hex [of w 15 "[]"] by (auto simp: hex_text_def PRINTF_NTOA_BUFFER_SIZE_def)
qed

lemmas flag_defs = FLAGS_ZEROPAD_def FLAGS_LEFT_def FLAGS_PLUS_def FLAGS_SPACE_def FLAGS_HASH_def
  FLAGS_UPPERCASE_def FLAGS_CHAR_def FLAGS_SHORT_def FLAGS_LONG_def FLAGS_LONG_LONG_def FLAGS_PRECISION_def
  FLAGS_ADAPT_EXP_def

lemma has_none: "\<not> has 0 f"
  by (simp add: has_def)

lemma has_long: "f \<in> {FLAGS_ZEROPAD, FLAGS_LEFT, FLAGS_PLUS, FLAGS_SPACE, FLAGS_HASH, FLAGS_UPPERCASE, FLAGS_CHAR, FLAGS_SHORT,
    FLAGS_LONG_LONG, FLAGS_PRECISION, FLAGS_PLUS OR FLAGS_SPACE} \<Longrightarrow> \<not> has FLAGS_LONG f"
  "has FLAGS_LONG FLAGS_LONG"
  by (auto simp: has_def flag_defs)

lemma long_and_hash: "FLAGS_LONG AND NOT FLAGS_HASH = FLAGS_LONG"
  by (simp add: flag_defs)

lemma ntoa_text_plain:
  assumes "flags = 0 \<or> flags = FLAGS_LONG"
  shows "ntoa_text w False 16 0 0 flags = hex_text w"
proof -
  have "(if w = 0 then flags AND NOT FLAGS_HASH else flags) = flags"
    using assms by (auto simp: long_and_hash)
  moreover have no: "\<not> has flags f" if "f \<in> {FLAGS_ZEROPAD, FLAGS_LEFT, FLAGS_PLUS, FLAGS_SPACE, FLAGS_HASH,
      FLAGS_UPPERCASE, FLAGS_PRECISION}" for f
    using assms that has_none has_long(1) [of f] by auto
  ultimately show ?thesis
    by (simp add: ntoa_text_def ntoa_pad_def pad_zeros_def ntoa_hash_def ntoa_sign_def rev_text_def hex_text_def Let_def)
qed

lemma format_lx:
  "format_text (37 # 108 # 120 # f) (Slot w # args) =
     bindR (format_text f args) (\<lambda>cs. Inr (hex_text w @ cs))"
proof -
  have "read_spec (108 # 120 # f) (Slot w # args) =
      Inr (120 # f, FLAGS_LONG, 0, 0, Slot w # args)"
    by (simp add: read_spec_def read_width_def read_precision_def read_length_def is_digit_def)
  moreover have "int_flags 120 FLAGS_LONG = FLAGS_LONG"
    by (simp add: int_flags_def int_base_def has_def flag_defs)
  ultimately show ?thesis
    by (simp add: spec_text_def int_base_def unsigned_text_def has_long ntoa_text_plain)
qed

lemma format_plain: "c \<noteq> 0 \<Longrightarrow> c \<noteq> 37 \<Longrightarrow>
    format_text (c # f) args = bindR (format_text f args) (\<lambda>cs. Inr (c # cs))"
  by simp

declare format_text.simps [simp del]

lemma format_end: "format_text (0 # f) args = Inr []"
  by (simp add: format_text.simps)

section \<open>Properties\<close>

text \<open>C27: \<open>snprintf\<close> is the text of its format, cut off at the size given: it writes no byte
  beyond the first \<open>count - 1\<close> characters and the terminator, and returns the length the whole
  text has. Without a buffer it returns the same length. An argument that is missing or of the
  wrong kind, and a signed minimum that has no magnitude, are the only errors.\<close>

theorem snprintf_writes_bounded_text:
  assumes "0 < count" and "count \<le> length b" and "length b < 2 ^ 64"
  shows "snprintf (Some b) count f args =
      (case format_text f args of Inl e \<Rightarrow> Inl e
       | Inr cs \<Rightarrow> Inr (of_nat (length cs), Some (patch b 0 (take (count - 1) cs @ [0])))) \<and>
    snprintf None count f args =
      (case format_text f args of Inl e \<Rightarrow> Inl e | Inr cs \<Rightarrow> Inr (of_nat (length cs), None))"
proof
  show "snprintf None count f args =
      (case format_text f args of Inl e \<Rightarrow> Inl e | Inr cs \<Rightarrow> Inr (of_nat (length cs), None))"
    using null_sink.formatted [OF refl, of count f args None]
    by (auto simp: snprintf_def out_null_def split: sum.splits)
qed (rule snprintf_text [OF assms])

theorem snprintf_writes_bounded_text_witness:
  "snprintf (Some [9, 9, 9, 9, 9]) 4 (cstr ''a%lxb'') [Slot 0xc0de] =
     Inr (6, Some (str ''ac0'' @ [0, 9])) \<and>
   snprintf None 4 (cstr ''a%lxb'') [Slot 0xc0de] = Inr (6, None)"
  using snprintf_writes_bounded_text [of 4 "[9, 9, 9, 9, 9]" "cstr ''a%lxb''" "[Slot 0xc0de]"]
  by (simp add: cstr_def format_lx format_plain format_end hex_text_def ntoa_digits.simps digit_char_def patch_def
      PRINTF_NTOA_BUFFER_SIZE_def)

text \<open>A word printed with \<open>%lx\<close> is parsed back by \<open>hexstr_to_int\<close>: the two conversions,
  written independently of each other, are inverse on all 64-bit values.\<close>

lemma hex_output_read_back:
  assumes "16 < count" and "count \<le> length b" and "length b < 2 ^ 64"
  shows "\<exists>ds. snprintf (Some b) count (cstr ''%lx'') [Slot w] =
      Inr (of_nat (length ds), Some (patch b 0 (ds @ [0]))) \<and> 0 < length ds \<and> length ds \<le> 16 \<and>
    hexstr_to_int (patch b 0 (ds @ [0])) 16 0 = Inr (0 # drop (Suc (length ds)) b, w)"
proof (intro exI conjI)
  note hex = hex_text_number [of w]
  have tx: "format_text (cstr ''%lx'') [Slot w] = Inr (hex_text w)"
    by (simp add: cstr_def format_lx format_end)
  then show "snprintf (Some b) count (cstr ''%lx'') [Slot w] =
      Inr (of_nat (length (hex_text w)), Some (patch b 0 (hex_text w @ [0])))"
    using assms hex(4) snprintf_text [of count b "cstr ''%lx''" "[Slot w]"] by simp
  show "0 < length (hex_text w)" "length (hex_text w) \<le> 16"
    using hex by simp_all
  obtain v where v: "hexstr_to_int (hex_text w @ 0 # drop (Suc (length (hex_text w))) b) 16 0 =
      Inr (0 # drop (Suc (length (hex_text w))) b, v)" "unat v = hex_number (hex_text w)"
    using hexstr_digits [OF hex(1,4), of "0 # drop (Suc (length (hex_text w))) b"]
    by (auto simp: is_hex_def hexchar_to_int_def)
  with hex(2) show "hexstr_to_int (patch b 0 (hex_text w @ [0])) 16 0 = Inr (0 # drop (Suc (length (hex_text w))) b, w)"
    by (simp add: nth_patch_zero word_unat_eq_iff)
qed

end
