(* ===== verification/Gdb_Handlers.thy ===== *)
theory Gdb_Handlers
  imports Gdb_Registry Gdb_InfMem Gdb_Breakpoints Gdb_Regs Gdb_Parse Gdb_Printf
begin

text \<open>
  The packet handlers of \<open>src/gdb.c\<close> and their dispatch in \<open>gdb_handle_packet\<close>. A handler
  takes the packet and the output buffer and returns the buffer and the new state.

  A local variable that the code does not initialise has a value that the model does not know:
  the register structure of the register packets and the identifiers that a thread identifier
  is parsed into are arguments of the handlers (for \<open>vCont\<close>, a function of the position in the
  packet, as every action has its own variables).
\<close>

section \<open>Registers\<close>

definition handle_read_regs ::
  "('k, 'r) kernel \<Rightarrow> 'r user_context_scheme \<Rightarrow> u8 list \<Rightarrow> 'k gdb \<Rightarrow> (u8 list \<times> 'k gdb) res" where
  "handle_read_regs K context output s =
    deref (target_thread s) (\<lambda>t.
    let ((_, context), k') = TCB_ReadRegisters K (ks s) (t_tcb (thr s (fst t) (snd t))) context
    in bindR (regs2hex context output 0) (\<lambda>(output, _). Inr (output, s\<lparr>ks := k'\<rparr>)))"

definition handle_write_regs ::
  "('k, 'r) kernel \<Rightarrow> 'r user_context_scheme \<Rightarrow> cptr \<Rightarrow> u8 list \<Rightarrow> 'k gdb \<Rightarrow> (u8 list \<times> 'k gdb) res" where
  "handle_write_regs K context ptr output s =
    bindR (nextR ptr) (\<lambda>(c, ptr). assertR (c = ch CHR ''G'') (
    bindR (hex2regs context ptr) (\<lambda>(_, context).
    deref (target_thread s) (\<lambda>t.
    let (_, k') = TCB_WriteRegisters K (ks s) (t_tcb (thr s (fst t) (snd t))) context
    in bindR (copy_reply output ''OK'') (\<lambda>output. Inr (output, s\<lparr>ks := k'\<rparr>))))))"

section \<open>Queries\<close>

text \<open>The body of the loop over the threads: the buffer, the position, and how many came before.\<close>

definition print_thread :: "'k gdb \<Rightarrow> nat \<times> nat \<Rightarrow> u8 list \<times> nat \<times> nat \<Rightarrow> (u8 list \<times> nat \<times> nat) res" where
  "print_thread s t st = (case st of (output, p, num_printed) \<Rightarrow>
     bindR (if num_printed > 0 then bindR (put output p (ch CHR '','')) (\<lambda>output. Inr (output, p + 1))
            else Inr (output, p)) (\<lambda>(output, p).
     bindR (write_thread_id s t output p) (\<lambda>(output, p). Inr (output, p, num_printed + 1))))"

definition print_threads :: "'k gdb \<Rightarrow> u8 list \<Rightarrow> u8 list res" where
  "print_threads s output =
    bindR (put output 0 (ch CHR ''m'')) (\<lambda>output.
    bindR (iterR (\<lambda>i st.
        if i_enabled (inferiors s i)
        then iterR (\<lambda>j st. if t_enabled (thr s i j) then print_thread s (i, j) st else Inr st) [0..<MAX_THREADS] st
        else Inr st) [0..<MAX_PDS] (output, 1, 0)) (\<lambda>(output, _, _). Inr output))"

definition supported_format :: string where
  "supported_format =
    ''qSupported:PacketSize=%lx;QThreadEvents+;swbreak+;hwbreak+;vContSupported+;fork-events+;exec-events+;multiprocess+;''"

definition handle_query :: "cptr \<Rightarrow> u8 list \<Rightarrow> 'k gdb \<Rightarrow> u8 list res" where
  "handle_query ptr output s =
    ifR (starts ptr ''qSupported'' 10)
      (bindR (snprintf (Some output) BUFSIZE (cstr supported_format) [Slot (of_nat BUFSIZE)])
         (\<lambda>(_, b). case b of None \<Rightarrow> Inr output | Some output \<Rightarrow> Inr output))
   (ifR (starts ptr ''qfThreadInfo'' 12) (print_threads s output)
   (ifR (starts ptr ''qsThreadInfo'' 12) (copy_reply output ''l'')
   (ifR (starts ptr ''qC'' 2) (copy_reply output ''QCp1.1'')
   (ifR (starts ptr ''qSymbol'' 7) (copy_reply output ''OK'')
   (ifR (starts ptr ''qTStatus'' 8) (copy_reply output ''T0'')
   (ifR (starts ptr ''qAttached'' 9) (copy_reply output ''1'')
   (ifR (starts ptr ''QThreadEvents:1'' 15) (copy_reply output ''OK'')
   (ifR (starts ptr ''QThreadEvents:0'' 15) (copy_reply output ''OK'')
     (Inr output)))))))))"

section \<open>Breakpoints and watchpoints\<close>

text \<open>A call with \<open>target_thread->inferior\<close>; every callee dereferences it.\<close>

definition with_target_inferior :: "'k gdb \<Rightarrow> (nat \<Rightarrow> 'a) \<Rightarrow> 'a res" where
  "with_target_inferior s f =
    deref (target_thread s) (\<lambda>t. deref (t_inferior (thr s (fst t) (snd t))) (\<lambda>i. Inr (f i)))"

definition handle_configure_debug_events ::
  "('k, 'r) kernel \<Rightarrow> cptr \<Rightarrow> u8 list \<Rightarrow> 'k gdb \<Rightarrow> (u8 list \<times> 'k gdb) res" where
  "handle_configure_debug_events K ptr output s =
    bindR (parse_breakpoint_format ptr) (\<lambda>r. case r of
      None \<Rightarrow> bindR (copy_reply output ''E01'') (\<lambda>output. Inr (output, s))
    | Some (addr, sz) \<Rightarrow>
        bindR
          (ifR (starts ptr ''Z0'' 2) (bindR (with_target_inferior s (\<lambda>i. set_software_breakpoint K i addr s)) (Inr \<circ> Some))
          (ifR (starts ptr ''z0'' 2) (bindR (with_target_inferior s (\<lambda>i. unset_software_breakpoint K i addr s)) (Inr \<circ> Some))
          (ifR (starts ptr ''Z1'' 2) (bindR (with_target_inferior s (\<lambda>i. set_hardware_breakpoint K i addr s)) (Inr \<circ> Some))
          (ifR (starts ptr ''z1'' 2) (bindR (with_target_inferior s (\<lambda>i. unset_hardware_breakpoint K i addr s)) (Inr \<circ> Some))
            (bindR (nextR ptr) (\<lambda>(c0, ptr1). bindR (peekR ptr1) (\<lambda>c1.
              let set_or_unset = (\<lambda>watchpoint_type.
                    bindR (with_target_inferior s (\<lambda>i.
                      if c0 = ch CHR ''Z'' then set_hardware_watchpoint K i addr watchpoint_type sz s
                      else unset_hardware_watchpoint K i addr watchpoint_type sz s)) (Inr \<circ> Some))
              in if c1 = ch CHR ''2'' then set_or_unset (seL4_BreakOnWrite K)
                 else if c1 = ch CHR ''3'' then set_or_unset (seL4_BreakOnRead K)
                 else if c1 = ch CHR ''4'' then set_or_unset (seL4_BreakOnReadWrite K)
                 else Inr None)))))))
          (\<lambda>r. case r of
             None \<Rightarrow> bindR (copy_reply output ''E01'') (\<lambda>output. Inr (output, s))
           | Some (success, s') \<Rightarrow>
               bindR (copy_reply output (if \<not> success then ''E01'' else ''OK'')) (\<lambda>output. Inr (output, s'))))"

section \<open>Memory\<close>

text \<open>A transfer of no bytes does not dereference the thread.\<close>

definition with_target :: "'k gdb \<Rightarrow> int \<Rightarrow> (nat \<times> nat \<Rightarrow> 'a res) \<Rightarrow> 'a res" where
  "with_target s sz f =
    (case target_thread s of None \<Rightarrow> if sz \<le> 0 then f (0, 0) else Inl NullDeref | Some t \<Rightarrow> f t)"

text \<open>The conversion of a size to \<open>int\<close> at the calls of the transfer routines.\<close>

definition int_of_size :: "u64 \<Rightarrow> int" where
  "int_of_size sz = sint (ucast sz :: u32)"

definition handle_read_mem :: "('k, 'r) kernel \<Rightarrow> cptr \<Rightarrow> u8 list \<Rightarrow> 'k gdb \<Rightarrow> (u8 list \<times> 'k gdb) res" where
  "handle_read_mem K ptr output s =
    bindR (parse_mem_format ptr) (\<lambda>r. case r of
      None \<Rightarrow> bindR (copy_reply output ''E01'') (\<lambda>output. Inr (output, s))
    | Some (addr, sz) \<Rightarrow>
        if sz * 2 > of_nat (BUFSIZE - 1) then bindR (copy_reply output ''E01'') (\<lambda>output. Inr (output, s))
        else bindR (with_target s (int_of_size sz) (\<lambda>t. inf_mem2hex K t addr output 0 (int_of_size sz) s))
          (\<lambda>(r, output, s). case r of
             Inl error \<Rightarrow> bindR (copy_reply output ''E04'') (\<lambda>output. Inr (output, s))
           | Inr _ \<Rightarrow> Inr (output, s)))"

definition handle_write_mem :: "('k, 'r) kernel \<Rightarrow> cptr \<Rightarrow> u8 list \<Rightarrow> 'k gdb \<Rightarrow> (u8 list \<times> 'k gdb) res" where
  "handle_write_mem K ptr output s =
    bindR (parse_mem_format ptr) (\<lambda>r. case r of
      None \<Rightarrow> bindR (copy_reply output ''E02'') (\<lambda>output. Inr (output, s))
    | Some (addr, sz) \<Rightarrow>
        bindR (find_char ptr (ch CHR '':'') BUFSIZE) (\<lambda>q. case q of
          None \<Rightarrow> Inr (output, s)
        | Some ptr \<Rightarrow>
            bindR (with_target s (int_of_size sz) (\<lambda>t. inf_hex2mem K t (tl ptr) addr (int_of_size sz) s)) (\<lambda>(r, s).
            bindR (copy_reply output (if r = 0 then ''E03'' else ''OK'')) (\<lambda>output. Inr (output, s)))))"

section \<open>Threads\<close>

definition handle_check_thread_alive :: "u32 \<Rightarrow> cptr \<Rightarrow> u8 list \<Rightarrow> 'k gdb \<Rightarrow> u8 list res" where
  "handle_check_thread_alive proc_id ptr output s =
    bindR (nextR ptr) (\<lambda>(c, ptr). assertR (c = ch CHR ''T'') (
    bindR (parse_thread_id ptr proc_id 0) (\<lambda>(r, proc_id, thread_id). case r of
      None \<Rightarrow> copy_reply output ''E02''
    | Some _ \<Rightarrow>
        bindR (lookup_thread_from_gdb_id (sint proc_id) (sint thread_id) s) (\<lambda>thread.
        deref thread (\<lambda>(i, j).
        if uint (t_gdb_id (thr s i j)) = sint thread_id \<and> t_enabled (thr s i j) then copy_reply output ''OK''
        else Inr output)))))"

definition handle_set_inferior :: "u32 \<Rightarrow> cptr \<Rightarrow> u8 list \<Rightarrow> 'k gdb \<Rightarrow> (u8 list \<times> 'k gdb) res" where
  "handle_set_inferior proc_id ptr output s =
    bindR (nextR ptr) (\<lambda>(_, ptr).
    bindR (nextR ptr) (\<lambda>(c, ptr).
    if c \<noteq> ch CHR ''g'' \<and> c \<noteq> ch CHR ''c'' then bindR (copy_reply output ''E01'') (\<lambda>output. Inr (output, s))
    else
      ifR (bindR (nextR ptr) (\<lambda>(c, q). if c = ch CHR ''-'' then bindR (peekR q) (\<lambda>d. Inr (d = ch CHR ''1'')) else Inr False))
        (assertR (target_thread s \<noteq> None) (bindR (copy_reply output ''OK'') (\<lambda>output. Inr (output, s))))
        (bindR (parse_thread_id ptr proc_id 0) (\<lambda>(r, proc_id, thread_id). case r of
           None \<Rightarrow> bindR (copy_reply output ''E02'') (\<lambda>output. Inr (output, s))
         | Some _ \<Rightarrow>
             assertR (sint proc_id \<noteq> -1)
               (bindR
                 (if sint proc_id \<noteq> 0
                  then bindR (lookup_inferior_from_gdb_id (sint proc_id) s) (\<lambda>inferior. case inferior of
                         None \<Rightarrow> Inr None
                       | Some _ \<Rightarrow>
                           if sint thread_id \<noteq> -1
                           then bindR (lookup_thread_from_gdb_id (sint proc_id)
                                    (if sint thread_id = 0 then 1 else sint thread_id) s)
                                  (\<lambda>thread. Inr (Some (s\<lparr>target_thread := thread\<rparr>)))
                           else Inr (Some s))
                  else Inr (Some s)) (\<lambda>r. case r of
                 None \<Rightarrow> bindR (copy_reply output ''E02'') (\<lambda>output. Inr (output, s))
               | Some s' \<Rightarrow>
                   deref (target_thread s') (\<lambda>(i, j).
                   assertR (t_enabled (thr s' i j) \<and> t_tcb (thr s' i j) \<noteq> 0)
                     (bindR (copy_reply output ''OK'') (\<lambda>output. Inr (output, s'))))))))))"

definition handle_sig_interrupt :: "u8 list \<Rightarrow> u8 list res" where
  "handle_sig_interrupt output = copy_reply output ''S02''"

section \<open>Continuing and stepping\<close>

text \<open>The wakeup flags of all threads.\<close>

definition set_wakeups :: "bool \<Rightarrow> 'k gdb \<Rightarrow> 'k gdb" where
  "set_wakeups w s =
    fold (\<lambda>i s. if i_enabled (inferiors s i)
      then fold (\<lambda>j s. if t_enabled (thr s i j) then upd_thr i j (\<lambda>t. t\<lparr>t_wakeup := w\<rparr>) s else s) [0..<MAX_THREADS] s
      else s) [0..<MAX_PDS] s"

text \<open>The action on the thread at index \<open>x\<close>, which the code does not check.\<close>

definition vcont_thread :: "('k, 'r) kernel \<Rightarrow> bool \<Rightarrow> nat option \<Rightarrow> int \<Rightarrow> 'k gdb \<Rightarrow> 'k gdb res" where
  "vcont_thread K stepping inferior x s =
    deref inferior (\<lambda>i.
    bindR (array_idx x MAX_THREADS) (\<lambda>j.
    if \<not> t_enabled (thr s i j) then Inr s
    else if handled s i j then Inr s
    else (let (_, s1) = (if stepping then enable_single_step K (i, j) s else disable_single_step K (i, j) s);
              s2 = s1\<lparr>handled := (handled s1)(i := (handled s1 i)(j := True))\<rparr>
          in Inr (upd_thr i j (\<lambda>t. t\<lparr>t_wakeup := True\<rparr>) s2))))"

definition vcont_target :: "('k, 'r) kernel \<Rightarrow> bool \<Rightarrow> int \<Rightarrow> int \<Rightarrow> 'k gdb \<Rightarrow> 'k gdb res" where
  "vcont_target K stepping proc_id thread_id s =
    (if proc_id = -1 then Inr s
     else bindR (lookup_inferior_from_gdb_id proc_id s) (\<lambda>inferior.
          bindR (if thread_id \<noteq> -1 then bindR (id_to_idx thread_id MAX_THREADS) (\<lambda>x. Inr (x, thread_id))
                 else Inr (0, int MAX_THREADS)) (\<lambda>(x, n).
          iterR (vcont_thread K stepping inferior) [x..n - 1] s)))"

function vcont_targets ::
  "('k, 'r) kernel \<Rightarrow> (cptr \<Rightarrow> u32 \<times> u32) \<Rightarrow> bool \<Rightarrow> cptr \<Rightarrow> 'k gdb \<Rightarrow> (cptr \<times> 'k gdb) res" where
  "vcont_targets K ids stepping [] s = Inl OutOfBounds"
| "vcont_targets K ids stepping (c # input) s =
    assertR (c = ch CHR '':'')
      (bindR (parse_thread_id input (fst (ids input)) (snd (ids input))) (\<lambda>(r, proc_id, thread_id).
       bindR (vcont_target K stepping (sint proc_id) (sint thread_id) s) (\<lambda>s'.
       case r of None \<Rightarrow> Inl NullDeref
       | Some input' \<Rightarrow>
           bindR (peekR input') (\<lambda>c.
           if c = ch CHR '':'' then vcont_targets K ids stepping input' s' else Inr (input', s')))))"
  by pat_completeness auto
termination
  by (relation "measure (\<lambda>(K, ids, stepping, input, s). length input)") (auto dest: parse_thread_id_length)

lemma vcont_targets_length:
  "vcont_targets K ids stepping input s = Inr (input', s') \<Longrightarrow> length input' < length input"
proof (induction K ids stepping input s arbitrary: rule: vcont_targets.induct)
  case (2 K ids stepping c input s)
  then obtain q g h s1 d where run: "parse_thread_id input (fst (ids input)) (snd (ids input)) = Inr (Some q, g, h)"
    "vcont_target K stepping (sint g) (sint h) s = Inr s1" "peekR q = Inr d"
    "(if d = ch CHR '':'' then vcont_targets K ids stepping q s1 else Inr (q, s1)) = Inr (input', s')"
    by (auto simp: bindR_eq_Inr_iff split: option.splits)
  have "length q < length input"
    by (rule parse_thread_id_length [OF run(1)])
  with run(4) "2.IH" [OF run(1) refl refl run(2) refl run(3)] show ?case
    by (auto split: if_splits)
qed simp

function vcont_actions ::
  "('k, 'r) kernel \<Rightarrow> (cptr \<Rightarrow> u32 \<times> u32) \<Rightarrow> cptr \<Rightarrow> u8 list \<Rightarrow> 'k gdb \<Rightarrow> (u8 list \<times> 'k gdb) res" where
  "vcont_actions K ids [] output s = Inl OutOfBounds"
| "vcont_actions K ids (c # input) output s =
    (if c = 0 then Inr (output, s)
     else assertR (c = ch CHR '';'')
       (bindR (nextR input) (\<lambda>(d, input).
        if d = ch CHR ''s'' \<or> d = ch CHR ''c''
        then (let stepping = (d = ch CHR ''s'')
              in bindR (vcont_targets K ids stepping input (set_wakeups (\<not> stepping) s)) (\<lambda>(input, s).
                 vcont_actions K ids input output s))
        else bindR (copy_reply output ''E04'') (\<lambda>output. Inr (output, s)))))"
  by pat_completeness auto
termination
  by (relation "measure (\<lambda>(K, ids, input, output, s). length input)")
    (auto simp: nextR_eq_Inr_iff dest: vcont_targets_length)

definition handle_vcont ::
  "('k, 'r) kernel \<Rightarrow> (cptr \<Rightarrow> u32 \<times> u32) \<Rightarrow> cptr \<Rightarrow> u8 list \<Rightarrow> 'k gdb \<Rightarrow> (u8 list \<times> 'k gdb) res" where
  "handle_vcont K ids input output s = vcont_actions K ids (drop 5 input) output (s\<lparr>handled := (\<lambda>_ _. False)\<rparr>)"

section \<open>Detaching\<close>

definition detach_thread :: "('k, 'r) kernel \<Rightarrow> nat \<Rightarrow> nat \<Rightarrow> 'k gdb \<Rightarrow> 'k gdb" where
  "detach_thread K i j s =
    (if \<not> t_enabled (thr s i j) then s
     else (let s1 = (if t_ss_enabled (thr s i j) then snd (disable_single_step K (i, j) s) else s)
           in upd_thr i j (\<lambda>t. t\<lparr>t_ss_enabled := False, t_wakeup := True\<rparr>) s1))"

definition detach_inferior :: "('k, 'r) kernel \<Rightarrow> nat \<Rightarrow> 'k gdb \<Rightarrow> 'k gdb" where
  "detach_inferior K i s =
    (if \<not> i_enabled (inferiors s i) then s
     else (let s1 = fold (\<lambda>n s. snd (unset_software_breakpoint K i (sb_addr (i_sw (inferiors s i) n)) s))
                      [0..<MAX_SW_BREAKS] s;
               s2 = fold (\<lambda>n s. snd (unset_hardware_breakpoint K i (hb_addr (i_hb (inferiors s i) n)) s))
                      [0..<seL4_NumExclusiveBreakpoints K] s1;
               s3 = fold (\<lambda>n s. snd (unset_hardware_watchpoint K i (hw_addr (i_hw (inferiors s i) n))
                                       (hw_type (i_hw (inferiors s i) n)) (hw_size (i_hw (inferiors s i) n)) s))
                      [0..<seL4_NumExclusiveWatchpoints K] s2;
               s4 = upd_inf i (\<lambda>I. I\<lparr>i_sw := (\<lambda>_. zero_sw), i_hb := (\<lambda>_. zero_hb), i_hw := (\<lambda>_. zero_hw)\<rparr>) s3
           in fold (detach_thread K i) [0..<MAX_THREADS] s4))"

definition handle_detach :: "('k, 'r) kernel \<Rightarrow> u8 list \<Rightarrow> 'k gdb \<Rightarrow> (u8 list \<times> 'k gdb) res" where
  "handle_detach K output s =
    bindR (copy_reply output ''OK'') (\<lambda>output. Inr (output, fold (detach_inferior K) [0..<MAX_PDS] s))"

section \<open>Dispatch\<close>

text \<open>The result of a packet: whether the system is to be resumed, whether GDB detached, the
  reply and the state.\<close>

record 'k packet_result =
  resumed :: bool
  detached :: bool
  out :: "u8 list"
  st :: "'k gdb"

definition finish :: "bool \<Rightarrow> bool \<Rightarrow> u8 list \<times> 'k gdb \<Rightarrow> 'k packet_result" where
  "finish r d x = \<lparr>resumed = r, detached = d, out = fst x, st = snd x\<rparr>"

definition gdb_handle_packet ::
  "('k, 'r) kernel \<Rightarrow> 'r user_context_scheme \<Rightarrow> (cptr \<Rightarrow> u32 \<times> u32) \<Rightarrow> cptr \<Rightarrow> u8 list \<Rightarrow> bool \<Rightarrow> 'k gdb \<Rightarrow> 'k packet_result res"
where
  "gdb_handle_packet K context ids input output was_detached s =
    (let ret = (\<lambda>b m. bindR m (\<lambda>x. Inr (finish b was_detached x)));
         keep = (\<lambda>m. bindR m (\<lambda>x. Inr (finish False was_detached (x, s)))) in
     bindR (put output 0 0) (\<lambda>output.
     bindR (peekR input) (\<lambda>c.
     if c = ch CHR ''g'' then ret False (handle_read_regs K context output s)
     else if c = ch CHR ''G'' then ret False (handle_write_regs K context input output s)
     else if c = ch CHR ''m'' then ret False (handle_read_mem K input output s)
     else if c = ch CHR ''M'' then ret False (handle_write_mem K input output s)
     else if c = ch CHR ''q'' \<or> c = ch CHR ''Q'' then keep (handle_query input output s)
     else if c = ch CHR ''H'' then ret False (handle_set_inferior (fst (ids input)) input output s)
     else if c = ch CHR ''D'' then bindR (handle_detach K output s) (\<lambda>x. Inr (finish True True x))
     else if c = ch CHR ''T'' then keep (handle_check_thread_alive (fst (ids input)) input output s)
     else if c = ch CHR ''?'' then keep (copy_reply output ''T05swbreak:;'')
     else if c = ch CHR ''v''
     then ifR (starts input ''vCont?'' 7) (keep (copy_reply output ''vCont;c;C;s;S''))
         (ifR (starts input ''vCont;'' 6) (ret True (handle_vcont K ids input output s))
            (keep (Inr output)))
     else if c = ch CHR ''z'' \<or> c = ch CHR ''Z'' then ret False (handle_configure_debug_events K input output s)
     else if c = 3 then keep (handle_sig_interrupt output)
     else keep (Inr output))))"

section \<open>Reading memory\<close>

lemma copy_reply_ok:
  "length b = BUFSIZE \<Longrightarrow> length m < 64 \<Longrightarrow> 0 \<notin> set (str m) \<Longrightarrow> copy_reply b m = Inr (reply b (str m))"
  by (simp add: BUFSIZE_def)

text \<open>
  The check of the size is done on twice the size, which can wrap around; the size that is
  used is then converted to \<open>int\<close>. What passes the check is small all the same.
\<close>

definition read_size :: "u64 \<Rightarrow> nat" where
  "read_size sz = unat sz mod 2 ^ 63"

lemma int_of_size_small:
  assumes "read_size sz \<le> 1023"
  shows "int_of_size sz = int (read_size sz)"
proof -
  let ?n = "unat sz mod 2 ^ 63"
  have "unat (ucast sz :: u32) = unat sz mod 2 ^ 32"
    by (simp add: unsigned_ucast_eq take_bit_eq_mod)
  also have "\<dots> = unat sz mod 2 ^ 63 mod 2 ^ 32"
    by (simp add: mod_mod_cancel)
  also have "\<dots> = ?n"
    using assms by (simp add: read_size_def)
  finally have *: "uint (ucast sz :: u32) = int ?n"
    by (metis uint_nat)
  have "int ?n \<le> 1023"
    using assms by (simp only: read_size_def)
  then have "signed_take_bit 31 (int ?n) = int ?n"
    by (intro signed_take_bit_int_eq_self) simp_all
  then show ?thesis
    by (simp only: int_of_size_def sint_uint * read_size_def) simp
qed

lemma size_check:
  "sz * 2 > of_nat (BUFSIZE - 1) \<longleftrightarrow> read_size sz > 1023"
proof -
  have "unat (sz * 2) = unat sz * 2 mod 2 ^ 64"
    by (simp add: unat_word_ariths)
  also have "\<dots> = unat sz mod 2 ^ 63 * 2"
    using mult_mod_left [of "unat sz" "2 ^ 63" 2] by simp
  finally have *: "unat (sz * 2) = unat sz mod 2 ^ 63 * 2" .
  have "unat (of_nat (BUFSIZE - 1) :: u64) = 2047"
    by (simp add: BUFSIZE_def)
  then have "sz * 2 > of_nat (BUFSIZE - 1) \<longleftrightarrow> 2047 < unat sz mod 2 ^ 63 * 2"
    by (simp only: word_less_nat_alt *)
  also have "2047 < n * 2 \<longleftrightarrow> 1023 < n" for n :: nat
    by linarith
  finally show ?thesis
    by (simp only: read_size_def)
qed

lemma handle_read_mem_total:
  assumes "parse_mem_format p = Inr r" and "word_memory K M P" and "target_thread s = Some t"
    and "t_inferior (thr s (fst t) (snd t)) = Some i" and "length b = BUFSIZE"
  shows "\<exists>k'. M k' = M (ks s) \<and> (\<exists>b'. length b' = BUFSIZE \<and>
    handle_read_mem K p b s = Inr (case r of
        None \<Rightarrow> (reply b (str ''E01''), s)
      | Some (a, sz) \<Rightarrow>
          (let n = read_size sz
           in if n > 1023 then (reply b (str ''E01''), s)
              else if words_mapped (P (i_vspace (inferiors s i))) a n
              then (reply b (hex_encode (mem_bytes (M (ks s) (i_vspace (inferiors s i))) a n)), s\<lparr>ks := k'\<rparr>)
              else (reply b' (str ''E04''), s\<lparr>ks := k'\<rparr>))))"
proof (cases r)
  case None
  with assms show ?thesis
    by (auto simp: handle_read_mem_def copy_reply_ok)
next
  case (Some q)
  obtain a sz where q: "q = (a, sz)"
    by (cases q)
  define n where "n = read_size sz"
  show ?thesis
  proof (cases "n > 1023")
    case True
    then have "sz * 2 > of_nat (BUFSIZE - 1)"
      by (simp only: size_check n_def)
    with True assms Some q show ?thesis
      by (intro exI [of _ "ks s"] conjI exI [of _ b])
        (simp_all add: handle_read_mem_def copy_reply_ok n_def [symmetric] Let_def)
  next
    case False
    then have chk: "\<not> sz * 2 > of_nat (BUFSIZE - 1)" and sz: "int_of_size sz = int n"
      using int_of_size_small [of sz] by (simp_all only: size_check n_def not_less not_le)
    have len: "0 + 2 * n < length b"
      using False assms(5) by (simp add: BUFSIZE_def)
    show ?thesis
    proof (cases "words_mapped (P (i_vspace (inferiors s i))) a n")
      case True
      obtain k' where "inf_mem2hex K t a b 0 (int n) s = Inr (Inr (0 + 2 * n),
          patch b 0 (hex_encode (mem_bytes (M (ks s) (i_vspace (inferiors s i))) a n) @ [0]), s\<lparr>ks := k'\<rparr>)"
        and "M k' = M (ks s)"
        by (rule inf_mem2hex_text [OF assms(2,4) True len])
      with True False assms Some q chk sz show ?thesis
        by (intro exI [of _ k'] conjI exI [of _ b])
          (simp_all add: handle_read_mem_def with_target_def reply_def n_def [symmetric] Let_def)
    next
      case unmapped: False
      obtain e b' k' where "inf_mem2hex K t a b 0 (int n) s = Inr (Inl e, b', s\<lparr>ks := k'\<rparr>)"
        and "length b' = length b" and "M k' = M (ks s)"
        by (rule inf_mem2hex_fail [OF assms(2,4) unmapped len])
      with unmapped False assms Some q chk sz show ?thesis
        by (intro exI [of _ k'] conjI exI [of _ b'])
          (simp_all add: handle_read_mem_def with_target_def copy_reply_ok n_def [symmetric] Let_def)
    qed
  qed
qed

section \<open>Packets\<close>

lemma gdb_handle_packet_eq:
  assumes "length output = BUFSIZE"
  shows "gdb_handle_packet K context ids (c # p) output d s =
    (let b = reply output [];
         ret = (\<lambda>b m. bindR m (\<lambda>x. Inr (finish b d x)));
         keep = (\<lambda>m. bindR m (\<lambda>x. Inr (finish False d (x, s)))) in
     if c = ch CHR ''g'' then ret False (handle_read_regs K context b s)
     else if c = ch CHR ''G'' then ret False (handle_write_regs K context (c # p) b s)
     else if c = ch CHR ''m'' then ret False (handle_read_mem K (c # p) b s)
     else if c = ch CHR ''M'' then ret False (handle_write_mem K (c # p) b s)
     else if c = ch CHR ''q'' \<or> c = ch CHR ''Q'' then keep (handle_query (c # p) b s)
     else if c = ch CHR ''H'' then ret False (handle_set_inferior (fst (ids (c # p))) (c # p) b s)
     else if c = ch CHR ''D'' then bindR (handle_detach K b s) (\<lambda>x. Inr (finish True True x))
     else if c = ch CHR ''T'' then keep (handle_check_thread_alive (fst (ids (c # p))) (c # p) b s)
     else if c = ch CHR ''?'' then keep (copy_reply b ''T05swbreak:;'')
     else if c = ch CHR ''v''
     then ifR (starts (c # p) ''vCont?'' 7) (keep (copy_reply b ''vCont;c;C;s;S''))
         (ifR (starts (c # p) ''vCont;'' 6) (ret True (handle_vcont K ids (c # p) b s)) (keep (Inr b)))
     else if c = ch CHR ''z'' \<or> c = ch CHR ''Z'' then ret False (handle_configure_debug_events K (c # p) b s)
     else if c = 3 then keep (handle_sig_interrupt b)
     else keep (Inr b))"
proof -
  have "put output 0 0 = Inr (reply output [])"
    using assms by (simp add: put_patch reply_def BUFSIZE_def)
  then show ?thesis
    by (simp add: gdb_handle_packet_def Let_def)
qed

lemma finish_sel [simp]:
  "resumed (finish r d x) = r" "detached (finish r d x) = d" "out (finish r d x) = fst x" "st (finish r d x) = snd x"
  by (simp_all add: finish_def)

lemma length_start [simp]: "length output = BUFSIZE \<Longrightarrow> length (reply output []) = BUFSIZE"
  by (simp add: BUFSIZE_def)

section \<open>Properties\<close>

text \<open>C4: Reading memory is exact or refused. For every terminated packet \<open>m\<close>, with any
  operands, the handler returns, stays inside the output buffer, and changes neither the memory
  nor any other part of the library's state. The reply is the bytes asked for, in hexadecimal,
  when their words are mapped and they fit the buffer, \<open>E04\<close> when a word cannot be read, and
  \<open>E01\<close> when the operands are malformed or the size is too big; the size that is used is the
  parsed one up to the top bit, which the check of twice the size ignores.\<close>

theorem read_memory_packet:
  assumes "word_memory K M P" and "target_thread s = Some t" and "t_inferior (thr s (fst t) (snd t)) = Some i"
    and "length output = BUFSIZE" and "0 \<in> set p"
  shows "\<exists>r x. parse_mem_format (ch CHR ''m'' # p) = Inr r \<and>
    gdb_handle_packet K context ids (ch CHR ''m'' # p) output d s = Inr x \<and> \<not> resumed x \<and> detached x = d \<and>
    length (out x) = BUFSIZE \<and> st x = s\<lparr>ks := ks (st x)\<rparr> \<and> M (ks (st x)) = M (ks s) \<and>
    content (out x) = (case r of None \<Rightarrow> str ''E01''
      | Some (a, sz) \<Rightarrow>
          if read_size sz > 1023 then str ''E01''
          else if words_mapped (P (i_vspace (inferiors s i))) a (read_size sz)
          then hex_encode (mem_bytes (M (ks s) (i_vspace (inferiors s i))) a (read_size sz))
          else str ''E04'')"
proof -
  obtain r where r: "parse_mem_format (ch CHR ''m'' # p) = Inr r"
    using parse_mem_total [OF assms(5)] by blast
  have len: "length (hex_encode (mem_bytes m a n)) < BUFSIZE" if "\<not> n > 1023" for m a n
    using that by (simp add: length_hex_encode BUFSIZE_def)
  obtain k' b' where run: "M k' = M (ks s)" "length b' = BUFSIZE"
    "handle_read_mem K (ch CHR ''m'' # p) (reply output []) s = Inr (case r of
        None \<Rightarrow> (reply (reply output []) (str ''E01''), s)
      | Some (a, sz) \<Rightarrow>
          (let n = read_size sz
           in if n > 1023 then (reply (reply output []) (str ''E01''), s)
              else if words_mapped (P (i_vspace (inferiors s i))) a n
              then (reply (reply output []) (hex_encode (mem_bytes (M (ks s) (i_vspace (inferiors s i))) a n)), s\<lparr>ks := k'\<rparr>)
              else (reply b' (str ''E04''), s\<lparr>ks := k'\<rparr>)))"
    using handle_read_mem_total [OF r assms(1,2,3) length_start [OF assms(4)]] by blast
  let ?x = "finish False d (case r of
        None \<Rightarrow> (reply (reply output []) (str ''E01''), s)
      | Some (a, sz) \<Rightarrow>
          (let n = read_size sz
           in if n > 1023 then (reply (reply output []) (str ''E01''), s)
              else if words_mapped (P (i_vspace (inferiors s i))) a n
              then (reply (reply output []) (hex_encode (mem_bytes (M (ks s) (i_vspace (inferiors s i))) a n)), s\<lparr>ks := k'\<rparr>)
              else (reply b' (str ''E04''), s\<lparr>ks := k'\<rparr>)))"
  show ?thesis
  proof (intro exI [of _ r] exI [of _ ?x] conjI)
    show "gdb_handle_packet K context ids (ch CHR ''m'' # p) output d s = Inr ?x"
      using run(3) by (simp add: gdb_handle_packet_eq [OF assms(4)])
  qed (use r run assms(4) len in \<open>auto simp: Let_def BUFSIZE_def split: option.split\<close>)
qed

theorem read_memory_packet_witness:
  "\<exists>r x. parse_mem_format (ch CHR ''m'' # cstr ''2000,4'') = Inr r \<and>
    gdb_handle_packet machine_kernel zero_context (\<lambda>_. (0, 0)) (ch CHR ''m'' # cstr ''2000,4'') (replicate BUFSIZE 7) False one_thread = Inr x \<and>
    \<not> resumed x \<and> detached x = False \<and> length (out x) = BUFSIZE \<and> st x = one_thread\<lparr>ks := ks (st x)\<rparr> \<and>
    mc_mem (ks (st x)) = mc_mem (ks one_thread) \<and>
    content (out x) = (case r of None \<Rightarrow> str ''E01''
      | Some (a, sz) \<Rightarrow>
          if read_size sz > 1023 then str ''E01''
          else if words_mapped (mc_mapped (i_vspace (inferiors one_thread 0))) a (read_size sz)
          then hex_encode (mem_bytes (mc_mem (ks one_thread) (i_vspace (inferiors one_thread 0))) a (read_size sz))
          else str ''E04'')"
  by (rule read_memory_packet [OF machine_laws(1), where t = "(0, 0)"]) (simp_all add: one_thread_def cstr_def)

section \<open>Writing memory\<close>

lemma int_of_size_nat: "unat sz = n \<Longrightarrow> n \<le> 1023 \<Longrightarrow> int_of_size sz = int n"
  using int_of_size_small [of sz] by (simp add: read_size_def)

definition write_text :: "u8 list \<Rightarrow> u8 list \<Rightarrow> u8 list \<Rightarrow> u8 list \<Rightarrow> cptr" where
  "write_text ds es bs r = ch CHR ''M'' # ds @ ch CHR '','' # es @ ch CHR '':'' # hex_encode bs @ r"

lemma write_text_parse:
  assumes "list_all is_hex ds" "length ds \<le> 16" "list_all is_hex es" "length es \<le> 16" and "0 \<in> set r"
  obtains a n where "parse_mem_format (write_text ds es bs r) = Inr (Some (a, n))"
    and "unat a = hex_number ds" and "unat n = hex_number es"
    and "find_char (write_text ds es bs r) (ch CHR '':'') BUFSIZE = Inr (Some (ch CHR '':'' # hex_encode bs @ r))"
proof -
  let ?t = "ch CHR '':'' # hex_encode bs @ r"
  have t: "0 \<in> set ?t" "\<not> is_hex (hd ?t)"
    using assms(5) by (simp_all add: is_hex_def hexchar_to_int_def)
  have "x \<noteq> ch CHR '':''" if "x \<in> set (ds @ es)" for x
    using that assms(1,3) is_hex_not by (auto simp: list_all_iff)
  then have "ch CHR '':'' \<notin> set (ch CHR ''M'' # ds @ ch CHR '','' # es)"
    by auto
  moreover have "length (ch CHR ''M'' # ds @ ch CHR '','' # es) < BUFSIZE"
    using assms(2,4) by (simp add: BUFSIZE_def)
  ultimately have "find_char ((ch CHR ''M'' # ds @ ch CHR '','' # es) @ ?t) (ch CHR '':'') BUFSIZE = Inr (Some ?t)"
    by (rule find_char_skip)
  then have find: "find_char (write_text ds es bs r) (ch CHR '':'') BUFSIZE = Inr (Some ?t)"
    by (simp add: write_text_def)
  obtain a n where "parse_mem_format (ch CHR ''M'' # ds @ ch CHR '','' # es @ ?t) =
      Inr (if hd ?t = 0 \<or> ch CHR ''M'' = ch CHR ''M'' \<and> hd ?t = ch CHR '':'' then Some (a, n) else None)"
    "unat a = hex_number ds" "unat n = hex_number es"
    by (rule parse_mem_text [OF assms(1-4) t])
  with find show thesis
    by (intro that [of a n]) (simp_all add: write_text_def)
qed

lemma handle_write_mem_word:
  assumes wm: "word_memory K M P" and "target_thread s = Some t" and inf: "t_inferior (thr s (fst t) (snd t)) = Some i"
    and len: "length b = BUFSIZE"
    and parse: "parse_mem_format p = Inr (Some (a, sz))"
    and find: "find_char p (ch CHR '':'') BUFSIZE = Inr (Some (ch CHR '':'' # hex_encode bs @ r))"
    and sz: "unat sz = length bs" and n: "bs \<noteq> []" "length bs \<le> 8"
    and mapped: "P (i_vspace (inferiors s i)) a" "P (i_vspace (inferiors s i)) (a + of_nat (length bs - 1))"
  shows "\<exists>k'. handle_write_mem K p b s =
      Inr (reply b (str (if a + 8 + of_nat (2 * length bs) = 0 then ''E03'' else ''OK'')), s\<lparr>ks := k'\<rparr>) \<and>
    M k' = (M (ks s))(i_vspace (inferiors s i) :=
      store64 (M (ks s) (i_vspace (inferiors s i))) (a + of_nat (length bs - 1))
        (set_bytes (load64 (M (ks s) (i_vspace (inferiors s i))) a) 0 bs))"
proof -
  obtain k' where k': "inf_hex2mem K t (hex_encode bs @ r) a (int (length bs)) s =
      Inr (a + 8 + of_nat (2 * length bs), s\<lparr>ks := k'\<rparr>)"
    "M k' = (M (ks s))(i_vspace (inferiors s i) :=
      store64 (M (ks s) (i_vspace (inferiors s i))) (a + of_nat (length bs - 1))
        (set_bytes (load64 (M (ks s) (i_vspace (inferiors s i))) a) 0 bs))"
    by (rule inf_hex2mem_word [OF wm inf refl n mapped])
  have "int_of_size sz = int (length bs)"
    using sz n(2) by (intro int_of_size_nat) simp_all
  with k' parse find assms(2) len show ?thesis
    by (intro exI [of _ k']) (simp add: handle_write_mem_def with_target_def copy_reply_ok)
qed

lemma store64_low_byte: "store64 m a (set_byte (load64 m a) 0 v) = m(a := v)"
proof
  fix x
  have "x = a \<longleftrightarrow> unat (x - a) = 0"
    by (simp add: unat_eq_zero)
  moreover have "a + of_nat (unat (x - a)) = x"
    by simp
  ultimately show "store64 m a (set_byte (load64 m a) 0 v) x = (m(a := v)) x"
    by (simp add: store64_byte get_set_byte get_byte_load64)
qed

lemma write_packet_eq:
  assumes "length output = BUFSIZE" and "handle_write_mem K (write_text ds es bs r) (reply output []) s = Inr (b, s')"
  shows "gdb_handle_packet K context ids (write_text ds es bs r) output d s = Inr (finish False d (b, s'))"
  using assms(2) unfolding write_text_def by (simp add: gdb_handle_packet_eq [OF assms(1)])

text \<open>C11: A packet that writes one byte to mapped memory writes exactly that byte: the memory
  of every address space is as before but for the byte at the address, and the reply is
  \<open>OK\<close>.\<close>

theorem write_byte_packet:
  assumes "word_memory K M P" and "target_thread s = Some t" and "t_inferior (thr s (fst t) (snd t)) = Some i"
    and "length output = BUFSIZE" and "list_all is_hex ds" and "length ds \<le> 16" and "0 \<in> set r"
    and "a = of_nat (hex_number ds)" and "P (i_vspace (inferiors s i)) a" and "a + 10 \<noteq> 0"
  shows "\<exists>x. gdb_handle_packet K context ids (write_text ds (str ''1'') [v] r) output d s = Inr x \<and>
    \<not> resumed x \<and> detached x = d \<and> content (out x) = str ''OK'' \<and> st x = s\<lparr>ks := ks (st x)\<rparr> \<and>
    M (ks (st x)) = (M (ks s))(i_vspace (inferiors s i) := (M (ks s) (i_vspace (inferiors s i)))(a := v))"
proof -
  have es: "list_all is_hex (str ''1'')" "length (str ''1'') \<le> 16" "hex_number (str ''1'') = 1"
    by (simp_all add: is_hex_def hexchar_to_int_def hex_number_def)
  obtain a' n where p: "parse_mem_format (write_text ds (str ''1'') [v] r) = Inr (Some (a', n))"
    "unat a' = hex_number ds" "unat n = hex_number (str ''1'')"
    "find_char (write_text ds (str ''1'') [v] r) (ch CHR '':'') BUFSIZE = Inr (Some (ch CHR '':'' # hex_encode [v] @ r))"
    by (rule write_text_parse [OF assms(5,6) es(1,2) assms(7)])
  have a: "a' = a"
    unfolding assms(8) p(2) [symmetric] by simp
  have "unat n = length [v]" "[v] \<noteq> []" "length [v] \<le> 8"
    using p(3) es(3) by simp_all
  from handle_write_mem_word [OF assms(1-3) length_start [OF assms(4)] p(1,4) this, unfolded a] assms(9,10)
  obtain k' where "handle_write_mem K (write_text ds (str ''1'') [v] r) (reply output []) s =
      Inr (reply (reply output []) (str ''OK''), s\<lparr>ks := k'\<rparr>)"
    "M k' = (M (ks s))(i_vspace (inferiors s i) := (M (ks s) (i_vspace (inferiors s i)))(a := v))"
    by (auto simp: store64_low_byte add.assoc)
  with write_packet_eq [OF assms(4) this(1)] assms(4) show ?thesis
    by (auto simp: BUFSIZE_def)
qed

theorem write_byte_packet_witness:
  "\<exists>x. gdb_handle_packet machine_kernel zero_context (\<lambda>_. (0, 0)) (write_text (str ''2003'') (str ''1'') [0x41] [0])
       (replicate BUFSIZE 7) False one_thread = Inr x \<and>
    \<not> resumed x \<and> detached x = False \<and> content (out x) = str ''OK'' \<and> st x = one_thread\<lparr>ks := ks (st x)\<rparr> \<and>
    mc_mem (ks (st x)) = (mc_mem (ks one_thread))(i_vspace (inferiors one_thread 0) :=
      (mc_mem (ks one_thread) (i_vspace (inferiors one_thread 0)))(0x2003 := 0x41))"
  by (rule write_byte_packet [OF machine_laws(1), where t = "(0, 0)"])
    (simp_all add: one_thread_def is_hex_def hexchar_to_int_def hex_number_def mc_mapped_def)

lemma minus_one_big: "8 \<le> unat (- 1 :: u64)"
proof -
  have "(8 :: u64) \<le> - 1"
    by simp
  then have "unat (8 :: u64) \<le> unat (- 1 :: u64)"
    by (simp only: word_le_nat_alt)
  then show ?thesis
    by simp
qed

text \<open>C23: A packet that writes two to eight bytes does not write them where it should: the
  address advances with the bytes before the word is stored, so the bytes land at the address
  of the last one, and the byte at the address of the packet keeps its value; the reply is
  \<open>OK\<close> all the same.\<close>

theorem longer_write_is_misplaced:
  assumes "word_memory K M P" and "target_thread s = Some t" and "t_inferior (thr s (fst t) (snd t)) = Some i"
    and "length output = BUFSIZE" and "list_all is_hex ds" and "length ds \<le> 16" and "0 \<in> set r"
    and "list_all is_hex es" and "length es \<le> 16" and "hex_number es = length bs" and "2 \<le> length bs" and "length bs \<le> 8"
    and "a = of_nat (hex_number ds)" and "P (i_vspace (inferiors s i)) a"
    and "P (i_vspace (inferiors s i)) (a + of_nat (length bs - 1))" and "a + 8 + of_nat (2 * length bs) \<noteq> 0"
  shows "\<exists>x. gdb_handle_packet K context ids (write_text ds es bs r) output d s = Inr x \<and> content (out x) = str ''OK'' \<and>
    M (ks (st x)) (i_vspace (inferiors s i)) a = M (ks s) (i_vspace (inferiors s i)) a \<and>
    (\<forall>j < length bs. M (ks (st x)) (i_vspace (inferiors s i)) (a + of_nat (length bs - 1) + of_nat j) = bs ! j)"
proof -
  let ?vs = "i_vspace (inferiors s i)" and ?o = "a + of_nat (length bs - 1)"
  obtain a' n where p: "parse_mem_format (write_text ds es bs r) = Inr (Some (a', n))"
    "unat a' = hex_number ds" "unat n = hex_number es"
    "find_char (write_text ds es bs r) (ch CHR '':'') BUFSIZE = Inr (Some (ch CHR '':'' # hex_encode bs @ r))"
    by (rule write_text_parse [OF assms(5,6,8,9,7)])
  have a: "a' = a"
    unfolding assms(13) p(2) [symmetric] by simp
  have "unat n = length bs" "bs \<noteq> []" "length bs \<le> 8"
    using p(3) assms(10,11,12) by auto
  from handle_write_mem_word [OF assms(1-3) length_start [OF assms(4)] p(1,4) this, unfolded a, OF assms(14,15)]
  obtain k' where run: "handle_write_mem K (write_text ds es bs r) (reply output []) s =
      Inr (reply (reply output []) (str ''OK''), s\<lparr>ks := k'\<rparr>)"
    and mem: "M k' = (M (ks s))(?vs := store64 (M (ks s) ?vs) ?o (set_bytes (load64 (M (ks s) ?vs) a) 0 bs))"
    using assms(16) by auto
  have "length bs - 1 \<in> {1, 2, 3, 4, 5, 6, 7}"
    using assms(11,12) by auto
  then have "unat (- of_nat (length bs - 1) :: u64) \<ge> 8"
    using minus_one_big by (elim insertE emptyE) simp_all
  then have keep: "M k' ?vs a = M (ks s) ?vs a"
    by (simp add: mem store64_byte)
  have "M k' ?vs (?o + of_nat j) = bs ! j" if "j < length bs" for j
    using that assms(12) by (simp add: mem store64_byte unat_of_nat get_set_bytes)
  with keep write_packet_eq [OF assms(4) run] assms(4) show ?thesis
    by (auto simp: BUFSIZE_def)
qed

theorem longer_write_is_misplaced_witness:
  "\<exists>x. gdb_handle_packet machine_kernel zero_context (\<lambda>_. (0, 0)) (write_text (str ''2000'') (str ''2'') [0x41, 0x42] [0])
       (replicate BUFSIZE 7) False one_thread = Inr x \<and> content (out x) = str ''OK'' \<and>
    mc_mem (ks (st x)) (i_vspace (inferiors one_thread 0)) 0x2000 =
      mc_mem (ks one_thread) (i_vspace (inferiors one_thread 0)) 0x2000 \<and>
    (\<forall>j < length [0x41 :: u8, 0x42]. mc_mem (ks (st x)) (i_vspace (inferiors one_thread 0))
       (0x2000 + of_nat (length [0x41 :: u8, 0x42] - 1) + of_nat j) = [0x41, 0x42] ! j)"
  by (rule longer_write_is_misplaced [OF machine_laws(1), where t = "(0, 0)"])
    (simp_all add: one_thread_def is_hex_def hexchar_to_int_def hex_number_def mc_mapped_def)

text \<open>A write to memory that is not mapped changes nothing, and is acknowledged with
  \<open>OK\<close>: the routine returns the address where it stopped, and the handler takes only the null
  pointer for a failure.\<close>

lemma failed_write_is_acknowledged:
  assumes "word_memory K M P" and "target_thread s = Some t" and "t_inferior (thr s (fst t) (snd t)) = Some i"
    and "length output = BUFSIZE" and "list_all is_hex ds" and "length ds \<le> 16" and "0 \<in> set r"
    and "list_all is_hex es" and "length es \<le> 16" and "0 < hex_number es" and "hex_number es \<le> 1023"
    and "a = of_nat (hex_number ds)" and "\<not> P (i_vspace (inferiors s i)) a" and "a \<noteq> 0"
  shows "\<exists>x. gdb_handle_packet K context ids (write_text ds es bs r) output d s = Inr x \<and> content (out x) = str ''OK'' \<and>
    st x = s\<lparr>ks := ks (st x)\<rparr> \<and> M (ks (st x)) = M (ks s)"
proof -
  obtain a' n where p: "parse_mem_format (write_text ds es bs r) = Inr (Some (a', n))"
    "unat a' = hex_number ds" "unat n = hex_number es"
    "find_char (write_text ds es bs r) (ch CHR '':'') BUFSIZE = Inr (Some (ch CHR '':'' # hex_encode bs @ r))"
    by (rule write_text_parse [OF assms(5,6,8,9,7)])
  have a: "a' = a"
    unfolding assms(12) p(2) [symmetric] by simp
  obtain k' where k': "inf_hex2mem K t (hex_encode bs @ r) a (int (hex_number es)) s = Inr (a, s\<lparr>ks := k'\<rparr>)" "M k' = M (ks s)"
    by (rule inf_hex2mem_unmapped [OF assms(1,3,13,10)])
  have "int_of_size n = int (hex_number es)"
    by (rule int_of_size_nat [OF p(3) assms(11)])
  with k' p(1,4) a assms(2,4,14)
  have "handle_write_mem K (write_text ds es bs r) (reply output []) s = Inr (reply (reply output []) (str ''OK''), s\<lparr>ks := k'\<rparr>)"
    by (simp add: handle_write_mem_def with_target_def copy_reply_ok)
  with k'(2) write_packet_eq [OF assms(4) this] assms(4) show ?thesis
    by (auto simp: BUFSIZE_def)
qed

section \<open>Register packets\<close>

text \<open>C20: The register packets read and write the registers of the target thread. The reply to
  \<open>g\<close> is the text of the registers in GDB's numbering, \<open>x0\<close> to \<open>x30\<close>, \<open>sp\<close> and \<open>pc\<close> with eight
  bytes each, and four bytes of the status register. A packet \<open>G\<close> with such a text gives each of
  these registers of the target the value that stands at its place; what the packet does not
  carry takes the value that the uninitialised structure on the stack happened to have.\<close>

theorem register_packets:
  fixes c v :: "'r user_context_scheme"
  assumes "register_file K R" and "target_thread s = Some t" and "length b = BUFSIZE"
  shows "(\<exists>x. gdb_handle_packet K c ids (ch CHR ''g'' # p) b d s = Inr x \<and> \<not> resumed x \<and> st x = s\<lparr>ks := ks (st x)\<rparr> \<and>
      R (ks (st x)) = R (ks s) \<and> content (out x) = hex_encode (reg_bytes (R (ks s) (t_tcb (thr s (fst t) (snd t)))))) \<and>
    (\<exists>x w. gdb_handle_packet K c ids (ch CHR ''G'' # hex_encode (reg_bytes v) @ r) b d s = Inr x \<and> \<not> resumed x \<and>
      st x = s\<lparr>ks := ks (st x)\<rparr> \<and> content (out x) = str ''OK'' \<and>
      R (ks (st x)) = (R (ks s))(t_tcb (thr s (fst t) (snd t)) := w) \<and>
      gdb_registers w = gdb_registers v \<and> word_bytes 4 (uc_spsr w) = word_bytes 4 (uc_spsr v) \<and>
      user_context.more w = user_context.more c)"
proof (rule conjI)
  let ?tcb = "t_tcb (thr s (fst t) (snd t))"
  obtain e w0 k' where rd: "TCB_ReadRegisters K (ks s) ?tcb c = ((e, w0), k')"
    by (metis prod.collapse)
  with assms(1) have rd': "w0 = R (ks s) ?tcb" "R k' = R (ks s)"
    unfolding register_file_def by (metis fst_conv snd_conv)+
  have "regs2hex (R (ks s) ?tcb) (reply b []) 0 =
      Inr (reply b (hex_encode (reg_bytes (R (ks s) ?tcb))), 536)"
    using regs2hex_patch [of 0 "reply b []" "R (ks s) ?tcb"] reply_append [of "[]" "hex_encode (reg_bytes (R (ks s) ?tcb))" b]
      assms(3) by (simp add: BUFSIZE_def length_hex_encode length_reg_bytes)
  then show "\<exists>x. gdb_handle_packet K c ids (ch CHR ''g'' # p) b d s = Inr x \<and> \<not> resumed x \<and> st x = s\<lparr>ks := ks (st x)\<rparr> \<and>
      R (ks (st x)) = R (ks s) \<and> content (out x) = hex_encode (reg_bytes (R (ks s) ?tcb))"
    using rd rd' assms(2,3) by (simp add: gdb_handle_packet_eq handle_read_regs_def)
  define w where "w = with_registers v c"
  have w: "hex2regs c (hex_encode (reg_bytes v) @ r) = Inr (r, w)" "gdb_registers w = gdb_registers v"
    "word_bytes 4 (uc_spsr w) = word_bytes 4 (uc_spsr v)" "user_context.more w = user_context.more c"
    using hex2regs_encode [of c v r] with_registers_sel [of v c] by (simp_all add: w_def)
  obtain e' k'' where wr: "TCB_WriteRegisters K (ks s) ?tcb w = (e', k'')"
    by fastforce
  with assms(1) have "R k'' = (R (ks s))(?tcb := w)"
    unfolding register_file_def by (metis snd_conv)
  with w wr assms(2,3) show "\<exists>x w. gdb_handle_packet K c ids (ch CHR ''G'' # hex_encode (reg_bytes v) @ r) b d s = Inr x \<and> \<not> resumed x \<and>
      st x = s\<lparr>ks := ks (st x)\<rparr> \<and> content (out x) = str ''OK'' \<and>
      R (ks (st x)) = (R (ks s))(?tcb := w) \<and> gdb_registers w = gdb_registers v \<and>
      word_bytes 4 (uc_spsr w) = word_bytes 4 (uc_spsr v) \<and> user_context.more w = user_context.more c"
    by (simp add: gdb_handle_packet_eq handle_write_regs_def copy_reply_ok) (auto simp: BUFSIZE_def)
qed

theorem register_packets_witness:
  "(\<exists>x. gdb_handle_packet machine_kernel zero_context (\<lambda>_. (0, 0)) (ch CHR ''g'' # [0]) (replicate BUFSIZE 7) False one_thread = Inr x \<and>
      \<not> resumed x \<and> st x = one_thread\<lparr>ks := ks (st x)\<rparr> \<and> mc_regs (ks (st x)) = mc_regs (ks one_thread) \<and>
      content (out x) = hex_encode (reg_bytes (mc_regs (ks one_thread) (t_tcb (thr one_thread (fst (0, 0)) (snd (0, 0))))))) \<and>
    (\<exists>x w. gdb_handle_packet machine_kernel zero_context (\<lambda>_. (0, 0)) (ch CHR ''G'' # hex_encode (reg_bytes (zero_context\<lparr>uc_x2 := 5, uc_pc := 4096\<rparr>)) @ [0])
        (replicate BUFSIZE 7) False one_thread = Inr x \<and>
      \<not> resumed x \<and> content (out x) = str ''OK'' \<and>
      mc_regs (ks (st x)) = (mc_regs (ks one_thread))(t_tcb (thr one_thread (fst (0, 0)) (snd (0, 0))) := w) \<and>
      uc_x1 w = 0 \<and> uc_x2 w = 5 \<and> uc_pc w = 4096)"
  using register_packets [OF machine_laws(5), where s = one_thread and t = "(0, 0)" and v = "zero_context\<lparr>uc_x2 := 5, uc_pc := 4096\<rparr>" and c = zero_context
      and ids = "\<lambda>_. (0, 0)" and p = "[0]" and r = "[0]" and d = False and b = "replicate BUFSIZE 7"]
  by (simp add: one_thread_def gdb_registers_def zero_context_def) blast

section \<open>Breakpoint packets\<close>

lemma parse_breakpoint_text:
  assumes "z = ch CHR ''Z'' \<or> z = ch CHR ''z''" "ch CHR ''0'' \<le> c" "c \<le> ch CHR ''4''"
    and "list_all is_hex ds" "length ds \<le> 16" "list_all is_hex es" "length es \<le> 16" "0 \<in> set t" "\<not> is_hex (hd t)"
  obtains a n where "parse_breakpoint_format (z # c # ch CHR '','' # ds @ ch CHR '','' # es @ t) =
      Inr (if hex_number es \<in> {1, 2, 4, 8} then Some (a, n) else None)"
    and "unat a = hex_number ds" and "unat n = hex_number es"
proof -
  have "\<not> is_hex (ch CHR '','')"
    by (simp add: is_hex_def hexchar_to_int_def)
  then obtain a where a: "hexstr_to_int (ds @ ch CHR '','' # es @ t) 16 0 = Inr (ch CHR '','' # es @ t, a)"
    "unat a = hex_number ds"
    using hexstr_digits [OF assms(4,5), of "ch CHR '','' # es @ t"] assms(8) by auto
  obtain n where n: "hexstr_to_int (es @ t) 16 0 = Inr (t, n)" "unat n = hex_number es"
    using hexstr_digits [OF assms(6-9)] by blast
  have "n = of_nat (hex_number es)"
    unfolding n(2) [symmetric] by simp
  then have "(n \<noteq> 1 \<and> n \<noteq> 2 \<and> n \<noteq> 4 \<and> n \<noteq> 8) = (hex_number es \<notin> {1, 2, 4, 8})"
    unfolding n(2) [symmetric] by (simp add: word_unat_eq_iff)
  then show thesis
    using that [of a n] a n assms(1-3) by (auto simp: parse_breakpoint_format_def)
qed

lemma starts_2: "ch x \<noteq> (0 :: u8) \<Longrightarrow> starts (a # b # p) [x, y] 2 = Inr (a = ch x \<and> b = ch y)"
proof -
  assume "ch x \<noteq> (0 :: u8)"
  moreover have "(uint a - uint (ch x :: u8) = 0) = (a = ch x)" "(uint b - uint (ch y :: u8) = 0) = (b = ch y)"
    by (simp_all add: word_uint_eq_iff)
  ultimately show ?thesis
    by (auto simp: starts_def cstr_def numeral_2_eq_2 Let_def)
qed

text \<open>The operation that a packet asks for: what is set, what is cleared, and where.\<close>

definition debug_op :: "('k, 'r) kernel \<Rightarrow> bool \<Rightarrow> u8 \<Rightarrow> nat \<Rightarrow> u64 \<Rightarrow> u64 \<Rightarrow> 'k gdb \<Rightarrow> bool \<times> 'k gdb" where
  "debug_op K on c i a n =
    (if c = ch CHR ''0'' then (if on then set_software_breakpoint K i a else unset_software_breakpoint K i a)
     else if c = ch CHR ''1'' then (if on then set_hardware_breakpoint K i a else unset_hardware_breakpoint K i a)
     else (let type = (if c = ch CHR ''2'' then seL4_BreakOnWrite K
                       else if c = ch CHR ''3'' then seL4_BreakOnRead K else seL4_BreakOnReadWrite K)
           in if on then set_hardware_watchpoint K i a type n else unset_hardware_watchpoint K i a type n))"

lemma digit_upto_4: "ch CHR ''0'' \<le> c \<Longrightarrow> c \<le> ch CHR ''4'' \<Longrightarrow>
    c \<in> {ch CHR ''0'', ch CHR ''1'', ch CHR ''2'', ch CHR ''3'', ch CHR ''4''}"
proof -
  assume "ch CHR ''0'' \<le> c" "c \<le> ch CHR ''4''"
  then have "48 \<le> unat c" "unat c \<le> 52"
    by (simp_all add: word_le_nat_alt)
  then have "unat c \<in> {48, 49, 50, 51, 52}"
    by auto
  then show ?thesis
    by (simp add: word_unat_eq_iff)
qed

definition debug_packet :: "bool \<Rightarrow> u8 \<Rightarrow> u8 list \<Rightarrow> u8 list \<Rightarrow> u8 list \<Rightarrow> cptr" where
  "debug_packet on c ds es t = (if on then ch CHR ''Z'' else ch CHR ''z'') # c # ch CHR '','' # ds @ ch CHR '','' # es @ t"

lemma debug_packet_result:
  assumes "target_thread s = Some u" and "t_inferior (thr s (fst u) (snd u)) = Some i" and "length output = BUFSIZE"
    and "ch CHR ''0'' \<le> c" "c \<le> ch CHR ''4''"
    and "list_all is_hex ds" "length ds \<le> 16" "list_all is_hex es" "length es \<le> 16" "0 \<in> set t" "\<not> is_hex (hd t)"
  shows "gdb_handle_packet K context ids (debug_packet on c ds es t) output d s =
    Inr (finish False d
      (if hex_number es \<in> {1, 2, 4, 8}
       then (let (ok, s') = debug_op K on c i (of_nat (hex_number ds)) (of_nat (hex_number es)) s
             in (reply output (str (if ok then ''OK'' else ''E01'')), s'))
       else (reply output (str ''E01''), s)))"
proof -
  let ?z = "if on then ch CHR ''Z'' else ch CHR ''z''"
  let ?p = "?z # c # ch CHR '','' # ds @ ch CHR '','' # es @ t"
  obtain a n where parse: "parse_breakpoint_format ?p = Inr (if hex_number es \<in> {1, 2, 4, 8} then Some (a, n) else None)"
    and an: "unat a = hex_number ds" "unat n = hex_number es"
    by (rule parse_breakpoint_text [OF _ assms(4-11), where z = ?z]) simp_all
  have an': "of_nat (hex_number ds) = a" "of_nat (hex_number es) = n"
    unfolding an [symmetric] by simp_all
  have "handle_configure_debug_events K ?p (reply output []) s = Inr
      (if hex_number es \<in> {1, 2, 4, 8}
       then (let (ok, s') = debug_op K on c i a n s
             in (reply output (str (if ok then ''OK'' else ''E01'')), s'))
       else (reply output (str ''E01''), s))"
  proof (cases "hex_number es \<in> {1, 2, 4, 8}")
    case True
    have "c \<in> {ch CHR ''0'', ch CHR ''1'', ch CHR ''2'', ch CHR ''3'', ch CHR ''4''}"
      by (rule digit_upto_4 [OF assms(4,5)])
    then show ?thesis
      using True parse assms(1-3)
      by (elim insertE emptyE; simp add: handle_configure_debug_events_def starts_2 with_target_inferior_def
            copy_reply_ok debug_op_def split_def; simp add: BUFSIZE_def)
  next
    case False
    then show ?thesis
      using parse assms(3) by (simp add: handle_configure_debug_events_def copy_reply_ok) (simp add: BUFSIZE_def)
  qed
  moreover have "gdb_handle_packet K context ids ?p output d s =
      bindR (handle_configure_debug_events K ?p (reply output []) s) (\<lambda>x. Inr (finish False d x))"
    by (cases on) (simp_all add: gdb_handle_packet_eq [OF assms(3)])
  ultimately show ?thesis
    unfolding debug_packet_def an' by (simp only: bindR_Inr)
qed

text \<open>C21: A breakpoint or watchpoint packet does exactly the operation it asks for, on the
  inferior of the target thread and at the address and with the size it gives, and the reply
  says whether the operation succeeded. A packet with a size other than 1, 2, 4 and 8 is
  rejected and changes nothing. Any other digit than 0 to 4 stops the debugger at an
  assertion.\<close>

theorem breakpoint_packet_outcome:
  assumes "target_thread s = Some u" and "t_inferior (thr s (fst u) (snd u)) = Some i" and "length b = BUFSIZE"
    and "list_all is_hex ds" "length ds \<le> 16" "list_all is_hex es" "length es \<le> 16" "0 \<in> set t" "\<not> is_hex (hd t)"
  shows "gdb_handle_packet K uc ids (debug_packet on c ds es t) b d s =
    (if ch CHR ''0'' \<le> c \<and> c \<le> ch CHR ''4''
     then Inr (finish False d
      (if hex_number es \<in> {1, 2, 4, 8}
       then (let (ok, s') = debug_op K on c i (of_nat (hex_number ds)) (of_nat (hex_number es)) s
             in (reply b (str (if ok then ''OK'' else ''E01'')), s'))
       else (reply b (str ''E01''), s)))
     else Inl AssertFail)"
proof (cases "ch CHR ''0'' \<le> c \<and> c \<le> ch CHR ''4''")
  case True
  then show ?thesis
    using debug_packet_result [OF assms(1-3) conjunct1 [OF True] conjunct2 [OF True] assms(4-9)] by (simp only: True simp_thms if_True)
next
  case False
  then have "handle_configure_debug_events K (debug_packet on c ds es t) b' s = Inl AssertFail" for b'
    by (cases on) (auto simp: handle_configure_debug_events_def parse_breakpoint_format_def debug_packet_def assertR_def)
  then show ?thesis
    using False by (cases on) (auto simp: debug_packet_def gdb_handle_packet_eq [OF assms(3)])
qed

theorem breakpoint_packet_outcome_witness:
  "gdb_handle_packet machine_kernel zero_context (\<lambda>_. (0, 0)) (debug_packet True (ch CHR ''2'') (str ''2000'') (str ''4'') [0])
      (replicate BUFSIZE 7) False one_thread =
    Inr (finish False False (let (ok, s') = set_hardware_watchpoint machine_kernel 0 0x2000 (seL4_BreakOnWrite machine_kernel) 4 one_thread
      in (reply (replicate BUFSIZE 7) (str (if ok then ''OK'' else ''E01'')), s')))"
  using breakpoint_packet_outcome [where s = one_thread and u = "(0, 0)" and i = 0 and K = machine_kernel and
      b = "replicate BUFSIZE 7" and ds = "str ''2000''" and es = "str ''4''" and t = "[0]" and c = "ch CHR ''2''" and on = True and
      d = False and ids = "\<lambda>_. (0, 0)" and uc = zero_context]
  by (simp add: one_thread_def is_hex_def hexchar_to_int_def hex_number_def debug_op_def)



section \<open>The list of threads\<close>

lemma starts_iff:
  assumes "0 \<in> set p" and "0 \<notin> set (str t)" and "n = length t"
  shows "starts p t n = Inr (take n p = str t)"
  using strncmp_prefix [OF assms(1,2), of "[0]"] assms(3) by (auto simp: starts_def cstr_def)

lemma iterR_filter: "iterR (\<lambda>j s. if P j then f j s else Inr s) js s = iterR f (filter P js) s"
  by (induction js arbitrary: s) (auto intro: bindR_cong)

lemma iterR_concat: "iterR (\<lambda>i. iterR f (h i)) xs s = iterR f (concat (map h xs)) s"
  by (induction xs arbitrary: s) (auto simp: iterR_append intro: bindR_cong)

lemma iterR_map: "iterR f (map g xs) s = iterR (\<lambda>x. f (g x)) xs s"
  by (induction xs arbitrary: s) (auto intro: bindR_cong)

text \<open>The threads that are enabled in an enabled inferior, in the order of the tables.\<close>

definition thread_list :: "'k gdb \<Rightarrow> (nat \<times> nat) list" where
  "thread_list s = concat (map (\<lambda>i. if i_enabled (inferiors s i)
     then map (Pair i) (filter (\<lambda>j. t_enabled (thr s i j)) [0..<MAX_THREADS]) else []) [0..<MAX_PDS])"

lemma print_threads_list:
  "print_threads s b = bindR (put b 0 (ch CHR ''m'')) (\<lambda>b.
     bindR (iterR (print_thread s) (thread_list s) (b, 1, 0)) (\<lambda>(b, _, _). Inr b))"
proof -
  have "(\<lambda>i st.
        if i_enabled (inferiors s i)
        then iterR (\<lambda>j st. if t_enabled (thr s i j) then print_thread s (i, j) st else Inr st) [0..<MAX_THREADS] st
        else Inr st) =
      (\<lambda>i. iterR (print_thread s) (if i_enabled (inferiors s i)
        then map (Pair i) (filter (\<lambda>j. t_enabled (thr s i j)) [0..<MAX_THREADS]) else []))"
    by (intro ext) (simp add: iterR_map iterR_filter)
  then show ?thesis
    by (simp add: print_threads_def thread_list_def iterR_concat)
qed

lemma thread_list_iff: "(i, j) \<in> set (thread_list s) \<longleftrightarrow>
    i < MAX_PDS \<and> j < MAX_THREADS \<and> i_enabled (inferiors s i) \<and> t_enabled (thr s i j)"
  by (auto simp: thread_list_def)

lemma print_thread_next:
  assumes "t_inferior (thr s (fst t) (snd t)) = Some i" and "length xs + 7 < length b"
  shows "print_thread s t (reply b xs, length xs, Suc n) =
    Inr (reply b (xs @ ch CHR '','' # thread_text s t), length xs + 7, Suc (Suc n))"
proof -
  have 1: "put (reply b xs) (length xs) (ch CHR '','') = Inr (patch (reply b xs) (length xs) [ch CHR '',''])"
    using assms(2) by (simp add: put_patch)
  have "patch (patch (reply b xs) (length xs) [ch CHR '','']) (length xs + 1) (thread_text s t @ [0]) =
      patch (reply b xs) (length xs) ([ch CHR '',''] @ thread_text s t @ [0])"
    using assms(2) patch_patch [of "length xs" "[ch CHR '','']" "reply b xs" "thread_text s t @ [0]"] by simp
  also have "\<dots> = reply b (xs @ ch CHR '','' # thread_text s t)"
    using assms(2) reply_append [of xs "ch CHR '','' # thread_text s t" b] by simp
  finally have "write_thread_id s t (patch (reply b xs) (length xs) [ch CHR '','']) (length xs + 1) =
      Inr (reply b (xs @ ch CHR '','' # thread_text s t), length xs + 7)"
    using assms(2) write_thread_id_patch [OF assms(1), of "length xs + 1" "patch (reply b xs) (length xs) [ch CHR '','']"]
    by simp
  with 1 show ?thesis
    by (simp add: print_thread_def)
qed

lemma print_thread_first:
  assumes "t_inferior (thr s (fst t) (snd t)) = Some i" and "8 < length b"
  shows "print_thread s t (b[0 := ch CHR ''m''], 1, 0) = Inr (reply b (ch CHR ''m'' # thread_text s t), 7, 1)"
proof -
  have 1: "b[0 := ch CHR ''m''] = patch b 0 [ch CHR ''m'']"
    using assms(2) by (cases b) (auto simp: patch_def)
  have "patch (patch b 0 [ch CHR ''m'']) 1 (thread_text s t @ [0]) = reply b (ch CHR ''m'' # thread_text s t)"
    using assms(2) patch_patch [of 0 "[ch CHR ''m'']" b "thread_text s t @ [0]"] by (simp add: reply_def)
  with assms(2) write_thread_id_patch [OF assms(1), of 1 "patch b 0 [ch CHR ''m'']"] show ?thesis
    by (simp add: print_thread_def 1 [simplified])
qed

lemma write_thread_id_overflow:
  assumes "t_inferior (thr s (fst t) (snd t)) = Some i" and "length b \<le> p + 6"
  shows "write_thread_id s t b p = Inl OutOfBounds"
proof -
  have hex: "mem2hex (word_bytes 2 (w :: u16)) c q 1 =
      (if q + 2 < length c then Inr (patch c q (hex_encode [ucast w] @ [0]), q + 2) else Inl OutOfBounds)" for w c q
    using mem2hex_gdb_id [of q c w] mem2hex_overflow [of 1 "word_bytes 2 w" c q] by auto
  show ?thesis
    using assms by (auto simp: write_thread_id_def hex [simplified] put_def)
qed

lemma print_thread_overflow:
  assumes "t_inferior (thr s (fst t) (snd t)) = Some i" and "length b \<le> p + 7"
  shows "print_thread s t (b, p, Suc n) = Inl OutOfBounds"
  using assms write_thread_id_overflow [OF assms(1), of "b[p := ch CHR '','']" "p + 1"]
  by (auto simp: print_thread_def put_def)

definition more_threads :: "'k gdb \<Rightarrow> (nat \<times> nat) list \<Rightarrow> u8 list" where
  "more_threads s ts = concat (map (\<lambda>t. ch CHR '','' # thread_text s t) ts)"

lemma length_more_threads: "length (more_threads s ts) = 7 * length ts"
  by (induction ts) (simp_all add: more_threads_def)

lemma print_threads_more:
  assumes "\<And>t. t \<in> set ts \<Longrightarrow> t_inferior (thr s (fst t) (snd t)) \<noteq> None" and "length xs < length b"
  shows "iterR (print_thread s) ts (reply b xs, length xs, Suc n) =
    (if length xs + 7 * length ts < length b
     then Inr (reply b (xs @ more_threads s ts), length xs + 7 * length ts, Suc n + length ts)
     else Inl OutOfBounds)"
  using assms
proof (induction ts arbitrary: xs n)
  case Nil
  then show ?case
    by (simp add: more_threads_def)
next
  case (Cons t ts)
  then obtain i where i: "t_inferior (thr s (fst t) (snd t)) = Some i"
    by fastforce
  show ?case
  proof (cases "length xs + 7 < length b")
    case True
    have "iterR (print_thread s) ts (reply b (xs @ ch CHR '','' # thread_text s t), length (xs @ ch CHR '','' # thread_text s t), Suc (Suc n)) =
      (if length (xs @ ch CHR '','' # thread_text s t) + 7 * length ts < length b
       then Inr (reply b ((xs @ ch CHR '','' # thread_text s t) @ more_threads s ts),
         length (xs @ ch CHR '','' # thread_text s t) + 7 * length ts, Suc (Suc n) + length ts)
       else Inl OutOfBounds)"
      by (rule Cons.IH) (use Cons.prems True in simp_all)
    with print_thread_next [OF i True, of n] show ?thesis
      by (simp add: more_threads_def add.assoc)
  next
    case False
    then show ?thesis
      using print_thread_overflow [OF i, of "reply b xs" "length xs" n] Cons.prems(2) by simp
  qed
qed

lemma gdb_wf_thread_inferior:
  "gdb_wf s \<Longrightarrow> (i, j) \<in> set (thread_list s) \<Longrightarrow> t_inferior (thr s i j) = Some i"
  by (auto simp: thread_list_iff gdb_wf_def threads_wf_def)

lemma distinct_thread_list: "distinct (thread_list s)"
proof -
  define h where "h = (\<lambda>i. if i_enabled (inferiors s i)
     then map (Pair i) (filter (\<lambda>j. t_enabled (thr s i j)) [0..<MAX_THREADS]) else [])"
  have h: "fst u = i" if "u \<in> set (h i)" for u i
    using that by (auto simp: h_def split: if_splits)
  have dh: "distinct (h i)" for i
    by (simp add: h_def distinct_map inj_on_def)
  have "distinct (concat (map h js))" if "distinct js" for js
    using that
  proof (induction js)
    case (Cons i js)
    have "u \<notin> set (h j)" if "u \<in> set (h i)" "j \<in> set js" for u j
      using h [OF that(1)] h [of u j] that(2) Cons.prems by auto
    then show ?case
      using Cons dh by auto
  qed simp
  then show ?thesis
    unfolding thread_list_def h_def [symmetric] by simp
qed

lemma print_threads_result:
  assumes "gdb_wf s" and "length b = BUFSIZE"
  shows "print_threads s b = (case thread_list s of
      [] \<Rightarrow> Inr (b[0 := ch CHR ''m''])
    | t # ts \<Rightarrow> if 7 * length (thread_list s) < BUFSIZE
               then Inr (reply b (ch CHR ''m'' # thread_text s t @ more_threads s ts)) else Inl OutOfBounds)"
proof (cases "thread_list s")
  case Nil
  then show ?thesis
    using assms(2) by (simp add: print_threads_list put_def BUFSIZE_def)
next
  case (Cons t ts)
  have all: "t_inferior (thr s (fst u) (snd u)) = Some (fst u)" if "u \<in> set (t # ts)" for u
    using gdb_wf_thread_inferior [OF assms(1), of "fst u" "snd u"] that Cons by simp
  have first: "print_thread s t (b[0 := ch CHR ''m''], 1, 0) = Inr (reply b (ch CHR ''m'' # thread_text s t), 7, 1)"
    using all [of t] assms(2) by (intro print_thread_first) (simp_all add: BUFSIZE_def)
  have "iterR (print_thread s) ts (reply b (ch CHR ''m'' # thread_text s t), length (ch CHR ''m'' # thread_text s t), Suc 0) =
    (if length (ch CHR ''m'' # thread_text s t) + 7 * length ts < length b
     then Inr (reply b ((ch CHR ''m'' # thread_text s t) @ more_threads s ts),
       length (ch CHR ''m'' # thread_text s t) + 7 * length ts, Suc 0 + length ts)
     else Inl OutOfBounds)"
    by (rule print_threads_more) (use all assms(2) in \<open>auto simp: BUFSIZE_def\<close>)
  with first show ?thesis
    using assms(2) by (auto simp: print_threads_list Cons put_def BUFSIZE_def)
qed

text \<open>C13: The reply to \<open>qfThreadInfo\<close> lists the identifiers of all registered threads, each once,
  in the order of the tables, as long as there are at most 292 of them. With more, the handler
  writes past the end of the output buffer, and with none it leaves a reply that is not
  terminated after its first character.\<close>

theorem thread_info_packet:
  assumes "gdb_wf s" and "length b = BUFSIZE"
  shows "gdb_handle_packet K uc ids (str ''qfThreadInfo'' @ 0 # r) b d s = (case thread_list s of
      [] \<Rightarrow> Inr (finish False d ((reply b [])[0 := ch CHR ''m''], s))
    | t # ts \<Rightarrow> if length (thread_list s) \<le> 292
               then Inr (finish False d (reply b (ch CHR ''m'' # thread_text s t @ more_threads s ts), s))
               else Inl OutOfBounds) \<and>
    distinct (thread_list s) \<and>
    set (thread_list s) = {(i, j). i < MAX_PDS \<and> j < MAX_THREADS \<and> i_enabled (inferiors s i) \<and> t_enabled (thr s i j)}"
proof (intro conjI)
  let ?p = "str ''qfThreadInfo'' @ 0 # r"
  have "starts ?p ''qSupported'' 10 = Inr False" "starts ?p ''qfThreadInfo'' 12 = Inr True"
    by (subst starts_iff; simp)+
  then have "handle_query ?p (reply b []) s = print_threads s (reply b [])"
    by (simp only: handle_query_def ifR_simps)
  moreover have "gdb_handle_packet K uc ids ?p b d s = bindR (handle_query ?p (reply b []) s) (\<lambda>x. Inr (finish False d (x, s)))"
    by (simp add: gdb_handle_packet_eq [OF assms(2)])
  moreover have "7 * n < BUFSIZE \<longleftrightarrow> n \<le> 292" for n
    by (simp add: BUFSIZE_def; linarith)
  ultimately show "gdb_handle_packet K uc ids ?p b d s = (case thread_list s of
      [] \<Rightarrow> Inr (finish False d ((reply b [])[0 := ch CHR ''m''], s))
    | t # ts \<Rightarrow> if length (thread_list s) \<le> 292
               then Inr (finish False d (reply b (ch CHR ''m'' # thread_text s t @ more_threads s ts), s))
               else Inl OutOfBounds)"
    using print_threads_result [OF assms(1) length_start [OF assms(2)]] assms(2)
    by (simp add: length_more_threads BUFSIZE_def split: list.split)
  show "set (thread_list s) = {(i, j). i < MAX_PDS \<and> j < MAX_THREADS \<and> i_enabled (inferiors s i) \<and> t_enabled (thr s i j)}"
    by (auto simp: thread_list_iff)
qed (rule distinct_thread_list)

theorem thread_info_packet_witness:
  "gdb_handle_packet machine_kernel zero_context (\<lambda>_. (0, 0)) (str ''qfThreadInfo'' @ 0 # []) (replicate BUFSIZE 7) False one_thread =
    (case thread_list one_thread of
      [] \<Rightarrow> Inr (finish False False ((reply (replicate BUFSIZE 7) [])[0 := ch CHR ''m''], one_thread))
    | t # ts \<Rightarrow> if length (thread_list one_thread) \<le> 292
               then Inr (finish False False (reply (replicate BUFSIZE 7) (ch CHR ''m'' # thread_text one_thread t @ more_threads one_thread ts), one_thread))
               else Inl OutOfBounds) \<and>
    distinct (thread_list one_thread) \<and>
    set (thread_list one_thread) = {(i, j). i < MAX_PDS \<and> j < MAX_THREADS \<and> i_enabled (inferiors one_thread i) \<and> t_enabled (thr one_thread i j)}"
  by (rule thread_info_packet [OF gdb_wf_one_thread]) simp

end
