(* ===== verification/Gdb_Faults.thy ===== *)
theory Gdb_Faults
  imports Gdb_Registry Gdb_Printf
begin

text \<open>
  Fault handling in \<open>src/gdb.c\<close>: a fault of a registered thread, reported by the kernel in the
  message registers, becomes a stop reply for GDB, and the thread becomes the target of the
  packets that follow.
\<close>

section \<open>Byte order\<close>

definition arch_to_big_endian :: "u64 \<Rightarrow> u64" where
  "arch_to_big_endian vaddr = set_bytes 0 0 (rev (word_bytes 8 vaddr))"

section \<open>Stop replies\<close>

text \<open>The text up to the thread identifier, which all stop replies begin with.\<close>

definition begin_stop :: "string \<Rightarrow> nat \<times> nat \<Rightarrow> u8 list \<Rightarrow> 'k gdb \<Rightarrow> (u8 list \<times> nat) res" where
  "begin_stop prefix thread output s =
    bindR (strlcpy output 0 (cstr prefix) BUFSIZE) (\<lambda>(output, _).
    bindR (strnlen output BUFSIZE) (\<lambda>n. write_thread_id s thread output n))"

definition handle_ss_hwbreak_swbreak_exception ::
  "('k, 'r) kernel \<Rightarrow> nat \<times> nat \<Rightarrow> u64 \<Rightarrow> u8 list \<Rightarrow> 'k gdb \<Rightarrow> (u8 list \<times> 'k gdb) res" where
  "handle_ss_hwbreak_swbreak_exception K thread reason output s =
    bindR (begin_stop ''T05thread:'' thread output s) (\<lambda>(output, ptr).
    bindR (strlcpy output ptr (cstr (if reason = seL4_SoftwareBreakRequest K then '';swbreak:;'' else '';hwbreak:;''))
       BUFSIZE) (\<lambda>(output, _).
    Inr (output, s\<lparr>target_thread := Some thread\<rparr>)))"

definition handle_watchpoint_exception ::
  "('k, 'r) kernel \<Rightarrow> nat \<times> nat \<Rightarrow> u64 \<Rightarrow> u64 \<Rightarrow> u8 list \<Rightarrow> 'k gdb \<Rightarrow> (u8 list \<times> 'k gdb) res" where
  "handle_watchpoint_exception K thread bp_num trigger_address output s =
    bindR (begin_stop ''T05thread:'' thread output s) (\<lambda>(output, ptr).
    deref (t_inferior (thr s (fst thread) (snd thread))) (\<lambda>i.
    let n = unat (bp_num - seL4_FirstWatchpoint K)
    in if \<not> n < seL4_NumExclusiveWatchpoints K then Inl OutOfBounds
       else (let type = hw_type (i_hw (inferiors s i) n)
             in bindR
               (if type = seL4_BreakOnWrite K then Inr '';watch:''
                else if type = seL4_BreakOnRead K then Inr '';rwatch:''
                else if type = seL4_BreakOnReadWrite K then Inr '';awatch:'' else Inl AssertFail) (\<lambda>kind.
             bindR (strlcpy output ptr (cstr kind) BUFSIZE) (\<lambda>(output, _).
             bindR (strnlen output BUFSIZE) (\<lambda>n.
             bindR (mem2hex (word_bytes 8 (arch_to_big_endian trigger_address)) output n 8) (\<lambda>(output, ptr).
             bindR (strlcpy output ptr (cstr '';'') BUFSIZE) (\<lambda>(output, _).
             Inr (output, s\<lparr>target_thread := Some thread\<rparr>)))))))))"

definition handle_debug_exception ::
  "('k, 'r) kernel \<Rightarrow> nat \<times> nat \<Rightarrow> u8 list \<Rightarrow> 'k gdb \<Rightarrow> (bool \<times> u8 list \<times> 'k gdb) res" where
  "handle_debug_exception K thread output s =
    (let reason = GetMR K (ks s) ExceptionReason;
         fault_ip = GetMR K (ks s) FaultIP;
         trigger_address = GetMR K (ks s) TriggerAddress;
         bp_num = GetMR K (ks s) BreakpointNumber
     in bindR
       (if reason = seL4_InstructionBreakpoint K \<or> reason = seL4_SingleStep K \<or> reason = seL4_SoftwareBreakRequest K
        then handle_ss_hwbreak_swbreak_exception K thread reason output s
        else if reason = seL4_DataBreakpoint K
        then handle_watchpoint_exception K thread bp_num trigger_address output s
        else Inr (output, s)) (\<lambda>(output, s). Inr (True, output, s)))"

definition handle_fault :: "nat \<times> nat \<Rightarrow> u8 list \<Rightarrow> 'k gdb \<Rightarrow> (bool \<times> u8 list \<times> 'k gdb) res" where
  "handle_fault thread output s =
    bindR (begin_stop ''T06thread:'' thread output s) (\<lambda>(output, ptr).
    bindR (strlcpy output ptr (cstr '';'') BUFSIZE) (\<lambda>(output, _).
    Inr (False, output, s\<lparr>target_thread := Some thread\<rparr>)))"

text \<open>The result is the code, and whether the fault is to be replied to when the handler ran.\<close>

definition gdb_handle_fault ::
  "('k, 'r) kernel \<Rightarrow> u64 \<Rightarrow> u64 \<Rightarrow> u64 \<Rightarrow> u8 list \<Rightarrow> 'k gdb \<Rightarrow> (DebuggerError \<times> bool option \<times> u8 list \<times> 'k gdb) res" where
  "gdb_handle_fault K inferior_id thread_id exception_reason output s =
    (case lookup_inferior_from_id inferior_id s of
       None \<Rightarrow> Inr (InvalidArguments, None, output, s)
     | Some i \<Rightarrow>
         (case lookup_thread_from_id i thread_id s of
            None \<Rightarrow> Inr (InvalidArguments, None, output, s)
          | Some j \<Rightarrow>
              bindR (if exception_reason = seL4_Fault_DebugException K
                     then handle_debug_exception K (i, j) output s
                     else handle_fault (i, j) output s) (\<lambda>(have_reply, output, s).
              Inr (NoError, Some have_reply, output, s))))"

section \<open>Big-endian hexadecimal\<close>

lemma word_bytes_big_endian: "word_bytes 8 (arch_to_big_endian a) = rev (word_bytes 8 a)"
  using word_bytes_set_bytes [of "rev (word_bytes 8 a)" "0 :: u64"] by (simp add: arch_to_big_endian_def)

lemma hex_number_Cons: "hex_number (d # ds) = nat (hexchar_to_int d) * 16 ^ length ds + hex_number ds"
proof -
  have "foldl (\<lambda>a d. 16 * a + nat (hexchar_to_int d)) v ds = v * 16 ^ length ds + foldl (\<lambda>a d. 16 * a + nat (hexchar_to_int d)) 0 ds"
    for v
  proof (induction ds rule: rev_induct)
    case (snoc d ds)
    then show ?case
      by (simp add: algebra_simps)
  qed simp
  from this [of "nat (hexchar_to_int d)"] show ?thesis
    by (simp add: hex_number_def)
qed

lemma hex_number_byte: "nat (hexchar_to_int (hex_hi b)) * 16 + nat (hexchar_to_int (hex_lo b)) = unat b"
proof -
  define x where "x = uint b"
  have x: "0 \<le> x" "hexchar_to_int (hex_hi b) = x div 16" "hexchar_to_int (hex_lo b) = x mod 16"
    by (simp_all add: x_def hexchar_hi hexchar_lo uint_hi uint_mod_distrib)
  then have "nat (hexchar_to_int (hex_hi b)) * 16 + nat (hexchar_to_int (hex_lo b)) = nat x"
    by (simp add: nat_div_distrib nat_mod_distrib)
  then show ?thesis
    by (simp add: x_def)
qed

lemma hex_number_encode_Cons: "hex_number (hex_encode (b # bs)) = unat b * 256 ^ length bs + hex_number (hex_encode bs)"
proof -
  have "(16 :: nat) ^ (2 * length bs) = 256 ^ length bs"
    by (simp add: power_mult)
  then have "hex_number (hex_encode (b # bs)) =
      (nat (hexchar_to_int (hex_hi b)) * 16 + nat (hexchar_to_int (hex_lo b))) * 256 ^ length bs + hex_number (hex_encode bs)"
    by (simp add: hex_number_Cons length_hex_encode algebra_simps)
  then show ?thesis
    by (simp only: hex_number_byte)
qed

lemma unat_get_byte_256: "unat (get_byte (w :: u64) i) = unat w div 256 ^ i mod 256"
  by (simp add: unat_get_byte power_mult)

lemma hex_number_rev_bytes: "hex_number (hex_encode (rev (word_bytes n (w :: u64)))) = unat w mod 256 ^ n"
proof (induction n)
  case 0
  then show ?case
    by (simp add: word_bytes_def hex_number_def)
next
  case (Suc n)
  have "rev (word_bytes (Suc n) w) = get_byte w n # rev (word_bytes n w)"
    by (simp add: word_bytes_def)
  then show ?case
    using Suc mod_mult2_eq [of "unat w" "256 ^ n" 256]
    by (simp only: hex_number_encode_Cons length_rev length_word_bytes unat_get_byte_256) (simp add: algebra_simps)
qed

definition address_text :: "u64 \<Rightarrow> u8 list" where
  "address_text a = hex_encode (word_bytes 8 (arch_to_big_endian a))"

lemma address_text_number: "hex_number (address_text a) = unat a"
  using hex_number_rev_bytes [of 8 a] unat_less_64 [of a]
  by (simp add: address_text_def word_bytes_big_endian)

lemma length_address_text [simp]: "length (address_text a) = 16"
  by (simp add: address_text_def length_hex_encode)

lemma address_text_hex: "list_all is_hex (address_text a)"
  unfolding address_text_def by (rule hex.encode_digits)

section \<open>The replies\<close>

lemma begin_stop_reply:
  assumes "t_inferior (thr s (fst t) (snd t)) = Some i" and "length p + 6 < length b" and "length p < BUFSIZE" and "0 \<notin> set (str p)"
  shows "begin_stop p t b s = Inr (reply b (str p @ thread_text s t), length p + 6)"
proof -
  have 1: "strlcpy b 0 (cstr p) BUFSIZE = Inr (reply b (str p), length p)"
    using assms(2,3,4) by (intro strlcpy_first) simp_all
  have 2: "strnlen (reply b (str p)) BUFSIZE = Inr (length p)"
    using strnlen_reply [OF assms(4), of b] assms(3) by simp
  have 3: "write_thread_id s t (reply b (str p)) (length p) = Inr (reply b (str p @ thread_text s t), length p + 6)"
    using write_thread_id_reply [OF assms(1), of "str p" b] assms(2) by simp
  show ?thesis
    unfolding begin_stop_def 1 bindR_Inr prod.case 2 3 ..
qed

lemma append_reply:
  assumes "n = length xs" and "length xs + length q < length b" and "length q < BUFSIZE" and "0 \<notin> set (str q)"
  shows "strlcpy (reply b xs) n (cstr q) BUFSIZE = Inr (reply b (xs @ str q), length q)"
  unfolding assms(1) using assms(2-4) by (rule strlcpy_reply)

lemma handle_fault_reply:
  assumes "t_inferior (thr s (fst t) (snd t)) = Some i" and "64 \<le> length b"
  shows "handle_fault t b s = Inr (False, reply b (str ''T06thread:'' @ thread_text s t @ str '';''), s\<lparr>target_thread := Some t\<rparr>)"
proof -
  have 1: "begin_stop ''T06thread:'' t b s = Inr (reply b (str ''T06thread:'' @ thread_text s t), 16)"
    using begin_stop_reply [OF assms(1), of "''T06thread:''" b] assms(2) by (simp add: BUFSIZE_def)
  have 2: "strlcpy (reply b (str ''T06thread:'' @ thread_text s t)) 16 (cstr '';'') BUFSIZE =
      Inr (reply b ((str ''T06thread:'' @ thread_text s t) @ str '';''), length '';'')"
    using assms(2) by (intro append_reply) (simp_all add: BUFSIZE_def)
  show ?thesis
    unfolding handle_fault_def 1 bindR_Inr prod.case 2 append_assoc ..
qed

lemma handle_break_reply:
  assumes "t_inferior (thr s (fst t) (snd t)) = Some i" and "64 \<le> length b"
  shows "handle_ss_hwbreak_swbreak_exception K t reason b s = Inr (reply b (str ''T05thread:'' @ thread_text s t @
    str (if reason = seL4_SoftwareBreakRequest K then '';swbreak:;'' else '';hwbreak:;'')), s\<lparr>target_thread := Some t\<rparr>)"
proof -
  let ?q = "if reason = seL4_SoftwareBreakRequest K then '';swbreak:;'' else '';hwbreak:;''"
  have 1: "begin_stop ''T05thread:'' t b s = Inr (reply b (str ''T05thread:'' @ thread_text s t), 16)"
    using begin_stop_reply [OF assms(1), of "''T05thread:''" b] assms(2) by (simp add: BUFSIZE_def)
  have 2: "strlcpy (reply b (str ''T05thread:'' @ thread_text s t)) 16 (cstr ?q) BUFSIZE =
      Inr (reply b ((str ''T05thread:'' @ thread_text s t) @ str ?q), length ?q)"
    using assms(2) by (intro append_reply) (simp_all add: BUFSIZE_def)
  show ?thesis
    unfolding handle_ss_hwbreak_swbreak_exception_def 1 bindR_Inr prod.case 2 append_assoc ..
qed

text \<open>The kind of a watchpoint in its reply.\<close>

definition watch_kind :: "('k, 'r) kernel \<Rightarrow> u64 \<Rightarrow> string option" where
  "watch_kind K type =
    (if type = seL4_BreakOnWrite K then Some '';watch:''
     else if type = seL4_BreakOnRead K then Some '';rwatch:''
     else if type = seL4_BreakOnReadWrite K then Some '';awatch:'' else None)"

lemma watch_kind_text: "watch_kind K type = Some q \<Longrightarrow> length q \<le> 8 \<and> 0 \<notin> set (str q)"
  by (auto simp: watch_kind_def split: if_splits)

lemma handle_watchpoint_reply:
  assumes inf: "t_inferior (thr s (fst t) (snd t)) = Some i" and len: "64 \<le> length b"
    and n: "n < seL4_NumExclusiveWatchpoints K" "bp_num = seL4_FirstWatchpoint K + of_nat n" "n < 2 ^ 64"
    and kind: "watch_kind K (hw_type (i_hw (inferiors s i) n)) = Some q"
  shows "handle_watchpoint_exception K t bp_num a b s = Inr (reply b (str ''T05thread:'' @ thread_text s t @ str q @
    address_text a @ str '';''), s\<lparr>target_thread := Some t\<rparr>)"
proof -
  note q = watch_kind_text [OF kind]
  let ?x = "str ''T05thread:'' @ thread_text s t" and ?h = "address_text a"
  have nz: "0 \<notin> set (?x @ str q)" "0 \<notin> set ?h"
    using q by (simp_all add: address_text_def)
  have 1: "begin_stop ''T05thread:'' t b s = Inr (reply b ?x, 16)"
    using begin_stop_reply [OF inf, of "''T05thread:''" b] len by (simp add: BUFSIZE_def)
  have idx: "unat (bp_num - seL4_FirstWatchpoint K) = n"
    using n by (simp add: unat_of_nat)
  have sel: "(if hw_type (i_hw (inferiors s i) n) = seL4_BreakOnWrite K then Inr '';watch:''
        else if hw_type (i_hw (inferiors s i) n) = seL4_BreakOnRead K then Inr '';rwatch:''
        else if hw_type (i_hw (inferiors s i) n) = seL4_BreakOnReadWrite K then Inr '';awatch:'' else Inl AssertFail) = Inr q"
    using kind by (auto simp: watch_kind_def split: if_splits)
  have 2: "strlcpy (reply b ?x) 16 (cstr q) BUFSIZE = Inr (reply b (?x @ str q), length q)"
    using len q by (intro append_reply) (simp_all add: BUFSIZE_def)
  have 3: "strnlen (reply b (?x @ str q)) BUFSIZE = Inr (length (?x @ str q))"
    using nz q by (intro strnlen_reply) (simp_all add: BUFSIZE_def)
  have 4: "mem2hex (word_bytes 8 (arch_to_big_endian a)) (reply b (?x @ str q)) (length (?x @ str q)) 8 =
      Inr (reply b ((?x @ str q) @ ?h), length (?x @ str q) + 16)"
    using mem2hex_patch [of 8 "word_bytes 8 (arch_to_big_endian a)" "length (?x @ str q)" "reply b (?x @ str q)"]
      reply_append [of "?x @ str q" ?h b] q len by (simp add: address_text_def)
  have 5: "strlcpy (reply b ((?x @ str q) @ ?h)) (length (?x @ str q) + 16) (cstr '';'') BUFSIZE =
      Inr (reply b (((?x @ str q) @ ?h) @ str '';''), length '';'')"
    using len q by (intro append_reply) (simp_all add: BUFSIZE_def)
  show ?thesis
    unfolding handle_watchpoint_exception_def 1 bindR_Inr prod.case inf deref_Some Let_def idx sel 2 3 4 5
    using n(1) by simp
qed

section \<open>Faults of registered threads\<close>

lemma lookup_thread_inferior:
  assumes "gdb_wf s" and "lookup_inferior_from_id x s = Some i" and "lookup_thread_from_id i y s = Some j"
  shows "t_inferior (thr s i j) = Some i" and "i < MAX_PDS" and "j < MAX_THREADS" and "i_enabled (inferiors s i)"
proof -
  have "i < MAX_PDS \<and> i_enabled (inferiors s i) \<and> j < MAX_THREADS \<and> t_enabled (thr s i j)"
    using inferior_table.lookup_SomeD [OF assms(2)] thread_table.lookup_SomeD [OF assms(3)]
    by (auto simp: inferior_ids_def thread_ids_def split: if_splits)
  then show "t_inferior (thr s i j) = Some i" "i < MAX_PDS" "j < MAX_THREADS" "i_enabled (inferiors s i)"
    using assms(1) by (auto simp: gdb_wf_def threads_wf_def)
qed

lemma gdb_handle_fault_unknown:
  "lookup_inferior_from_id x s = None \<Longrightarrow> gdb_handle_fault K x y r b s = Inr (InvalidArguments, None, b, s)"
  "lookup_inferior_from_id x s = Some i \<Longrightarrow> lookup_thread_from_id i y s = None \<Longrightarrow>
     gdb_handle_fault K x y r b s = Inr (InvalidArguments, None, b, s)"
  by (simp_all add: gdb_handle_fault_def)

text \<open>A state whose thread has run into a software break, and one whose second watchpoint fired.\<close>

definition stopped :: "u64 \<Rightarrow> machine gdb" where
  "stopped reason = upd_inf 0 (\<lambda>I. I\<lparr>i_hw := (i_hw I)(1 := \<lparr>hw_addr = 0x2000, hw_size = 4, hw_type = 1\<rparr>)\<rparr>)
     (one_thread\<lparr>ks := (ks one_thread)\<lparr>mc_mr :=
       (\<lambda>r. case r of ExceptionReason \<Rightarrow> reason | FaultIP \<Rightarrow> 0 | TriggerAddress \<Rightarrow> 0x2002 | BreakpointNumber \<Rightarrow> 7)\<rparr>\<rparr>)"

lemma gdb_wf_stopped: "gdb_wf (stopped reason)"
  by (rule gdb_wf_frame [OF gdb_wf_one_thread]) (simp_all add: stopped_def)

lemma stopped_lookups:
  "lookup_inferior_from_id 3 (stopped reason) = Some 0" "lookup_thread_from_id 0 5 (stopped reason) = Some 0"
  by (simp_all add: lookup_inferior_from_id_def lookup_thread_from_id_def find_upt_Some stopped_def one_thread_def
      MAX_PDS_def MAX_THREADS_def)

lemma stopped_mr:
  "GetMR machine_kernel (ks (stopped reason)) ExceptionReason = reason"
  "GetMR machine_kernel (ks (stopped reason)) TriggerAddress = 0x2002"
  "GetMR machine_kernel (ks (stopped reason)) BreakpointNumber = 7"
  by (simp_all add: stopped_def machine_kernel_def)

lemma stopped_watch: "hw_type (i_hw (inferiors (stopped reason) 0) 1) = 1"
  by (simp add: stopped_def)

section \<open>Properties\<close>

text \<open>C9: A fault of a registered thread becomes a stop reply that names the thread, and makes
  the thread the target: signal 6 and no answer to the fault for anything but a debug
  exception, and for a software break, a hardware breakpoint or a completed step a stop with
  its reason, after which the fault is answered. The state changes in nothing else, and a
  fault of an unknown thread is rejected and changes nothing.\<close>

theorem fault_reply_names_thread:
  assumes "gdb_wf s" and "lookup_inferior_from_id x s = Some i" and "64 \<le> length b"
    and "distinct [seL4_InstructionBreakpoint K, seL4_SingleStep K, seL4_SoftwareBreakRequest K, seL4_DataBreakpoint K]"
  shows "case lookup_thread_from_id i y s of
      None \<Rightarrow> gdb_handle_fault K x y r b s = Inr (InvalidArguments, None, b, s)
    | Some j \<Rightarrow>
        (r \<noteq> seL4_Fault_DebugException K \<longrightarrow> gdb_handle_fault K x y r b s =
           Inr (NoError, Some False, reply b (str ''T06thread:'' @ thread_text s (i, j) @ str '';''), s\<lparr>target_thread := Some (i, j)\<rparr>)) \<and>
        (r = seL4_Fault_DebugException K \<longrightarrow> GetMR K (ks s) ExceptionReason = seL4_SoftwareBreakRequest K \<longrightarrow>
           gdb_handle_fault K x y r b s = Inr (NoError, Some True,
             reply b (str ''T05thread:'' @ thread_text s (i, j) @ str '';swbreak:;''), s\<lparr>target_thread := Some (i, j)\<rparr>)) \<and>
        (r = seL4_Fault_DebugException K \<longrightarrow>
           GetMR K (ks s) ExceptionReason \<in> {seL4_InstructionBreakpoint K, seL4_SingleStep K} \<longrightarrow>
           gdb_handle_fault K x y r b s = Inr (NoError, Some True,
             reply b (str ''T05thread:'' @ thread_text s (i, j) @ str '';hwbreak:;''), s\<lparr>target_thread := Some (i, j)\<rparr>))"
proof (cases "lookup_thread_from_id i y s")
  case None
  then show ?thesis
    using gdb_handle_fault_unknown(2) [OF assms(2) None] by simp
next
  case (Some j)
  note inf = lookup_thread_inferior(1) [OF assms(1,2) Some]
  have "handle_fault (i, j) b s =
      Inr (False, reply b (str ''T06thread:'' @ thread_text s (i, j) @ str '';''), s\<lparr>target_thread := Some (i, j)\<rparr>)"
    by (rule handle_fault_reply) (simp_all add: inf assms(3))
  moreover have "handle_ss_hwbreak_swbreak_exception K (i, j) reason b s = Inr (reply b (str ''T05thread:'' @ thread_text s (i, j) @
      str (if reason = seL4_SoftwareBreakRequest K then '';swbreak:;'' else '';hwbreak:;'')), s\<lparr>target_thread := Some (i, j)\<rparr>)"
    for reason
    by (rule handle_break_reply) (simp_all add: inf assms(3))
  ultimately show ?thesis
    using assms(2,4) Some by (auto simp: gdb_handle_fault_def handle_debug_exception_def Let_def)
qed

theorem fault_reply_names_thread_witness:
  "gdb_handle_fault machine_kernel 3 5 7 (replicate 64 0) (stopped 3) = Inr (NoError, Some True,
     reply (replicate 64 0) (str ''T05thread:'' @ thread_text (stopped 3) (0, 0) @ str '';swbreak:;''),
     (stopped 3)\<lparr>target_thread := Some (0, 0)\<rparr>)"
  using fault_reply_names_thread [OF gdb_wf_stopped [of 3] stopped_lookups(1), where K = machine_kernel and
      b = "replicate 64 0" and y = 5 and r = 7]
  by (simp add: stopped_lookups stopped_mr)

text \<open>C19: When a watchpoint fires, the stop reply gives its kind and the address that was
  accessed, written so that it reads back as that address: the bytes of the address in
  big-endian order are the digits of the number.\<close>

theorem watchpoint_reply_gives_address:
  assumes "gdb_wf s" and "lookup_inferior_from_id x s = Some i" and "lookup_thread_from_id i y s = Some j"
    and "64 \<le> length b" and "GetMR K (ks s) ExceptionReason = seL4_DataBreakpoint K"
    and "seL4_DataBreakpoint K \<notin> {seL4_InstructionBreakpoint K, seL4_SingleStep K, seL4_SoftwareBreakRequest K}"
    and "n < seL4_NumExclusiveWatchpoints K" "n < 2 ^ 64"
    and "GetMR K (ks s) BreakpointNumber = seL4_FirstWatchpoint K + of_nat n"
    and "watch_kind K (hw_type (i_hw (inferiors s i) n)) = Some q" and "0 \<in> set r" and "\<not> is_hex (hd r)"
  shows "\<exists>ds. gdb_handle_fault K x y (seL4_Fault_DebugException K) b s = Inr (NoError, Some True,
      reply b (str ''T05thread:'' @ thread_text s (i, j) @ str q @ ds @ str '';''), s\<lparr>target_thread := Some (i, j)\<rparr>) \<and>
    hexstr_to_int (ds @ r) 16 0 = Inr (r, GetMR K (ks s) TriggerAddress)"
proof (intro exI conjI)
  let ?a = "GetMR K (ks s) TriggerAddress"
  note inf = lookup_thread_inferior(1) [OF assms(1-3)]
  have "handle_watchpoint_exception K (i, j) (GetMR K (ks s) BreakpointNumber) ?a b s =
      Inr (reply b (str ''T05thread:'' @ thread_text s (i, j) @ str q @ address_text ?a @ str '';''), s\<lparr>target_thread := Some (i, j)\<rparr>)"
    by (rule handle_watchpoint_reply [OF _ assms(4,7,9,8,10)]) (simp add: inf)
  with assms(2,3,5,6) show "gdb_handle_fault K x y (seL4_Fault_DebugException K) b s = Inr (NoError, Some True,
      reply b (str ''T05thread:'' @ thread_text s (i, j) @ str q @ address_text ?a @ str '';''), s\<lparr>target_thread := Some (i, j)\<rparr>)"
    by (auto simp: gdb_handle_fault_def handle_debug_exception_def Let_def)
  obtain v where "hexstr_to_int (address_text ?a @ r) 16 0 = Inr (r, v)" "unat v = hex_number (address_text ?a)"
    using hexstr_digits [OF address_text_hex _ assms(11,12), of ?a] by auto
  then show "hexstr_to_int (address_text ?a @ r) 16 0 = Inr (r, ?a)"
    by (simp add: address_text_number word_unat_eq_iff)
qed

theorem watchpoint_reply_gives_address_witness:
  "\<exists>ds. gdb_handle_fault machine_kernel 3 5 (seL4_Fault_DebugException machine_kernel) (replicate 64 0) (stopped 1) =
     Inr (NoError, Some True,
       reply (replicate 64 0) (str ''T05thread:'' @ thread_text (stopped 1) (0, 0) @ str '';watch:'' @ ds @ str '';''),
       (stopped 1)\<lparr>target_thread := Some (0, 0)\<rparr>) \<and>
    hexstr_to_int (ds @ cstr '';'') 16 0 = Inr (cstr '';'', GetMR machine_kernel (ks (stopped 1)) TriggerAddress)"
  by (rule watchpoint_reply_gives_address [OF gdb_wf_stopped stopped_lookups, where n = 1])
    (simp_all add: stopped_mr watch_kind_def cstr_def is_hex_def hexchar_to_int_def stopped_watch [simplified])

end
