(* ===== verification/Gdb_Shape.thy ===== *)
theory Gdb_Shape
  imports Gdb_Handlers Gdb_Faults
begin

text \<open>
  What the packet handlers leave alone: the tables of inferiors and threads, their identifiers
  and capabilities, and the target thread. Only \<open>H\<close> packets and faults change the target
  thread, and to a thread that exists; so every packet and every fault keeps a state well
  formed.
\<close>

section \<open>States of the same shape\<close>

definition same_shape :: "'k gdb \<Rightarrow> 'k gdb \<Rightarrow> bool" where
  "same_shape s s' \<longleftrightarrow>
    curr_inferior_idx s' = curr_inferior_idx s \<and> target_thread s' = target_thread s \<and>
    (\<forall>i. i_enabled (inferiors s' i) = i_enabled (inferiors s i) \<and> i_id (inferiors s' i) = i_id (inferiors s i) \<and>
       i_gdb_id (inferiors s' i) = i_gdb_id (inferiors s i) \<and> i_vspace (inferiors s' i) = i_vspace (inferiors s i) \<and>
       i_curr_thread_idx (inferiors s' i) = i_curr_thread_idx (inferiors s i)) \<and>
    (\<forall>i j. t_enabled (thr s' i j) = t_enabled (thr s i j) \<and> t_inferior (thr s' i j) = t_inferior (thr s i j) \<and>
       t_id (thr s' i j) = t_id (thr s i j) \<and> t_gdb_id (thr s' i j) = t_gdb_id (thr s i j) \<and>
       t_tcb (thr s' i j) = t_tcb (thr s i j))"

named_theorems shape_intros "operations that keep the shape of the state"

lemma same_shape_refl [simp, shape_intros]: "same_shape s s"
  by (simp add: same_shape_def)

lemma same_shape_trans: "same_shape s s1 \<Longrightarrow> same_shape s1 s2 \<Longrightarrow> same_shape s s2"
  by (simp add: same_shape_def)

lemma same_shape_sel:
  assumes "same_shape s s'"
  shows "i_enabled (inferiors s' i) = i_enabled (inferiors s i)" and "i_vspace (inferiors s' i) = i_vspace (inferiors s i)"
    and "t_enabled (thr s' i j) = t_enabled (thr s i j)" and "t_tcb (thr s' i j) = t_tcb (thr s i j)"
    and "target_thread s' = target_thread s"
  using assms by (simp_all add: same_shape_def)

lemma same_shape_threads: "same_shape s s' \<Longrightarrow> thread_list s' = thread_list s"
  unfolding thread_list_def by (simp only: same_shape_sel)

lemma gdb_wf_shape: "gdb_wf s \<Longrightarrow> same_shape s s' \<Longrightarrow> gdb_wf s'"
  by (erule gdb_wf_frame) (simp_all add: same_shape_def)

lemma same_shape_ks [shape_intros]: "same_shape s s' \<Longrightarrow> same_shape s (s'\<lparr>ks := k\<rparr>)"
  by (simp add: same_shape_def)

lemma same_shape_handled [shape_intros]: "same_shape s s' \<Longrightarrow> same_shape s (s'\<lparr>handled := h\<rparr>)"
  by (simp add: same_shape_def)

lemma same_shape_tables [shape_intros]:
  "same_shape s s' \<Longrightarrow> same_shape s (upd_inf i (\<lambda>I. I\<lparr>i_sw := f I\<rparr>) s')"
  "same_shape s s' \<Longrightarrow> same_shape s (upd_inf i (\<lambda>I. I\<lparr>i_hb := g I\<rparr>) s')"
  "same_shape s s' \<Longrightarrow> same_shape s (upd_inf i (\<lambda>I. I\<lparr>i_hw := h I\<rparr>) s')"
  "same_shape s s' \<Longrightarrow> same_shape s (upd_inf i (\<lambda>I. I\<lparr>i_sw := f I, i_hb := g I, i_hw := h I\<rparr>) s')"
  by (simp_all add: same_shape_def)

lemma same_shape_flags [shape_intros]:
  "same_shape s s' \<Longrightarrow> same_shape s (upd_thr i j (\<lambda>t. t\<lparr>t_wakeup := w t\<rparr>) s')"
  "same_shape s s' \<Longrightarrow> same_shape s (upd_thr i j (\<lambda>t. t\<lparr>t_ss_enabled := w t\<rparr>) s')"
  "same_shape s s' \<Longrightarrow> same_shape s (upd_thr i j (\<lambda>t. t\<lparr>t_ss_enabled := v t, t_wakeup := w t\<rparr>) s')"
  by (simp_all add: same_shape_def)

lemma same_shape_fold:
  assumes "\<And>i s. same_shape s (f i s)"
  shows "same_shape s (fold f is s)"
  by (rule fold_invariant) (auto intro: same_shape_trans assms)

lemma same_shape_iter:
  assumes "iterR f is s = Inr s'" and "\<And>i s s'. f i s = Inr s' \<Longrightarrow> same_shape s s'"
  shows "same_shape s s'"
  by (rule iterR_invariant [OF assms(1)]) (auto intro: same_shape_trans assms(2))

section \<open>Breakpoints and single-stepping\<close>

lemma set_sw_shape: "same_shape s (snd (set_software_breakpoint K i a s))"
  by (auto simp: set_software_breakpoint_def Let_def intro!: shape_intros split: prod.split option.split)

lemma unset_sw_shape: "same_shape s (snd (unset_software_breakpoint K i a s))"
  by (auto simp: unset_software_breakpoint_def Let_def intro!: shape_intros split: prod.split option.split)

lemma set_hb_shape: "same_shape s (snd (set_hardware_breakpoint K i a s))"
  by (auto simp: set_hardware_breakpoint_def Let_def intro!: shape_intros split: prod.split option.split)

lemma unset_hb_shape: "same_shape s (snd (unset_hardware_breakpoint K i a s))"
  by (auto simp: unset_hardware_breakpoint_def Let_def intro!: shape_intros split: prod.split option.split)

lemma set_hw_shape: "same_shape s (snd (set_hardware_watchpoint K i a ty sz s))"
  by (auto simp: set_hardware_watchpoint_def Let_def intro!: shape_intros split: prod.split option.split)

lemma unset_hw_shape: "same_shape s (snd (unset_hardware_watchpoint K i a ty sz s))"
  by (auto simp: unset_hardware_watchpoint_def Let_def intro!: shape_intros split: prod.split option.split)

lemma single_step_shape:
  "same_shape s (snd (enable_single_step K p s))" "same_shape s (snd (disable_single_step K p s))"
  by (auto simp: enable_single_step_def disable_single_step_def Let_def intro!: shape_intros)

lemmas breakpoint_shapes = set_sw_shape unset_sw_shape set_hb_shape unset_hb_shape set_hw_shape unset_hw_shape

section \<open>Continuing and detaching\<close>

lemma set_wakeups_shape: "same_shape s (set_wakeups w s)"
  unfolding set_wakeups_def by (auto intro!: same_shape_fold shape_intros)

lemma vcont_thread_shape: "vcont_thread K step inferior x s = Inr s' \<Longrightarrow> same_shape s s'"
  by (auto simp: vcont_thread_def deref_eq_Inr_iff bindR_eq_Inr_iff split_def Let_def single_step_shape
      intro!: shape_intros split: if_splits)

lemma vcont_target_shape: "vcont_target K step p t s = Inr s' \<Longrightarrow> same_shape s s'"
  by (auto simp: vcont_target_def bindR_eq_Inr_iff split: if_splits dest!: same_shape_iter [OF _ vcont_thread_shape])

lemma vcont_targets_shape:
  "vcont_targets K ids step input s = Inr (input', s') \<Longrightarrow> same_shape s s'"
proof (induction K ids step input s rule: vcont_targets.induct)
  case (2 K ids step c input s)
  then obtain q g h s1 d where run: "parse_thread_id input (fst (ids input)) (snd (ids input)) = Inr (Some q, g, h)"
    "vcont_target K step (sint g) (sint h) s = Inr s1" "peekR q = Inr d"
    "(if d = ch CHR '':'' then vcont_targets K ids step q s1 else Inr (q, s1)) = Inr (input', s')"
    by (auto simp: bindR_eq_Inr_iff split: option.splits)
  have "same_shape s1 s'"
    using run(4) "2.IH" [OF run(1) refl refl run(2) refl run(3)] by (auto split: if_splits)
  with vcont_target_shape [OF run(2)] show ?case
    by (rule same_shape_trans)
qed simp

lemma vcont_actions_shape:
  "vcont_actions K ids input b s = Inr (b', s') \<Longrightarrow> same_shape s s'"
proof (induction K ids input b s rule: vcont_actions.induct)
  case (2 K ids c input b s)
  show ?case
  proof (cases "c = 0 \<or> (\<forall>d q. nextR input = Inr (d, q) \<longrightarrow> d \<noteq> ch CHR ''s'' \<and> d \<noteq> ch CHR ''c'')")
    case True
    with "2.prems" show ?thesis
      by (auto simp: bindR_eq_Inr_iff split: if_splits)
  next
    case False
    then obtain d q where d: "nextR input = Inr (d, q)" "d = ch CHR ''s'' \<or> d = ch CHR ''c''" "c \<noteq> 0"
      by blast
    with "2.prems" obtain q' s1 where run: "vcont_targets K ids (d = ch CHR ''s'') q (set_wakeups (d \<noteq> ch CHR ''s'') s) = Inr (q', s1)"
      "vcont_actions K ids q' b s1 = Inr (b', s')"
      by (auto simp: bindR_eq_Inr_iff Let_def)
    have "same_shape s1 s'"
      using "2.IH" [OF d(3,1) refl d(2) refl run(1) refl run(2)] .
    with vcont_targets_shape [OF run(1)] set_wakeups_shape [of s "d \<noteq> ch CHR ''s''"] show ?thesis
      by (meson same_shape_trans)
  qed
qed simp

lemma detach_thread_shape: "same_shape s (detach_thread K i j s)"
  by (auto simp: detach_thread_def Let_def single_step_shape intro!: shape_intros)

lemma detach_inferior_shape: "same_shape s (detach_inferior K i s)"
proof (cases "i_enabled (inferiors s i)")
  case True
  show ?thesis
    unfolding detach_inferior_def Let_def using True
    by (auto intro!: same_shape_trans [OF _ same_shape_fold] detach_thread_shape shape_intros same_shape_fold
        unset_sw_shape unset_hb_shape unset_hw_shape)
qed (simp add: detach_inferior_def)

lemma handle_detach_shape: "handle_detach K b s = Inr (b', s') \<Longrightarrow> same_shape s s'"
  by (auto simp: handle_detach_def bindR_eq_Inr_iff intro!: same_shape_fold detach_inferior_shape)

section \<open>The other packets\<close>

lemmas branches = res_branches deref_eq_Inr_iff ifR_eq_Inr_iff

lemma handle_read_regs_shape: "handle_read_regs K uc b s = Inr (b', s') \<Longrightarrow> same_shape s s'"
  by (auto simp: handle_read_regs_def branches Let_def intro!: shape_intros)

lemma handle_write_regs_shape: "handle_write_regs K uc p b s = Inr (b', s') \<Longrightarrow> same_shape s s'"
  by (auto simp: handle_write_regs_def branches Let_def intro!: shape_intros)

lemma inf_mem2hex_shape: "inf_mem2hex K t a b p n s = Inr (r, b', s') \<Longrightarrow> same_shape s s'"
  by (auto simp: inf_mem2hex_def branches intro!: shape_intros)

lemma inf_hex2mem_shape: "inf_hex2mem K t p a n s = Inr (r, s') \<Longrightarrow> same_shape s s'"
  by (auto simp: inf_hex2mem_def branches intro!: shape_intros)

lemma with_target_eq_Inr: "with_target s n f = Inr x \<Longrightarrow> \<exists>t. f t = Inr x"
  by (auto simp: with_target_def branches)

lemma handle_read_mem_shape: "handle_read_mem K p b s = Inr (b', s') \<Longrightarrow> same_shape s s'"
  by (auto simp: handle_read_mem_def branches dest!: with_target_eq_Inr inf_mem2hex_shape)

lemma handle_write_mem_shape: "handle_write_mem K p b s = Inr (b', s') \<Longrightarrow> same_shape s s'"
  by (auto simp: handle_write_mem_def branches dest!: with_target_eq_Inr inf_hex2mem_shape)

lemma with_target_inferior_shape:
  assumes "with_target_inferior s f = Inr (r, s')" and "\<And>i. same_shape s (snd (f i))"
  shows "same_shape s s'"
  using assms by (auto simp: with_target_inferior_def branches) (metis snd_conv)

lemma handle_configure_shape:
  assumes "handle_configure_debug_events K p b s = Inr (b', s')"
  shows "same_shape s s'"
proof -
  have split: "same_shape s (snd (if c then x else y))" if "same_shape s (snd x)" "same_shape s (snd y)"
    for c and x y :: "bool \<times> 'a gdb"
    using that by simp
  show ?thesis
    using assms
    by (auto simp: handle_configure_debug_events_def branches Let_def
        elim!: with_target_inferior_shape intro: breakpoint_shapes split)
qed

section \<open>Well-formed states stay well formed\<close>

text \<open>A slot of the table of inferiors that was never used has no identifier, so no packet can
  select it.\<close>

definition gdb_inv :: "'k gdb \<Rightarrow> bool" where
  "gdb_inv s \<longleftrightarrow> gdb_wf s \<and> (\<forall>i<MAX_PDS. \<not> i_enabled (inferiors s i) \<longrightarrow> i_gdb_id (inferiors s i) = 0)"

lemma gdb_inv_shape: "gdb_inv s \<Longrightarrow> same_shape s s' \<Longrightarrow> gdb_inv s'"
  using gdb_wf_shape [of s s'] by (simp add: gdb_inv_def same_shape_def)

lemma lookup_thread_gdb_id_bounds:
  assumes "lookup_thread_from_gdb_id p t s = Inr (Some (i, j))"
  shows "i < MAX_PDS" and "j < MAX_THREADS" and "uint (i_gdb_id (inferiors s i)) = p"
  using assms by (auto simp: lookup_thread_from_gdb_id_def array_idx_def branches split: if_splits)

lemma gdb_inv_target:
  assumes "gdb_inv s" and "lookup_thread_from_gdb_id p t s = Inr (Some (i, j))" and "p \<noteq> 0" and "t_enabled (thr s i j)"
  shows "gdb_inv (s\<lparr>target_thread := Some (i, j)\<rparr>)"
proof -
  note b = lookup_thread_gdb_id_bounds [OF assms(2)]
  have en: "i_enabled (inferiors s i)"
    using assms(1,3) b by (auto simp: gdb_inv_def)
  then have "t_inferior (thr s i j) = Some i"
    using assms(1,4) b by (auto simp: gdb_inv_def gdb_wf_def threads_wf_def)
  then show ?thesis
    using assms(1) b en gdb_wf_target [of s i j] by (simp add: gdb_inv_def)
qed

lemma handle_set_inferior_inv:
  assumes "gdb_inv s" and "handle_set_inferior g p b s = Inr (b', s')"
  shows "gdb_inv s'"
  using assms by (auto simp: handle_set_inferior_def branches intro: gdb_inv_target)

lemma gdb_handle_packet_inv:
  assumes "gdb_inv s" and "gdb_handle_packet K uc ids p b d s = Inr x"
  shows "gdb_inv (st x)"
proof -
  note shapes = handle_read_regs_shape handle_write_regs_shape handle_read_mem_shape handle_write_mem_shape
    handle_detach_shape handle_configure_shape
  have cont: "same_shape s s'" if "handle_vcont K ids q b1 s = Inr (b2, s')" for q b1 b2 s'
    using vcont_actions_shape [OF that [unfolded handle_vcont_def]] by (simp add: same_shape_def)
  note kept = gdb_inv_shape [OF assms(1)]
  show ?thesis
    using assms(2) unfolding gdb_handle_packet_def Let_def branches
    by (elim exE conjE disjE)
      (auto dest!: shapes cont intro: kept assms(1) handle_set_inferior_inv [OF assms(1)])
qed

lemma gdb_handle_fault_inv:
  assumes "gdb_inv s" and "gdb_handle_fault K x y r b s = Inr (e, hr, b', s')"
  shows "gdb_inv s'"
proof -
  have live: "gdb_inv (s\<lparr>target_thread := Some (i, j)\<rparr>)"
    if "lookup_inferior_from_id x s = Some i" "lookup_thread_from_id i y s = Some j" for i j
  proof -
    have "i < MAX_PDS" "i_enabled (inferiors s i)" "j < MAX_THREADS" "t_enabled (thr s i j)"
      using inferior_table.lookup_SomeD [OF that(1)] thread_table.lookup_SomeD [OF that(2)]
      by (auto simp: inferior_ids_def thread_ids_def split: if_splits)
    then show ?thesis
      using assms(1) gdb_wf_target [of s i j] by (auto simp: gdb_inv_def gdb_wf_def threads_wf_def)
  qed
  show ?thesis
    using assms
    by (auto simp: gdb_handle_fault_def handle_debug_exception_def handle_ss_hwbreak_swbreak_exception_def
        handle_watchpoint_exception_def handle_fault_def branches Let_def intro: live)
qed

end
