(* ===== verification/Gdb_Control.thy ===== *)
theory Gdb_Control
  imports Gdb_Handlers
begin

text \<open>
  Packets that select, continue and step threads: what \<open>H\<close>, \<open>T\<close> and \<open>vCont\<close> do to the
  target thread, to the flags of the threads and to their single-stepping.
\<close>

section \<open>Selecting a thread\<close>

lemma live_thread:
  assumes "gdb_wf s" and "(i, j) \<in> set (thread_list s)"
  shows "i < MAX_PDS" and "j < MAX_THREADS" and "i_enabled (inferiors s i)" and "t_enabled (thr s i j)"
  using assms(2) by (simp_all add: thread_list_iff)

text \<open>A thread identifier in a packet, and what it names.\<close>

definition names :: "u8 list \<Rightarrow> u8 list \<Rightarrow> u32 \<Rightarrow> u32 \<Rightarrow> 'k gdb \<Rightarrow> nat \<Rightarrow> nat \<Rightarrow> bool" where
  "names ds es g h s i j \<longleftrightarrow> list_all is_hex ds \<and> list_all is_hex es \<and>
     (length ds = 1 \<or> length ds = 2) \<and> (length es = 1 \<or> length es = 2) \<and>
     sint (id_value ds g) = int (i + 1) \<and> sint (id_value es h) = uint (t_gdb_id (thr s i j))"

lemma names_parse:
  assumes "names ds es g h s i j" and "t \<noteq> []" and "\<not> is_hex (hd t)"
  obtains v w where "parse_thread_id (ch CHR ''p'' # ds @ ch CHR ''.'' # es @ t) g h = Inr (Some t, v, w)"
    and "sint v = int (i + 1)" and "sint w = uint (t_gdb_id (thr s i j))"
  using parse_thread_id_text [of ds es t g h] assms by (simp add: names_def)

lemma handle_check_thread_alive_live:
  assumes "gdb_wf s" and "(i, j) \<in> set (thread_list s)" and "t_gdb_id (thr s i j) \<noteq> 0" and "names ds es g 0 s i j"
    and "t \<noteq> []" and "\<not> is_hex (hd t)" and "length b = BUFSIZE"
  shows "handle_check_thread_alive g (ch CHR ''T'' # ch CHR ''p'' # ds @ ch CHR ''.'' # es @ t) b s = Inr (reply b (str ''OK''))"
proof -
  note live = live_thread [OF assms(1,2)]
  obtain v w where "parse_thread_id (ch CHR ''p'' # ds @ ch CHR ''.'' # es @ t) g 0 = Inr (Some t, v, w)"
    and "sint v = int (i + 1)" and "sint w = uint (t_gdb_id (thr s i j))"
    by (rule names_parse [OF assms(4-6)])
  with lookup_thread_gdb_id [OF assms(1) live(1,3,2,4) assms(3)] live assms(7) show ?thesis
    by (simp add: handle_check_thread_alive_def copy_reply_ok)
qed

lemma handle_set_inferior_live:
  assumes "gdb_wf s" and "(i, j) \<in> set (thread_list s)" and "t_gdb_id (thr s i j) \<noteq> 0" and "names ds es g 0 s i j"
    and "t \<noteq> []" and "\<not> is_hex (hd t)" and "length b = BUFSIZE" and "t_tcb (thr s i j) \<noteq> 0" and "c \<in> {ch CHR ''g'', ch CHR ''c''}"
  shows "handle_set_inferior g (ch CHR ''H'' # c # ch CHR ''p'' # ds @ ch CHR ''.'' # es @ t) b s =
    Inr (reply b (str ''OK''), s\<lparr>target_thread := Some (i, j)\<rparr>)"
proof -
  note live = live_thread [OF assms(1,2)]
  obtain v w where p: "parse_thread_id (ch CHR ''p'' # ds @ ch CHR ''.'' # es @ t) g 0 = Inr (Some t, v, w)"
    and v: "sint v = int (i + 1)" and w: "sint w = uint (t_gdb_id (thr s i j))"
    by (rule names_parse [OF assms(4-6)])
  have nonneg: "0 \<le> uint (t_gdb_id (thr s i j))"
    by simp
  have "uint (t_gdb_id (thr s i j)) \<noteq> 0" "uint (t_gdb_id (thr s i j)) \<noteq> -1"
    using assms(3) uint_0_iff [of "t_gdb_id (thr s i j)"] nonneg by (blast, linarith)
  with p v w lookup_thread_gdb_id [OF assms(1) live(1,3,2,4) assms(3)] lookup_inferior_gdb_id(1) [OF assms(1) live(1,3)]
    live assms(7,8,9) show ?thesis
    by (auto simp: handle_set_inferior_def copy_reply_ok)
qed

section \<open>The wakeup flags\<close>

definition mark :: "bool \<Rightarrow> gdb_thread \<Rightarrow> gdb_thread" where
  "mark w t = (if t_enabled t then t\<lparr>t_wakeup := w\<rparr> else t)"

lemma mark_sel [simp]:
  "t_enabled (mark w t) = t_enabled t" "t_ss_enabled (mark w t) = t_ss_enabled t" "t_inferior (mark w t) = t_inferior t"
  "t_id (mark w t) = t_id t" "t_gdb_id (mark w t) = t_gdb_id t" "t_tcb (mark w t) = t_tcb t"
  "t_wakeup (mark w t) = (if t_enabled t then w else t_wakeup t)"
  by (simp_all add: mark_def)

lemma mark_inferior:
  "fold (\<lambda>j s. if t_enabled (thr s i j) then upd_thr i j (\<lambda>t. t\<lparr>t_wakeup := w\<rparr>) s else s) js s =
     upd_inf i (\<lambda>I. I\<lparr>i_threads := (\<lambda>j. if j \<in> set js then mark w (i_threads I j) else i_threads I j)\<rparr>) s"
proof (induction js rule: rev_induct)
  case Nil
  then show ?case
    by (simp add: upd_inf_def)
next
  case (snoc j js)
  then show ?case
    by (auto simp: upd_inf_def upd_thr_def mark_def fun_eq_iff)
qed

definition marked :: "bool \<Rightarrow> gdb_inferior \<Rightarrow> gdb_inferior" where
  "marked w I = (if i_enabled I then I\<lparr>i_threads := (\<lambda>j. if j < MAX_THREADS then mark w (i_threads I j) else i_threads I j)\<rparr> else I)"

lemma marked_sel [simp]:
  "i_enabled (marked w I) = i_enabled I" "i_id (marked w I) = i_id I" "i_gdb_id (marked w I) = i_gdb_id I"
  "i_vspace (marked w I) = i_vspace I" "i_curr_thread_idx (marked w I) = i_curr_thread_idx I"
  "i_sw (marked w I) = i_sw I" "i_hb (marked w I) = i_hb I" "i_hw (marked w I) = i_hw I"
  "i_threads (marked w I) j = (if i_enabled I \<and> j < MAX_THREADS then mark w (i_threads I j) else i_threads I j)"
  by (simp_all add: marked_def)

lemma set_wakeups_eq:
  "set_wakeups w s = s\<lparr>inferiors := (\<lambda>i. if i < MAX_PDS then marked w (inferiors s i) else inferiors s i)\<rparr>"
proof -
  have "fold (\<lambda>i s. if i_enabled (inferiors s i)
      then fold (\<lambda>j s. if t_enabled (thr s i j) then upd_thr i j (\<lambda>t. t\<lparr>t_wakeup := w\<rparr>) s else s) [0..<MAX_THREADS] s
      else s) is s = s\<lparr>inferiors := (\<lambda>i. if i \<in> set is then marked w (inferiors s i) else inferiors s i)\<rparr>" if "distinct is" for "is"
    using that
  proof (induction "is" rule: rev_induct)
    case Nil
    then show ?case
      by simp
  next
    case (snoc i js)
    then show ?case
      by (auto simp: mark_inferior upd_inf_def marked_def fun_eq_iff)
  qed
  from this [of "[0..<MAX_PDS]"] show ?thesis
    by (simp add: set_wakeups_def)
qed

lemma set_wakeups_sel [simp]:
  "curr_inferior_idx (set_wakeups w s) = curr_inferior_idx s" "target_thread (set_wakeups w s) = target_thread s"
  "handled (set_wakeups w s) = handled s" "ks (set_wakeups w s) = ks s"
  "inferiors (set_wakeups w s) i = (if i < MAX_PDS then marked w (inferiors s i) else inferiors s i)"
  by (simp_all add: set_wakeups_eq)

section \<open>One action\<close>

lemma vcont_thread_live:
  assumes "j < MAX_THREADS" and "t_enabled (thr s i j)" and "\<not> handled s i j"
  shows "vcont_thread K step (Some i) (int j) s =
    Inr (upd_thr i j (\<lambda>t. t\<lparr>t_ss_enabled := (step \<or> t_ss_enabled t), t_wakeup := True\<rparr>)
      (s\<lparr>ks := TCB_ConfigureSingleStepping K (ks s) (t_tcb (thr s i j)) 0 (if step then 1 else 0),
         handled := (handled s)(i := (handled s i)(j := True))\<rparr>))"
  using assms by (auto simp: vcont_thread_def array_idx_def enable_single_step_def disable_single_step_def upd_thr_def upd_inf_def fun_eq_iff)

lemma vcont_thread_skip:
  assumes "j < MAX_THREADS" and "\<not> t_enabled (thr s i j)"
  shows "vcont_thread K step (Some i) (int j) s = Inr s"
  using assms by (simp add: vcont_thread_def array_idx_def)

lemma upto_map_int: "[0..int n - 1] = map int [0..<n]"
proof (induction n)
  case (Suc n)
  have "[0..int (Suc n) - 1] = [0..int n - 1] @ [int n]"
    using upto_rec2 [of 0 "int n"] by simp
  with Suc show ?case
    by simp
qed simp

section \<open>The packet\<close>

lemma starts_rec:
  "starts (c # p) (d # s) n = (if n = 0 then Inr True else if c \<noteq> ch d then Inr False else if c = 0 then Inr True else starts p s (n - 1))"
  "starts (c # p) [] n = (if n = 0 then Inr True else Inr (c = 0))"
proof -
  have ne: "(uint c - uint (ch d :: u8) = 0) = (c = ch d)" "(uint c - uint (0 :: u8) = 0) = (c = 0)"
    by (simp_all add: word_uint_eq_iff)
  show "starts (c # p) (d # s) n = (if n = 0 then Inr True else if c \<noteq> ch d then Inr False else if c = 0 then Inr True else starts p s (n - 1))"
    using ne by (cases n) (auto simp: starts_def cstr_def Let_def)
  show "starts (c # p) [] n = (if n = 0 then Inr True else Inr (c = 0))"
    using ne by (cases n) (auto simp: starts_def cstr_def Let_def)
qed

lemma starts_0: "starts p s 0 = Inr True"
  by (simp add: starts_def)

lemma vcont_packet_eq:
  assumes "length b = BUFSIZE"
  shows "gdb_handle_packet K uc ids (str ''vCont;'' @ q) b d s =
    bindR (vcont_actions K ids (ch CHR '';'' # q) (reply b []) (s\<lparr>handled := (\<lambda>_ _. False)\<rparr>))
      (\<lambda>x. Inr (finish True d x))"
proof -
  have "starts (str ''vCont;'' @ q) ''vCont?'' 7 = Inr False" "starts (str ''vCont;'' @ q) ''vCont;'' 6 = Inr True"
    by (simp_all add: starts_rec starts_0)
  then show ?thesis
    by (simp add: gdb_handle_packet_eq [OF assms] handle_vcont_def Let_def)
qed

lemma wf_set_wakeups: "gdb_wf s \<Longrightarrow> gdb_wf (set_wakeups w (s\<lparr>handled := h\<rparr>))"
  by (erule gdb_wf_frame) simp_all

lemma parse_thread_id_all:
  assumes "list_all is_hex ds" "length ds = 1 \<or> length ds = 2"
  shows "parse_thread_id (ch CHR ''p'' # ds @ ch CHR ''.'' # ch CHR ''-'' # ch CHR ''1'' # 0 # r) g h =
    Inr (Some (0 # r), id_value ds g, -1)"
proof -
  obtain x xs where "ds = x # xs"
    using assms(2) by (cases ds) auto
  with assms(1) have "starts (ds @ p) ''-1'' 3 = Inr False" for p
    using is_hex_not [of x] starts_other [of x "CHR ''-''" "xs @ p" "''1''" 2] by (simp add: numeral_3_eq_3 numeral_2_eq_2)
  moreover have "ch CHR ''.'' \<notin> set ds"
    using assms(1) is_hex_not by (auto simp: list_all_iff)
  then have "skip_dot (ds @ ch CHR ''.'' # p) 0 = Inr (p, length ds)" for p
    using skip_dot_skip [of ds p 0] by simp
  moreover have "starts (ch CHR ''-'' # ch CHR ''1'' # 0 # r) ''-1'' 3 = Inr True"
    by (simp add: starts_rec starts_0)
  ultimately show ?thesis
    unfolding parse_thread_id_def nextR_simps bindR_Inr prod.case
    by (simp add: read_id_digits [OF assms(2)] Let_def)
qed

lemma thread_list_cong:
  assumes "\<And>i. i_enabled (inferiors s' i) = i_enabled (inferiors s i)" and "\<And>i j. t_enabled (thr s' i j) = t_enabled (thr s i j)"
  shows "thread_list s' = thread_list s"
  unfolding thread_list_def assms ..

section \<open>Properties\<close>

text \<open>A thread identifier of one or two digits selects the thread it names: the packet
  \<open>Hg\<close> makes it the target thread and is acknowledged, and \<open>T\<close> reports it alive, for every
  registered thread of a well-formed state.\<close>

lemma thread_packets_select:
  assumes "gdb_wf s" and "(i, j) \<in> set (thread_list s)" and "t_gdb_id (thr s i j) \<noteq> 0" and "t_tcb (thr s i j) \<noteq> 0"
    and "c \<in> {ch CHR ''g'', ch CHR ''c''}" and "length b = BUFSIZE" and "t \<noteq> []" and "\<not> is_hex (hd t)"
    and "p = ch CHR ''p'' # ds @ ch CHR ''.'' # es @ t"
    and "names ds es (fst (ids (ch CHR ''H'' # c # p))) 0 s i j" and "names ds es (fst (ids (ch CHR ''T'' # p))) 0 s i j"
  shows "gdb_handle_packet K uc ids (ch CHR ''H'' # c # p) b d s =
      Inr (finish False d (reply b (str ''OK''), s\<lparr>target_thread := Some (i, j)\<rparr>)) \<and>
    gdb_handle_packet K uc ids (ch CHR ''T'' # p) b d s = Inr (finish False d (reply b (str ''OK''), s))"
proof -
  have "handle_set_inferior (fst (ids (ch CHR ''H'' # c # p))) (ch CHR ''H'' # c # p) (reply b []) s =
      Inr (reply (reply b []) (str ''OK''), s\<lparr>target_thread := Some (i, j)\<rparr>)"
    unfolding assms(9)
    by (rule handle_set_inferior_live [OF assms(1-3) assms(10) [unfolded assms(9)] assms(7,8) length_start [OF assms(6)] assms(4,5)])
  moreover have "handle_check_thread_alive (fst (ids (ch CHR ''T'' # p))) (ch CHR ''T'' # p) (reply b []) s =
      Inr (reply (reply b []) (str ''OK''))"
    unfolding assms(9)
    by (rule handle_check_thread_alive_live [OF assms(1-3) assms(11) [unfolded assms(9)] assms(7,8) length_start [OF assms(6)]])
  moreover have "reply (reply b []) (str ''OK'') = reply b (str ''OK'')"
    using assms(6) by (simp add: BUFSIZE_def)
  ultimately show ?thesis
    by (simp add: gdb_handle_packet_eq [OF assms(6)])
qed

text \<open>C31: The reply to \<open>vCont?\<close> offers actions without a thread, but such an action is not
  handled: after \<open>vCont;c\<close> or \<open>vCont;s\<close> the code expects a colon and stops at an assertion.
  An action it does not know is answered with an error, and the system is resumed all the same.\<close>

theorem vcont_without_thread:
  assumes "length b = BUFSIZE"
  shows "gdb_handle_packet K uc ids (str ''vCont?'' @ [0]) b d s = Inr (finish False d (reply b (str ''vCont;c;C;s;S''), s)) \<and>
    gdb_handle_packet K uc ids (str ''vCont;c'' @ [0]) b d s = Inl AssertFail \<and>
    gdb_handle_packet K uc ids (str ''vCont;s'' @ [0]) b d s = Inl AssertFail \<and>
    gdb_handle_packet K uc ids (str ''vCont;C05'' @ [0]) b d s =
      Inr (finish True d (reply b (str ''E04''), s\<lparr>handled := (\<lambda>_ _. False)\<rparr>))"
proof (intro conjI)
  have q: "starts (str ''vCont?'' @ [0]) ''vCont?'' 7 = Inr True"
    by (simp add: starts_rec starts_0)
  then show "gdb_handle_packet K uc ids (str ''vCont?'' @ [0]) b d s = Inr (finish False d (reply b (str ''vCont;c;C;s;S''), s))"
    using assms by (simp add: gdb_handle_packet_eq Let_def copy_reply_ok) (simp add: BUFSIZE_def)
  have eq: "gdb_handle_packet K uc ids (str (''vCont;'' @ q) @ [0]) b d s =
    bindR (vcont_actions K ids (ch CHR '';'' # str q @ [0]) (reply b []) (s\<lparr>handled := (\<lambda>_ _. False)\<rparr>))
      (\<lambda>x. Inr (finish True d x))" for q
    using vcont_packet_eq [OF assms, of K uc ids "str q @ [0]" d s] by (simp add: str_def)
  show "gdb_handle_packet K uc ids (str ''vCont;c'' @ [0]) b d s = Inl AssertFail"
    using eq [of "''c''"] by simp
  show "gdb_handle_packet K uc ids (str ''vCont;s'' @ [0]) b d s = Inl AssertFail"
    using eq [of "''s''"] by simp
  show "gdb_handle_packet K uc ids (str ''vCont;C05'' @ [0]) b d s =
      Inr (finish True d (reply b (str ''E04''), s\<lparr>handled := (\<lambda>_ _. False)\<rparr>))"
    using eq [of "''C05''"] assms by (simp add: copy_reply_ok) (simp add: BUFSIZE_def)
qed

theorem vcont_without_thread_witness:
  "gdb_handle_packet machine_kernel zero_context (\<lambda>_. (0, 0)) (str ''vCont?'' @ [0]) (replicate BUFSIZE 7) False one_thread =
      Inr (finish False False (reply (replicate BUFSIZE 7) (str ''vCont;c;C;s;S''), one_thread)) \<and>
    gdb_handle_packet machine_kernel zero_context (\<lambda>_. (0, 0)) (str ''vCont;c'' @ [0]) (replicate BUFSIZE 7) False one_thread = Inl AssertFail \<and>
    gdb_handle_packet machine_kernel zero_context (\<lambda>_. (0, 0)) (str ''vCont;s'' @ [0]) (replicate BUFSIZE 7) False one_thread = Inl AssertFail \<and>
    gdb_handle_packet machine_kernel zero_context (\<lambda>_. (0, 0)) (str ''vCont;C05'' @ [0]) (replicate BUFSIZE 7) False one_thread =
      Inr (finish True False (reply (replicate BUFSIZE 7) (str ''E04''), one_thread\<lparr>handled := (\<lambda>_ _. False)\<rparr>))"
  by (rule vcont_without_thread) simp

end
