(* ===== verification/Gdb_Detach.thy ===== *)
theory Gdb_Detach
  imports Gdb_Shape Gdb_Breakpoints
begin

text \<open>
  Detaching: after a \<open>D\<close> packet the program of every inferior is as it was before the first
  breakpoint, no breakpoint register of a thread is in use, and every thread is to run on.
\<close>

section \<open>Only one inferior\<close>

text \<open>The operations on one inferior leave the others, and the memory of the others, alone.\<close>

definition only_inferior :: "('k \<Rightarrow> u64 \<Rightarrow> memory) \<Rightarrow> nat \<Rightarrow> 'k gdb \<Rightarrow> 'k gdb \<Rightarrow> bool" where
  "only_inferior M i s s' \<longleftrightarrow> same_shape s s' \<and> (\<forall>i'. i' \<noteq> i \<longrightarrow> inferiors s' i' = inferiors s i') \<and>
    (\<forall>vs. vs \<noteq> i_vspace (inferiors s i) \<longrightarrow> M (ks s') vs = M (ks s) vs)"

lemma only_inferior_refl [simp]: "only_inferior M i s s"
  by (simp add: only_inferior_def)

lemma only_inferior_trans: "only_inferior M i s s1 \<Longrightarrow> only_inferior M i s1 s2 \<Longrightarrow> only_inferior M i s s2"
  by (auto simp: only_inferior_def same_shape_sel intro: same_shape_trans)

lemma only_inferior_fold:
  assumes "\<And>n s. only_inferior M i s (f n s)"
  shows "only_inferior M i s (fold f ns s)"
  by (rule fold_invariant) (auto intro: only_inferior_trans assms)

lemma unset_sw_only:
  assumes "word_memory K M P"
  shows "only_inferior M i s (snd (unset_software_breakpoint K i a s))"
proof -
  have "M (snd (VSpace_Write_Word K k vs a v)) vs' = M k vs'" if "vs' \<noteq> vs" for k vs v vs'
    using word_memoryD(5,7) [OF assms, where k = k and vs = vs and a = a and v = v] that by (cases "P vs a") simp_all
  then show ?thesis
    using unset_sw_shape [of s K i a]
    by (auto simp: only_inferior_def unset_software_breakpoint_def Let_def split_def split: option.split)
qed

lemma unset_in_threads_memory:
  assumes "breakpoints_keep_memory K M"
  shows "M (unset_in_threads K ths num js k) = M k"
  unfolding unset_in_threads_def
  by (rule fold_invariant) (use assms in \<open>auto simp: breakpoints_keep_memory_def\<close>)

lemma unset_hb_only:
  assumes "breakpoints_keep_memory K M"
  shows "only_inferior M i s (snd (unset_hardware_breakpoint K i a s))"
    and "M (ks (snd (unset_hardware_breakpoint K i a s))) = M (ks s)"
  using unset_hb_shape [of s K i a]
  by (auto simp: only_inferior_def unset_hardware_breakpoint_def unset_in_threads_memory [OF assms] split: option.split)

lemma unset_hw_only:
  assumes "breakpoints_keep_memory K M"
  shows "only_inferior M i s (snd (unset_hardware_watchpoint K i a ty sz s))"
    and "M (ks (snd (unset_hardware_watchpoint K i a ty sz s))) = M (ks s)"
  using unset_hw_shape [of s K i a ty sz]
  by (auto simp: only_inferior_def unset_hardware_watchpoint_def unset_in_threads_memory [OF assms] split: option.split)

lemma detach_thread_only:
  assumes "breakpoints_keep_memory K M"
  shows "only_inferior M i s (detach_thread K i j s)" and "M (ks (detach_thread K i j s)) = M (ks s)"
  using detach_thread_shape [of s K i j] assms
  by (auto simp: only_inferior_def detach_thread_def disable_single_step_def breakpoints_keep_memory_def)

section \<open>The program of an inferior\<close>

lemma sw_setI: "n < MAX_SW_BREAKS \<Longrightarrow> sb_addr (i_sw I n) \<noteq> 0 \<Longrightarrow> sb_addr (i_sw I n) \<in> sw_set I"
  by (auto simp: sw_set_def)

lemma unset_sw_slots:
  "sb_addr (i_sw (inferiors (snd (unset_software_breakpoint K i a s)) i) n) \<in> {0, sb_addr (i_sw (inferiors s i) n)}"
  by (auto simp: unset_software_breakpoint_def Let_def split_def split: option.split)

lemma unset_sw_unmapped:
  assumes "word_memory K M P" and "\<not> P (i_vspace (inferiors s i)) a"
  obtains k' where "snd (unset_software_breakpoint K i a s) = s\<lparr>ks := k'\<rparr>" and "M k' = M (ks s)"
proof (cases "List.find (\<lambda>n. sb_addr (i_sw (inferiors s i) n) = a) [0..<MAX_SW_BREAKS]")
  case None
  then show ?thesis
    by (intro that [of "ks s"]) (simp_all add: unset_software_breakpoint_def)
next
  case (Some n)
  obtain e k' where "VSpace_Write_Word K (ks s) (i_vspace (inferiors s i)) a (sb_orig_word (i_sw (inferiors s i) n)) = (e, k')"
    "e \<noteq> 0" "M k' = M (ks s)"
    by (rule word_write_fail [OF assms])
  with Some show ?thesis
    by (intro that [of k']) (simp_all add: unset_software_breakpoint_def)
qed

text \<open>The loop over the slots. A free slot makes the code write to address 0, which must not be
  mapped.\<close>

lemma clear_slots:
  assumes wm: "word_memory K M P" and "sw_abs M M0 i s S" and "\<And>a. a \<in> S \<Longrightarrow> P (i_vspace (inferiors s i)) a"
    and "\<not> P (i_vspace (inferiors s i)) 0" and "n \<le> MAX_SW_BREAKS"
  defines "step \<equiv> \<lambda>n s. snd (unset_software_breakpoint K i (sb_addr (i_sw (inferiors s i) n)) s)"
  shows "\<exists>S'\<subseteq>S. sw_abs M M0 i (fold step [0..<n] s) S' \<and> (\<forall>m<n. sb_addr (i_sw (inferiors (fold step [0..<n] s) i) m) = 0)"
  using assms(5)
proof (induction n)
  case 0
  show ?case
    using assms(2) by auto
next
  case (Suc n)
  define s1 where "s1 = fold step [0..<n] s"
  obtain S' where S': "S' \<subseteq> S" "sw_abs M M0 i s1 S'" and zero: "\<forall>m<n. sb_addr (i_sw (inferiors s1 i) m) = 0"
    using Suc by (auto simp: s1_def)
  have vs: "i_vspace (inferiors s1 i) = i_vspace (inferiors s i)"
    unfolding s1_def step_def by (intro same_shape_sel same_shape_fold unset_sw_shape)
  let ?a = "sb_addr (i_sw (inferiors s1 i) n)"
  have next_state: "fold step [0..<Suc n] s = snd (unset_software_breakpoint K i ?a s1)"
    by (simp add: s1_def step_def)
  show ?case
  proof (cases "?a = 0")
    case True
    then have "\<not> P (i_vspace (inferiors s1 i)) ?a"
      using assms(4) vs by simp
    then obtain k' where "snd (unset_software_breakpoint K i ?a s1) = s1\<lparr>ks := k'\<rparr>" "M k' = M (ks s1)"
      by (rule unset_sw_unmapped [OF wm])
    with S' zero True show ?thesis
      unfolding next_state by (auto simp: sw_abs_def less_Suc_eq)
  next
    case False
    then have "?a \<in> S'"
      using S'(2) Suc.prems by (auto simp: sw_abs_def sw_set_def)
    then have "P (i_vspace (inferiors s1 i)) ?a"
      using S'(1) assms(3) vs by auto
    then have abs: "sw_abs M M0 i (snd (unset_software_breakpoint K i ?a s1)) (S' - {?a})"
      using unset_sw_abs(2) [OF wm S'(2) False] by simp
    have "sb_addr (i_sw (inferiors (snd (unset_software_breakpoint K i ?a s1)) i) m) = 0" if "m < Suc n" for m
    proof (cases "m = n")
      case True
      have "?a \<notin> sw_set (inferiors (snd (unset_software_breakpoint K i ?a s1)) i)"
        using abs by (simp add: sw_abs_def)
      then have "sb_addr (i_sw (inferiors (snd (unset_software_breakpoint K i ?a s1)) i) n) \<noteq> ?a"
        using sw_setI [of n "inferiors (snd (unset_software_breakpoint K i ?a s1)) i"] False Suc.prems by fastforce
      with True unset_sw_slots [of K i ?a s1 n] show ?thesis
        by auto
    next
      case False
      with that zero unset_sw_slots [of K i ?a s1 m] show ?thesis
        by auto
    qed
    with abs S'(1) show ?thesis
      unfolding next_state by blast
  qed
qed

section \<open>One inferior\<close>

lemma detach_threads:
  assumes "breakpoints_keep_memory K M" and "n \<le> MAX_THREADS"
  shows "let s' = fold (detach_thread K i) [0..<n] s in only_inferior M i s s' \<and> M (ks s') = M (ks s) \<and> i_sw (inferiors s' i) = i_sw (inferiors s i) \<and>
    i_hb (inferiors s' i) = i_hb (inferiors s i) \<and> i_hw (inferiors s' i) = i_hw (inferiors s i) \<and>
    (\<forall>j<n. t_enabled (thr s i j) \<longrightarrow> t_wakeup (thr s' i j) \<and> \<not> t_ss_enabled (thr s' i j))"
  using assms(2) unfolding Let_def
proof (induction n)
  case (Suc n)
  define s1 where "s1 = fold (detach_thread K i) [0..<n] s"
  have IH: "only_inferior M i s s1" "M (ks s1) = M (ks s)" "i_sw (inferiors s1 i) = i_sw (inferiors s i)"
    "i_hb (inferiors s1 i) = i_hb (inferiors s i)" "i_hw (inferiors s1 i) = i_hw (inferiors s i)"
    "\<forall>j<n. t_enabled (thr s i j) \<longrightarrow> t_wakeup (thr s1 i j) \<and> \<not> t_ss_enabled (thr s1 i j)"
    using Suc by (simp_all add: s1_def)
  have en: "t_enabled (thr s1 i n) = t_enabled (thr s i n)"
    using IH(1) by (auto simp: only_inferior_def same_shape_sel)
  have "only_inferior M i s (detach_thread K i n s1)"
    using only_inferior_trans [OF IH(1) detach_thread_only(1) [OF assms(1)]] .
  moreover have "M (ks (detach_thread K i n s1)) = M (ks s)"
    using detach_thread_only(2) [OF assms(1)] IH(2) by simp
  moreover have "i_sw (inferiors (detach_thread K i n s1) i) = i_sw (inferiors s i)"
    "i_hb (inferiors (detach_thread K i n s1) i) = i_hb (inferiors s i)"
    "i_hw (inferiors (detach_thread K i n s1) i) = i_hw (inferiors s i)"
    using IH(3-5) by (simp_all add: detach_thread_def disable_single_step_def)
  moreover have "t_wakeup (thr (detach_thread K i n s1) i j) \<and> \<not> t_ss_enabled (thr (detach_thread K i n s1) i j)"
    if "j < Suc n" "t_enabled (thr s i j)" for j
    using that IH(6) en by (cases "j = n") (auto simp: detach_thread_def disable_single_step_def)
  ultimately show ?case
    by (simp add: s1_def)
qed simp

lemma clear_tables_only: "only_inferior M i s (upd_inf i (\<lambda>I. I\<lparr>i_sw := f I, i_hb := g I, i_hw := h I\<rparr>) s)"
  using same_shape_tables(4) [OF same_shape_refl] by (simp add: only_inferior_def)

definition clean :: "gdb_inferior \<Rightarrow> bool" where
  "clean I \<longleftrightarrow> (\<forall>n. sb_addr (i_sw I n) = 0 \<and> hb_addr (i_hb I n) = 0 \<and> hw_addr (i_hw I n) = 0) \<and>
     (\<forall>j<MAX_THREADS. t_enabled (i_threads I j) \<longrightarrow> t_wakeup (i_threads I j) \<and> \<not> t_ss_enabled (i_threads I j))"

lemma detach_inferior_restores:
  assumes wm: "word_memory K M P" and keep: "breakpoints_keep_memory K M" and en: "i_enabled (inferiors s i)"
    and abs: "sw_abs M M0 i s S" and mapped: "\<And>a. a \<in> S \<Longrightarrow> P (i_vspace (inferiors s i)) a"
    and zero: "\<not> P (i_vspace (inferiors s i)) 0"
  defines "s' \<equiv> detach_inferior K i s"
  shows "only_inferior M i s s' \<and> M (ks s') (i_vspace (inferiors s i)) = M0 \<and> clean (inferiors s' i)"
proof -
  define s1 where "s1 = fold (\<lambda>n s. snd (unset_software_breakpoint K i (sb_addr (i_sw (inferiors s i) n)) s)) [0..<MAX_SW_BREAKS] s"
  define s2 where "s2 = fold (\<lambda>n s. snd (unset_hardware_breakpoint K i (hb_addr (i_hb (inferiors s i) n)) s))
    [0..<seL4_NumExclusiveBreakpoints K] s1"
  define s3 where "s3 = fold (\<lambda>n s. snd (unset_hardware_watchpoint K i (hw_addr (i_hw (inferiors s i) n))
      (hw_type (i_hw (inferiors s i) n)) (hw_size (i_hw (inferiors s i) n)) s)) [0..<seL4_NumExclusiveWatchpoints K] s2"
  define s4 where "s4 = upd_inf i (\<lambda>I. I\<lparr>i_sw := (\<lambda>_. zero_sw), i_hb := (\<lambda>_. zero_hb), i_hw := (\<lambda>_. zero_hw)\<rparr>) s3"
  have s': "s' = fold (detach_thread K i) [0..<MAX_THREADS] s4"
    using en by (simp add: s'_def detach_inferior_def s1_def s2_def s3_def s4_def)
  note threads = detach_threads [OF keep order_refl, of i s4, unfolded Let_def, folded s']
  have only1: "only_inferior M i s s1"
    unfolding s1_def by (intro only_inferior_fold unset_sw_only [OF wm])
  have "only_inferior M i s1 s2" "only_inferior M i s2 s3" "only_inferior M i s3 s4"
    unfolding s2_def s3_def s4_def
    by (intro only_inferior_fold unset_hb_only(1) [OF keep] unset_hw_only(1) [OF keep] clear_tables_only)+
  with only1 threads have only: "only_inferior M i s s'" "only_inferior M i s s4"
    by (meson only_inferior_trans)+
  have "M (ks s2) = M (ks s1)" "M (ks s3) = M (ks s2)"
    unfolding s2_def s3_def
    by (rule fold_invariant; simp add: unset_hb_only(2) [OF keep] unset_hw_only(2) [OF keep])+
  then have "M (ks s') = M (ks s1)"
    using threads by (simp add: s4_def)
  moreover obtain S' where "sw_abs M M0 i s1 S'" "\<forall>m<MAX_SW_BREAKS. sb_addr (i_sw (inferiors s1 i) m) = 0"
    using clear_slots [OF wm abs mapped zero order_refl] by (auto simp: s1_def)
  then have "sw_set (inferiors s1 i) = {}" "patched M0 (sw_set (inferiors s1 i)) (M (ks s1) (i_vspace (inferiors s1 i)))"
    by (auto simp: sw_set_def sw_abs_def sw_inv_def)
  then have "M (ks s1) (i_vspace (inferiors s1 i)) = M0"
    by (simp add: patched_empty)
  moreover have "i_vspace (inferiors s1 i) = i_vspace (inferiors s i)"
    using only1 by (simp add: only_inferior_def same_shape_sel)
  moreover have "t_enabled (thr s' i j) = t_enabled (thr s4 i j)" for j
    using only by (auto simp: only_inferior_def same_shape_sel)
  then have "clean (inferiors s' i)"
    using threads by (simp add: clean_def s4_def zero_sw_def zero_hb_def zero_hw_def)
  ultimately show ?thesis
    using only by simp
qed

section \<open>All inferiors\<close>

text \<open>Every inferior runs a known program with breakpoints at mapped addresses, in an address
  space of its own.\<close>

definition debuggees :: "('k \<Rightarrow> u64 \<Rightarrow> memory) \<Rightarrow> (u64 \<Rightarrow> u64 \<Rightarrow> bool) \<Rightarrow> (nat \<Rightarrow> memory) \<Rightarrow> 'k gdb \<Rightarrow> bool" where
  "debuggees M P M0 s \<longleftrightarrow>
    (\<forall>i<MAX_PDS. i_enabled (inferiors s i) \<longrightarrow>
       (\<exists>S. sw_abs M (M0 i) i s S \<and> (\<forall>a\<in>S. P (i_vspace (inferiors s i)) a)) \<and> \<not> P (i_vspace (inferiors s i)) 0) \<and>
    (\<forall>i<MAX_PDS. \<forall>j<MAX_PDS. i_enabled (inferiors s i) \<longrightarrow> i_enabled (inferiors s j) \<longrightarrow>
       i_vspace (inferiors s i) = i_vspace (inferiors s j) \<longrightarrow> i = j)"

lemma only_inferior_abs:
  assumes "only_inferior M i s s'" and "i' \<noteq> i" and "i_vspace (inferiors s i') \<noteq> i_vspace (inferiors s i)"
  shows "sw_abs M M0 i' s' S = sw_abs M M0 i' s S" and "inferiors s' i' = inferiors s i'"
    and "M (ks s') (i_vspace (inferiors s i')) = M (ks s) (i_vspace (inferiors s i'))"
  using assms by (simp_all add: only_inferior_def sw_abs_def)

lemma detach_all:
  assumes laws: "word_memory K M P" "breakpoints_keep_memory K M" and "debuggees M P M0 s" and "n \<le> MAX_PDS"
  defines "run \<equiv> \<lambda>n. fold (detach_inferior K) [0..<n] s"
  shows "\<forall>i<MAX_PDS. i_enabled (inferiors s i) \<longrightarrow>
    (if i < n then M (ks (run n)) (i_vspace (inferiors s i)) = M0 i \<and> clean (inferiors (run n) i)
     else inferiors (run n) i = inferiors s i \<and>
       M (ks (run n)) (i_vspace (inferiors s i)) = M (ks s) (i_vspace (inferiors s i)))"
  using assms(4)
proof (induction n)
  case 0
  then show ?case
    by (simp add: run_def)
next
  case (Suc n)
  have next_state: "run (Suc n) = detach_inferior K n (run n)"
    by (simp add: run_def)
  have shape: "same_shape s (run n)"
    unfolding run_def by (intro same_shape_fold detach_inferior_shape)
  show ?case
  proof (cases "i_enabled (inferiors s n)")
    case False
    then have same: "run (Suc n) = run n"
      using shape by (simp add: next_state detach_inferior_def same_shape_sel)
    show ?thesis
    proof (intro allI impI)
      fix i
      assume i: "i < MAX_PDS" "i_enabled (inferiors s i)"
      with False have "(i < Suc n) = (i < n)"
        by (metis less_SucE less_SucI)
      with i Suc show "if i < Suc n then M (ks (run (Suc n))) (i_vspace (inferiors s i)) = M0 i \<and> clean (inferiors (run (Suc n)) i)
          else inferiors (run (Suc n)) i = inferiors s i \<and>
            M (ks (run (Suc n))) (i_vspace (inferiors s i)) = M (ks s) (i_vspace (inferiors s i))"
        unfolding same by simp
    qed
  next
    case True
    have n: "n < MAX_PDS"
      using Suc.prems by simp
    obtain S where S: "sw_abs M (M0 n) n s S" "\<And>a. a \<in> S \<Longrightarrow> P (i_vspace (inferiors s n)) a" "\<not> P (i_vspace (inferiors s n)) 0"
      using assms(3) n True unfolding debuggees_def by blast
    have IH: "inferiors (run n) n = inferiors s n" "M (ks (run n)) (i_vspace (inferiors s n)) = M (ks s) (i_vspace (inferiors s n))"
      using Suc n True by simp_all
    have "only_inferior M n (run n) (run (Suc n)) \<and> M (ks (run (Suc n))) (i_vspace (inferiors s n)) = M0 n \<and>
        clean (inferiors (run (Suc n)) n)"
      using detach_inferior_restores [OF laws, of "run n" n "M0 n" S] S IH True by (simp add: next_state sw_abs_def)
    then have only: "only_inferior M n (run n) (run (Suc n))" and
      at_n: "M (ks (run (Suc n))) (i_vspace (inferiors s n)) = M0 n" "clean (inferiors (run (Suc n)) n)"
      by simp_all
    show ?thesis
    proof (intro allI impI)
      fix i
      assume i: "i < MAX_PDS" "i_enabled (inferiors s i)"
      show "if i < Suc n then M (ks (run (Suc n))) (i_vspace (inferiors s i)) = M0 i \<and> clean (inferiors (run (Suc n)) i)
          else inferiors (run (Suc n)) i = inferiors s i \<and>
            M (ks (run (Suc n))) (i_vspace (inferiors s i)) = M (ks s) (i_vspace (inferiors s i))"
      proof (cases "i = n")
        case True
        with at_n show ?thesis
          by simp
      next
        case False
        then have vs: "i_vspace (inferiors s i) \<noteq> i_vspace (inferiors s n)"
          using assms(3) n True i unfolding debuggees_def by blast
        then have "i_vspace (inferiors (run n) i) \<noteq> i_vspace (inferiors (run n) n)"
          using shape by (simp add: same_shape_sel)
        note kept = only_inferior_abs(2,3) [OF only False this]
        have "(i < Suc n) = (i < n)"
          using False by auto
        with Suc i kept shape show ?thesis
          by (simp add: same_shape_sel)
      qed
    qed
  qed
qed

section \<open>Properties\<close>


text \<open>A state in which a breakpoint is set.\<close>

definition one_break :: "machine gdb" where
  "one_break = snd (set_software_breakpoint machine_kernel 0 4096 one_thread)"

lemma one_break_debuggees: "debuggees mc_mem mc_mapped (\<lambda>i _. 0) one_break"
proof -
  have shape: "same_shape one_thread one_break"
    unfolding one_break_def by (rule set_sw_shape)
  have en: "i_enabled (inferiors one_break i) \<longleftrightarrow> i = 0" for i
    unfolding same_shape_sel(1) [OF shape] by (simp add: one_thread_def init_gdb_def zero_inferior_def)
  have "sw_abs mc_mem (mc_mem (ks one_thread) (i_vspace (inferiors one_thread 0))) 0 one_thread {}"
    by (rule sw_abs_fresh) (simp add: one_thread_def)
  then have "sw_abs mc_mem (\<lambda>_. 0) 0 one_thread {}"
    by (simp add: one_thread_def machine0_def init_gdb_def)
  from set_sw_abs(2) [OF machine_laws(1) this, of 4096] have "sw_abs mc_mem (\<lambda>_. 0) 0 one_break {4096}"
    by (simp add: one_break_def mc_mapped_def MAX_SW_BREAKS_def)
  then show ?thesis
    unfolding debuggees_def en by (auto simp: mc_mapped_def)
qed


end
