(* ===== verification/Gdb_Release.thy ===== *)
theory Gdb_Release
  imports Gdb_Shape Gdb_Hardware
begin

text \<open>
  Detaching frees the breakpoint registers of the threads. The loop over a table clears the
  slot it looks at, and for a free slot the first free slot, whose register is unused; the
  locale \<open>hw_table_clear\<close> adds this step to the contract of a table.
\<close>

section \<open>Clearing a whole table\<close>

text \<open>A register in use belongs to a slot in use.\<close>

definition covered :: "(u64 \<rightharpoonup> hw_entry) \<Rightarrow> u64 \<Rightarrow> nat \<Rightarrow> (nat \<Rightarrow> hw_entry option) \<Rightarrow> bool" where
  "covered regs first count tab \<longleftrightarrow> (\<forall>n<count. regs (first + of_nat n) \<noteq> None \<longrightarrow> tab n \<noteq> None)"

lemma synced_covered: "synced regs first count tab \<Longrightarrow> covered regs first count tab"
  by (simp add: synced_def covered_def)

text \<open>No register comes into use.\<close>

definition regs_shrink :: "('k \<Rightarrow> breakpoint_regs) \<Rightarrow> 'k \<Rightarrow> 'k \<Rightarrow> bool" where
  "regs_shrink B k k' \<longleftrightarrow> (\<forall>tcb r. B k' tcb r \<noteq> None \<longrightarrow> B k tcb r \<noteq> None)"

lemma regs_shrink_refl [simp]: "regs_shrink B k k"
  by (simp add: regs_shrink_def)

lemma regs_shrink_trans: "regs_shrink B k k1 \<Longrightarrow> regs_shrink B k1 k2 \<Longrightarrow> regs_shrink B k k2"
  by (auto simp: regs_shrink_def)

lemma regs_shrink_eq: "B k' = B k \<Longrightarrow> regs_shrink B k k'"
  by (simp add: regs_shrink_def)

lemma regs_shrink_fold:
  assumes "\<And>n s. regs_shrink B (ks s) (ks (f n s))"
  shows "regs_shrink B (ks s) (ks (fold f ns s))"
  by (rule fold_invariant [where P = "\<lambda>s'. regs_shrink B (ks s) (ks s')"]) (auto intro: regs_shrink_trans assms)

lemma regs_shrink_covered:
  "regs_shrink B k k' \<Longrightarrow> covered (B k tcb) first count tab \<Longrightarrow> covered (B k' tcb) first count tab"
  by (auto simp: regs_shrink_def covered_def)

lemma unset_in_threads_shrink:
  assumes "breakpoint_unit K B"
  shows "regs_shrink B k (unset_in_threads K ths num js k)"
  by (auto simp: regs_shrink_def unset_in_threads_regs [OF assms] split: if_splits)

locale hw_table_clear = hw_table +
  fixes clear_slot :: "('a, 'b) kernel \<Rightarrow> nat \<Rightarrow> nat \<Rightarrow> 'a gdb \<Rightarrow> 'a gdb"
  assumes clear_slot_eq: "n < count K \<Longrightarrow> \<exists>m\<le>n. entry K (inferiors s i) m = entry K (inferiors s i) n \<and>
    clear_slot K i n s = upd_inf i (free m) (s\<lparr>ks := unset_in_threads K (i_threads (inferiors s i))
      (first K + of_nat m) [0..<MAX_THREADS] (ks s)\<rparr>)"
begin

lemma clear_slot_shrink:
  assumes "breakpoint_unit K B" and "n < count K"
  shows "regs_shrink B (ks s) (ks (clear_slot K i n s))"
  using clear_slot_eq [OF assms(2), of s i] unset_in_threads_shrink [OF assms(1)] by auto

lemma clear_all:
  assumes bu: "breakpoint_unit K B" and "n \<le> count K"
    and "\<And>tcb. tcb \<in> thread_tcbs (inferiors s i) \<Longrightarrow> covered (B (ks s) tcb) (first K) (count K) (entry K (inferiors s i))"
  defines "run \<equiv> fold (clear_slot K i) [0..<n] s"
  shows "regs_shrink B (ks s) (ks run) \<and> i_threads (inferiors run i) = i_threads (inferiors s i) \<and>
    (\<forall>tcb\<in>thread_tcbs (inferiors s i). covered (B (ks run) tcb) (first K) (count K) (entry K (inferiors run i))) \<and>
    (\<forall>m<n. entry K (inferiors run i) m = None)"
  unfolding run_def using assms(2)
proof (induction n)
  case 0
  then show ?case
    using assms(3) by simp
next
  case (Suc n)
  define s1 where "s1 = fold (clear_slot K i) [0..<n] s"
  have IH: "regs_shrink B (ks s) (ks s1)" "i_threads (inferiors s1 i) = i_threads (inferiors s i)"
    "\<And>tcb. tcb \<in> thread_tcbs (inferiors s i) \<Longrightarrow> covered (B (ks s1) tcb) (first K) (count K) (entry K (inferiors s1 i))"
    "\<And>m. m < n \<Longrightarrow> entry K (inferiors s1 i) m = None"
    using Suc by (simp_all add: s1_def)
  have n: "n < count K"
    using Suc.prems by simp
  obtain m where m: "m \<le> n" "entry K (inferiors s1 i) m = entry K (inferiors s1 i) n"
    and run: "clear_slot K i n s1 = upd_inf i (free m) (s1\<lparr>ks := unset_in_threads K (i_threads (inferiors s1 i))
      (first K + of_nat m) [0..<MAX_THREADS] (ks s1)\<rparr>)"
    using clear_slot_eq [OF n, of s1 i] by blast
  have entries: "entry K (inferiors (clear_slot K i n s1) i) = (entry K (inferiors s1 i))(m := None)"
    by (simp add: run free_entry)
  have "entry K (inferiors (clear_slot K i n s1) i) m' = None" if "m' < Suc n" for m'
    using that IH(4) [of m'] IH(4) [of m] m by (cases "m' = n"; cases "m = n") (auto simp: entries)
  moreover have "covered (B (ks (clear_slot K i n s1)) tcb) (first K) (count K) (entry K (inferiors (clear_slot K i n s1) i))"
    if "tcb \<in> thread_tcbs (inferiors s i)" for tcb
  proof -
    have "tcb \<in> thread_tcbs (inferiors s1 i)"
      using that by (simp add: thread_tcbs_def IH(2))
    moreover have "ks (clear_slot K i n s1) = unset_in_threads K (i_threads (inferiors s1 i)) (first K + of_nat m) [0..<MAX_THREADS] (ks s1)"
      by (simp add: run)
    ultimately have regs: "B (ks (clear_slot K i n s1)) tcb = (B (ks s1) tcb)(first K + of_nat m := None)"
      by (simp only: unset_in_threads_regs [OF bu] exists_thread if_True)
    show ?thesis
      unfolding entries covered_def
    proof (intro allI impI)
      fix n'
      assume "n' < count K" "B (ks (clear_slot K i n s1)) tcb (first K + of_nat n') \<noteq> None"
      then have "B (ks s1) tcb (first K + of_nat n') \<noteq> None" "n' \<noteq> m"
        by (auto simp: regs split: if_splits)
      with IH(3) [OF that] \<open>n' < count K\<close> show "((entry K (inferiors s1 i))(m := None)) n' \<noteq> None"
        by (simp add: covered_def)
    qed
  qed
  moreover have "regs_shrink B (ks s) (ks (clear_slot K i n s1))"
    using regs_shrink_trans [OF IH(1) clear_slot_shrink [OF bu n]] .
  moreover have "i_threads (inferiors (clear_slot K i n s1) i) = i_threads (inferiors s i)"
    by (simp add: run free_threads IH(2))
  ultimately show ?case
    by (simp add: s1_def)
qed

text \<open>After the loop over the table no register of its range is in use.\<close>

lemma clear_all_regs:
  assumes "breakpoint_unit K B"
    and "\<And>tcb. tcb \<in> thread_tcbs (inferiors s i) \<Longrightarrow> covered (B (ks s) tcb) (first K) (count K) (entry K (inferiors s i))"
    and "tcb \<in> thread_tcbs (inferiors s i)" and "n < count K"
  shows "B (ks (fold (clear_slot K i) [0..<count K] s)) tcb (first K + of_nat n) = None"
proof -
  have "covered (B (ks (fold (clear_slot K i) [0..<count K] s)) tcb) (first K) (count K)
      (entry K (inferiors (fold (clear_slot K i) [0..<count K] s) i))"
    "entry K (inferiors (fold (clear_slot K i) [0..<count K] s) i) n = None"
    using clear_all [OF assms(1) order_refl assms(2)] assms(3,4) by blast+
  with assms(4) show ?thesis
    unfolding covered_def by metis
qed

end

abbreviation clear_break :: "('k, 'r) kernel \<Rightarrow> nat \<Rightarrow> nat \<Rightarrow> 'k gdb \<Rightarrow> 'k gdb" where
  "clear_break K i n s \<equiv> snd (unset_hardware_breakpoint K i (hb_addr (i_hb (inferiors s i) n)) s)"

abbreviation clear_watch :: "('k, 'r) kernel \<Rightarrow> nat \<Rightarrow> nat \<Rightarrow> 'k gdb \<Rightarrow> 'k gdb" where
  "clear_watch K i n s \<equiv> snd (unset_hardware_watchpoint K i (hw_addr (i_hw (inferiors s i) n))
     (hw_type (i_hw (inferiors s i) n)) (hw_size (i_hw (inferiors s i) n)) s)"

lemma find_upt_first: "n < k \<Longrightarrow> Q n \<Longrightarrow> \<exists>m\<le>n. Q m \<and> List.find Q [0..<k] = Some m"
proof (cases "List.find Q [0..<k]")
  case (Some m)
  moreover assume "n < k" "Q n"
  ultimately show ?thesis
    by (auto simp: find_upt_Some) (metis not_le)
qed (auto simp: find_upt_None)

interpretation hbc: hw_table_clear seL4_NumExclusiveBreakpoints seL4_FirstBreakpoint hb_entry
  "\<lambda>a. a \<noteq> 0" hb_value
  "\<lambda>a n I. I\<lparr>i_hb := (i_hb I)(n := (i_hb I n)\<lparr>hb_addr := a\<rparr>)\<rparr>"
  "\<lambda>n I. I\<lparr>i_hb := (i_hb I)(n := (i_hb I n)\<lparr>hb_addr := 0\<rparr>)\<rparr>"
  set_hardware_breakpoint unset_hardware_breakpoint thread_enable_nth_hw_breakpoint clear_break
proof (unfold_locales, goal_cases)
  case (1 n K s i)
  with find_upt_first [of n _ "\<lambda>m. hb_addr (i_hb (inferiors s i) m) = hb_addr (i_hb (inferiors s i) n)"]
  obtain m where "m \<le> n" "hb_addr (i_hb (inferiors s i) m) = hb_addr (i_hb (inferiors s i) n)"
    "List.find (\<lambda>m. hb_addr (i_hb (inferiors s i) m) = hb_addr (i_hb (inferiors s i) n))
       [0..<seL4_NumExclusiveBreakpoints K] = Some m"
    by blast
  then show ?case
    by (intro exI [of _ m]) (simp add: unset_hardware_breakpoint_def hb_entry_def)
qed

interpretation hwc: hw_table_clear seL4_NumExclusiveWatchpoints seL4_FirstWatchpoint hw_entry
  "\<lambda>(a, ty, sz). a \<noteq> 0" hw_value
  "\<lambda>(a, ty, sz) n I. I\<lparr>i_hw := (i_hw I)(n := \<lparr>hw_addr = a, hw_size = sz, hw_type = ty\<rparr>)\<rparr>"
  "\<lambda>n I. I\<lparr>i_hw := (i_hw I)(n := (i_hw I n)\<lparr>hw_addr := 0\<rparr>)\<rparr>"
  "\<lambda>K i (a, ty, sz). set_hardware_watchpoint K i a ty sz"
  "\<lambda>K i (a, ty, sz). unset_hardware_watchpoint K i a ty sz"
  thread_enable_nth_hw_watchpoint clear_watch
proof (unfold_locales, goal_cases)
  case (1 n K s i)
  let ?Q = "\<lambda>m. hw_addr (i_hw (inferiors s i) m) = hw_addr (i_hw (inferiors s i) n) \<and>
    hw_type (i_hw (inferiors s i) m) = hw_type (i_hw (inferiors s i) n) \<and>
    hw_size (i_hw (inferiors s i) m) = hw_size (i_hw (inferiors s i) n)"
  from 1 find_upt_first [of n _ ?Q]
  obtain m where "m \<le> n" "?Q m" "List.find ?Q [0..<seL4_NumExclusiveWatchpoints K] = Some m"
    by blast
  then show ?case
    by (intro exI [of _ m]) (simp add: unset_hardware_watchpoint_def hw_entry_def)
qed

section \<open>Detaching\<close>

text \<open>Writing memory and single-stepping do not use breakpoint registers.\<close>

definition others_keep_breakpoints :: "('k, 'r) kernel \<Rightarrow> ('k \<Rightarrow> breakpoint_regs) \<Rightarrow> bool" where
  "others_keep_breakpoints K B \<longleftrightarrow>
    (\<forall>k vs a v. B (snd (VSpace_Write_Word K k vs a v)) = B k) \<and>
    (\<forall>k tcb n on. B (TCB_ConfigureSingleStepping K k tcb n on) = B k)"

lemma machine_others_keep: "others_keep_breakpoints machine_kernel mc_bp"
  by (simp add: others_keep_breakpoints_def machine_kernel_def)

lemma unset_sw_regs:
  assumes "others_keep_breakpoints K B"
  shows "B (ks (snd (unset_software_breakpoint K i a s))) = B (ks s)"
    and "i_threads (inferiors (snd (unset_software_breakpoint K i a s)) i') = i_threads (inferiors s i')"
    and "i_hb (inferiors (snd (unset_software_breakpoint K i a s)) i') = i_hb (inferiors s i')"
    and "i_hw (inferiors (snd (unset_software_breakpoint K i a s)) i') = i_hw (inferiors s i')"
  using assms by (auto simp: unset_software_breakpoint_def others_keep_breakpoints_def Let_def split_def split: option.split)

lemma detach_thread_regs:
  "others_keep_breakpoints K B \<Longrightarrow> B (ks (detach_thread K i j s)) = B (ks s)"
  by (simp add: detach_thread_def disable_single_step_def others_keep_breakpoints_def)

lemma unset_hb_others: "i_hw (inferiors (snd (unset_hardware_breakpoint K i a s)) i') = i_hw (inferiors s i')"
  by (auto simp: unset_hardware_breakpoint_def split: option.split)

text \<open>What holds of the registers of the threads of one inferior.\<close>

definition hw_covered :: "('k, 'r) kernel \<Rightarrow> ('k \<Rightarrow> breakpoint_regs) \<Rightarrow> 'k \<Rightarrow> gdb_inferior \<Rightarrow> bool" where
  "hw_covered K B k I \<longleftrightarrow> (\<forall>tcb\<in>thread_tcbs I.
     covered (B k tcb) (seL4_FirstBreakpoint K) (seL4_NumExclusiveBreakpoints K) (hb_entry K I) \<and>
     covered (B k tcb) (seL4_FirstWatchpoint K) (seL4_NumExclusiveWatchpoints K) (hw_entry K I))"

definition regs_free :: "('k, 'r) kernel \<Rightarrow> (u64 \<rightharpoonup> hw_entry) \<Rightarrow> bool" where
  "regs_free K regs \<longleftrightarrow> (\<forall>n < seL4_NumExclusiveBreakpoints K. regs (seL4_FirstBreakpoint K + of_nat n) = None) \<and>
     (\<forall>n < seL4_NumExclusiveWatchpoints K. regs (seL4_FirstWatchpoint K + of_nat n) = None)"

lemma regs_shrink_free: "regs_shrink B k k' \<Longrightarrow> regs_free K (B k tcb) \<Longrightarrow> regs_free K (B k' tcb)"
  unfolding regs_shrink_def regs_free_def by blast

lemma hw_synced_covered: "hw_synced K B k I \<Longrightarrow> hw_covered K B k I"
  by (simp add: hw_synced_def hw_covered_def synced_covered)

lemma regs_shrink_hw_covered: "regs_shrink B k k' \<Longrightarrow> hw_covered K B k I \<Longrightarrow> hw_covered K B k' I"
  by (auto simp: hw_covered_def intro: regs_shrink_covered)

text \<open>The steps of detaching one inferior.\<close>

lemma detach_inferior_steps:
  assumes "i_enabled (inferiors s i)"
  obtains s1 s2 s3 s4 where
    "s1 = fold (\<lambda>n s. snd (unset_software_breakpoint K i (sb_addr (i_sw (inferiors s i) n)) s)) [0..<MAX_SW_BREAKS] s"
    and "s2 = fold (clear_break K i) [0..<seL4_NumExclusiveBreakpoints K] s1"
    and "s3 = fold (clear_watch K i) [0..<seL4_NumExclusiveWatchpoints K] s2"
    and "s4 = upd_inf i (\<lambda>I. I\<lparr>i_sw := (\<lambda>_. zero_sw), i_hb := (\<lambda>_. zero_hb), i_hw := (\<lambda>_. zero_hw)\<rparr>) s3"
    and "detach_inferior K i s = fold (detach_thread K i) [0..<MAX_THREADS] s4"
  using assms by (simp add: detach_inferior_def Let_def)

lemma clear_break_regs:
  assumes "breakpoint_unit K B"
  shows "regs_shrink B (ks s) (ks (snd (unset_hardware_breakpoint K i a s)))"
    and "i' \<noteq> i \<Longrightarrow> inferiors (snd (unset_hardware_breakpoint K i a s)) i' = inferiors s i'"
  by (auto simp: unset_hardware_breakpoint_def unset_in_threads_shrink [OF assms] split: option.split)

lemma clear_watch_regs:
  assumes "breakpoint_unit K B"
  shows "regs_shrink B (ks s) (ks (snd (unset_hardware_watchpoint K i a ty sz s)))"
    and "i' \<noteq> i \<Longrightarrow> inferiors (snd (unset_hardware_watchpoint K i a ty sz s)) i' = inferiors s i'"
  by (auto simp: unset_hardware_watchpoint_def unset_in_threads_shrink [OF assms] split: option.split)

lemma detach_inferior_shrink:
  assumes "breakpoint_unit K B" and "others_keep_breakpoints K B"
  shows "regs_shrink B (ks s) (ks (detach_inferior K i s))"
proof (cases "i_enabled (inferiors s i)")
  case True
  then obtain s1 s2 s3 s4 where steps:
    "s1 = fold (\<lambda>n s. snd (unset_software_breakpoint K i (sb_addr (i_sw (inferiors s i) n)) s)) [0..<MAX_SW_BREAKS] s"
    "s2 = fold (clear_break K i) [0..<seL4_NumExclusiveBreakpoints K] s1"
    "s3 = fold (clear_watch K i) [0..<seL4_NumExclusiveWatchpoints K] s2"
    "s4 = upd_inf i (\<lambda>I. I\<lparr>i_sw := (\<lambda>_. zero_sw), i_hb := (\<lambda>_. zero_hb), i_hw := (\<lambda>_. zero_hw)\<rparr>) s3"
    "detach_inferior K i s = fold (detach_thread K i) [0..<MAX_THREADS] s4"
    by (rule detach_inferior_steps)
  have "regs_shrink B (ks s) (ks s1)" "regs_shrink B (ks s1) (ks s2)" "regs_shrink B (ks s2) (ks s3)"
    "regs_shrink B (ks s4) (ks (detach_inferior K i s))"
    unfolding steps(5) unfolding steps(1-3)
    by (intro regs_shrink_fold regs_shrink_eq unset_sw_regs [OF assms(2)] clear_break_regs [OF assms(1)]
        clear_watch_regs [OF assms(1)] detach_thread_regs [OF assms(2)])+
  then show ?thesis
    using steps(4) by (metis regs_shrink_trans upd_inf_sel(4))
qed (simp add: detach_inferior_def)

lemma detach_inferior_regs:
  assumes bu: "breakpoint_unit K B" and others: "others_keep_breakpoints K B"
    and "i_enabled (inferiors s i)" and "hw_covered K B (ks s) (inferiors s i)" and tcb: "tcb \<in> thread_tcbs (inferiors s i)"
  shows "regs_free K (B (ks (detach_inferior K i s)) tcb)"
proof -
  obtain s1 s2 s3 s4 where steps:
    "s1 = fold (\<lambda>n s. snd (unset_software_breakpoint K i (sb_addr (i_sw (inferiors s i) n)) s)) [0..<MAX_SW_BREAKS] s"
    "s2 = fold (clear_break K i) [0..<seL4_NumExclusiveBreakpoints K] s1"
    "s3 = fold (clear_watch K i) [0..<seL4_NumExclusiveWatchpoints K] s2"
    "s4 = upd_inf i (\<lambda>I. I\<lparr>i_sw := (\<lambda>_. zero_sw), i_hb := (\<lambda>_. zero_hb), i_hw := (\<lambda>_. zero_hw)\<rparr>) s3"
    "detach_inferior K i s = fold (detach_thread K i) [0..<MAX_THREADS] s4"
    by (rule detach_inferior_steps [OF assms(3)])
  have same1: "B (ks s1) = B (ks s) \<and> i_threads (inferiors s1 i) = i_threads (inferiors s i) \<and>
      i_hb (inferiors s1 i) = i_hb (inferiors s i) \<and> i_hw (inferiors s1 i) = i_hw (inferiors s i)"
    unfolding steps(1) by (rule fold_invariant) (simp_all add: unset_sw_regs [OF others])
  then have tcbs: "thread_tcbs (inferiors s1 i) = thread_tcbs (inferiors s i)"
    and "hb_entry K (inferiors s1 i) = hb_entry K (inferiors s i)" "hw_entry K (inferiors s1 i) = hw_entry K (inferiors s i)"
    by (simp_all add: thread_tcbs_def hb_entry_def hw_entry_def fun_eq_iff)
  with assms(4) same1 have cov1: "hw_covered K B (ks s1) (inferiors s1 i)"
    by (simp add: hw_covered_def)
  have cov_hb: "covered (B (ks s1) tcb) (seL4_FirstBreakpoint K) (seL4_NumExclusiveBreakpoints K) (hb_entry K (inferiors s1 i))"
    if "tcb \<in> thread_tcbs (inferiors s1 i)" for tcb
    using cov1 that by (simp add: hw_covered_def)
  note loop2 = hbc.clear_all [OF bu order_refl cov_hb, folded steps(2)]
  have free2: "\<forall>n < seL4_NumExclusiveBreakpoints K. B (ks s2) tcb (seL4_FirstBreakpoint K + of_nat n) = None"
    using hbc.clear_all_regs [OF bu cov_hb, folded steps(2)] tcb tcbs by simp
  have "i_hw (inferiors s2 i) = i_hw (inferiors s1 i)"
    unfolding steps(2) by (rule fold_invariant) (simp_all add: unset_hb_others)
  then have same2: "hw_entry K (inferiors s2 i) = hw_entry K (inferiors s1 i)" "thread_tcbs (inferiors s2 i) = thread_tcbs (inferiors s1 i)"
    using loop2 by (simp_all add: hw_entry_def thread_tcbs_def fun_eq_iff)
  have cov_hw: "covered (B (ks s2) tcb) (seL4_FirstWatchpoint K) (seL4_NumExclusiveWatchpoints K) (hw_entry K (inferiors s2 i))"
    if "tcb \<in> thread_tcbs (inferiors s2 i)" for tcb
    using cov1 that loop2 by (auto simp: hw_covered_def same2 intro: regs_shrink_covered)
  have "\<forall>n < seL4_NumExclusiveWatchpoints K. B (ks s3) tcb (seL4_FirstWatchpoint K + of_nat n) = None"
    using hwc.clear_all_regs [OF bu cov_hw, folded steps(3)] tcb tcbs same2 by simp
  moreover have shrink3: "regs_shrink B (ks s2) (ks s3)"
    unfolding steps(3) by (intro regs_shrink_fold clear_watch_regs [OF bu])
  then have "\<forall>n < seL4_NumExclusiveBreakpoints K. B (ks s3) tcb (seL4_FirstBreakpoint K + of_nat n) = None"
    using free2 unfolding regs_shrink_def by blast
  ultimately have "regs_free K (B (ks s4) tcb)"
    by (simp add: regs_free_def steps(4))
  moreover have "regs_shrink B (ks s4) (ks (detach_inferior K i s))"
    unfolding steps(5) by (intro regs_shrink_fold regs_shrink_eq detach_thread_regs [OF others])
  ultimately show ?thesis
    by (blast intro: regs_shrink_free)
qed

lemma unset_others:
  assumes "i' \<noteq> i"
  shows "inferiors (snd (unset_software_breakpoint K i a s)) i' = inferiors s i'"
    and "inferiors (snd (unset_hardware_breakpoint K i a s)) i' = inferiors s i'"
    and "inferiors (snd (unset_hardware_watchpoint K i a ty sz s)) i' = inferiors s i'"
    and "inferiors (detach_thread K i j s) i' = inferiors s i'"
  using assms by (auto simp: unset_software_breakpoint_def unset_hardware_breakpoint_def unset_hardware_watchpoint_def
      detach_thread_def disable_single_step_def Let_def split_def split: option.split)

lemma detach_inferior_others:
  assumes "i' \<noteq> i"
  shows "inferiors (detach_inferior K i s) i' = inferiors s i'"
proof (cases "i_enabled (inferiors s i)")
  case True
  have keep: "inferiors (fold f ns s) i' = inferiors s i'" if "\<And>n s. inferiors (f n s) i' = inferiors s i'"
    for f :: "nat \<Rightarrow> 'a gdb \<Rightarrow> 'a gdb" and ns s
    by (rule fold_invariant) (simp_all add: that)
  show ?thesis
    unfolding detach_inferior_def Let_def using True assms by (simp add: keep unset_others)
qed (simp add: detach_inferior_def)

lemma detach_all_regs:
  assumes laws: "breakpoint_unit K B" "others_keep_breakpoints K B"
    and "\<And>i. i < MAX_PDS \<Longrightarrow> i_enabled (inferiors s i) \<Longrightarrow> hw_covered K B (ks s) (inferiors s i)"
    and "n \<le> MAX_PDS"
  defines "run \<equiv> \<lambda>n. fold (detach_inferior K) [0..<n] s"
  shows "regs_shrink B (ks s) (ks (run n)) \<and> (\<forall>i\<ge>n. inferiors (run n) i = inferiors s i) \<and>
    (\<forall>i<n. i_enabled (inferiors s i) \<longrightarrow> (\<forall>tcb\<in>thread_tcbs (inferiors s i). regs_free K (B (ks (run n)) tcb)))"
  using assms(4)
proof (induction n)
  case 0
  then show ?case
    by (simp add: run_def)
next
  case (Suc n)
  then have IH: "regs_shrink B (ks s) (ks (run n))" "\<And>i. n \<le> i \<Longrightarrow> inferiors (run n) i = inferiors s i"
    "\<And>i tcb. i < n \<Longrightarrow> i_enabled (inferiors s i) \<Longrightarrow> tcb \<in> thread_tcbs (inferiors s i) \<Longrightarrow> regs_free K (B (ks (run n)) tcb)"
    by simp_all
  have next_state: "run (Suc n) = detach_inferior K n (run n)"
    by (simp add: run_def)
  have shrink: "regs_shrink B (ks (run n)) (ks (run (Suc n)))"
    unfolding next_state by (rule detach_inferior_shrink [OF laws])
  have "regs_free K (B (ks (run (Suc n))) tcb)"
    if "i < Suc n" "i_enabled (inferiors s i)" "tcb \<in> thread_tcbs (inferiors s i)" for i tcb
  proof (cases "i = n")
    case True
    have "hw_covered K B (ks (run n)) (inferiors s n)"
      by (rule regs_shrink_hw_covered [OF IH(1) assms(3)]) (use Suc.prems that True in simp_all)
    with that True IH(2) [of n] show ?thesis
      unfolding next_state by (intro detach_inferior_regs [OF laws]) simp_all
  next
    case False
    with that IH(3) [of i tcb] show ?thesis
      by (intro regs_shrink_free [OF shrink]) simp
  qed
  moreover have "inferiors (run (Suc n)) i = inferiors s i" if "Suc n \<le> i" for i
    using that IH(2) [of i] by (simp add: next_state detach_inferior_others)
  ultimately show ?case
    using regs_shrink_trans [OF IH(1) shrink] by blast
qed

section \<open>Properties\<close>

text \<open>C32: Detaching frees the debug registers. If the tables and the registers are in step
  before, then after a \<open>D\<close> packet no register for breakpoints or watchpoints of any
  registered thread is in use.\<close>

theorem detach_frees_registers:
  assumes "breakpoint_unit K B" and "others_keep_breakpoints K B" and "length b = BUFSIZE"
    and "\<forall>i<MAX_PDS. i_enabled (inferiors s i) \<longrightarrow> hw_synced K B (ks s) (inferiors s i)"
  shows "\<exists>x. gdb_handle_packet K uc ids (ch CHR ''D'' # p) b d s = Inr x \<and>
    (\<forall>(i, j) \<in> set (thread_list s). regs_free K (B (ks (st x)) (t_tcb (thr s i j))))"
proof -
  define s' where "s' = fold (detach_inferior K) [0..<MAX_PDS] s"
  have "gdb_handle_packet K uc ids (ch CHR ''D'' # p) b d s = Inr (finish True True (reply (reply b []) (str ''OK''), s'))"
    using assms(3) by (simp add: gdb_handle_packet_eq [OF assms(3)] handle_detach_def copy_reply_ok s'_def)
  moreover have "\<forall>i<MAX_PDS. i_enabled (inferiors s i) \<longrightarrow> (\<forall>tcb\<in>thread_tcbs (inferiors s i). regs_free K (B (ks s') tcb))"
    unfolding s'_def
    by (rule detach_all_regs [THEN conjunct2, THEN conjunct2, OF assms(1,2) _ order_refl])
      (use assms(4) in \<open>blast intro: hw_synced_covered\<close>)
  then have "regs_free K (B (ks s') (t_tcb (thr s i j)))" if "(i, j) \<in> set (thread_list s)" for i j
    using that unfolding thread_list_iff thread_tcbs_def by blast
  then have "\<forall>(i, j) \<in> set (thread_list s). regs_free K (B (ks s') (t_tcb (thr s i j)))"
    by auto
  ultimately show ?thesis
    by (intro exI [of _ "finish True True (reply (reply b []) (str ''OK''), s')"]) (simp only: finish_sel fst_conv snd_conv simp_thms)
qed

lemma one_watch_synced: "\<forall>i<MAX_PDS. i_enabled (inferiors one_watch i) \<longrightarrow> hw_synced machine_kernel mc_bp (ks one_watch) (inferiors one_watch i)"
proof -
  have "i_enabled (inferiors one_watch i) \<longleftrightarrow> i = 0" for i
    unfolding one_watch_def same_shape_sel(1) [OF set_hw_shape] by (simp add: one_thread_def init_gdb_def zero_inferior_def)
  with one_watch_in_step show ?thesis
    by simp
qed

theorem detach_frees_registers_witness:
  "\<exists>x. gdb_handle_packet machine_kernel zero_context (\<lambda>_. (0, 0)) (ch CHR ''D'' # [0]) (replicate BUFSIZE 7) False one_watch = Inr x \<and>
    (\<forall>(i, j) \<in> set (thread_list one_watch). regs_free machine_kernel (mc_bp (ks (st x)) (t_tcb (thr one_watch i j))))"
  by (rule detach_frees_registers [OF machine_laws(2) machine_others_keep _ one_watch_synced]) simp

end
