(* ===== verification/Gdb_System.thy ===== *)
theory Gdb_System
  imports Gdb_Shape Gdb_Control Gdb_Detach Gdb_Release
begin

text \<open>
  The library as a state machine: a system that uses it calls the functions of \<open>gdb.h\<close> in any
  order. The step relation has a rule for each of them; the invariant of the state holds in
  every reachable state.
\<close>

section \<open>Calls\<close>

inductive api_step :: "('k, 'r) kernel \<Rightarrow> 'k gdb \<Rightarrow> 'k gdb \<Rightarrow> bool" for K where
  register_inferior: "gdb_register_inferior x vs s = Inr (e, s') \<Longrightarrow> api_step K s s'"
| register_thread: "gdb_register_thread K x y tcb b s = Inr (e, b', s') \<Longrightarrow> length b = BUFSIZE \<Longrightarrow> api_step K s s'"
| thread_exit: "gdb_thread_exit x y b s = Inr (e, b', s') \<Longrightarrow> length b = BUFSIZE \<Longrightarrow> api_step K s s'"
| packet: "gdb_handle_packet K uc ids p b d s = Inr r \<Longrightarrow> length b = BUFSIZE \<Longrightarrow> api_step K s (st r)"
| a_fault: "gdb_handle_fault K x y reason b s = Inr (e, hr, b', s') \<Longrightarrow> length b = BUFSIZE \<Longrightarrow> api_step K s s'"
| suspend: "api_step K s (suspend_system K s)"
| resume: "api_step K s (resume_system K s)"
| elsewhere: "api_step K s (s\<lparr>ks := k\<rparr>)"

inductive reachable :: "('k, 'r) kernel \<Rightarrow> 'k gdb \<Rightarrow> bool" for K where
  start: "reachable K (init_gdb k)"
| step: "reachable K s \<Longrightarrow> api_step K s s' \<Longrightarrow> reachable K s'"

section \<open>The invariant\<close>

lemma gdb_inv_init: "gdb_inv (init_gdb k)"
  using gdb_wf_init [of k] by (simp add: gdb_inv_def init_gdb_def zero_inferior_def)

lemma gdb_register_inferior_inv:
  assumes "gdb_inv s" and "gdb_register_inferior x vs s = Inr (e, s')"
  shows "gdb_inv s'"
proof -
  have "gdb_wf s'"
    using assms gdb_register_inferior_wf unfolding gdb_inv_def by blast
  moreover have "i_gdb_id (inferiors s' i) = 0" if "i < MAX_PDS" "\<not> i_enabled (inferiors s' i)" for i
    using assms that by (auto simp: gdb_inv_def gdb_register_inferior_def branches split: if_splits)
  ultimately show ?thesis
    by (simp add: gdb_inv_def)
qed

lemma enable_nth_shape:
  "thread_enable_nth_hw_breakpoint K p n s = Inr (ok, s') \<Longrightarrow> same_shape s s'"
  "thread_enable_nth_hw_watchpoint K p n s = Inr (ok, s') \<Longrightarrow> same_shape s s'"
  by (auto simp: thread_enable_nth_hw_breakpoint_def thread_enable_nth_hw_watchpoint_def Let_def branches intro!: shape_intros)

lemma enable_hw_shape: "enable_hw K p s = Inr s' \<Longrightarrow> same_shape s s'"
  by (auto simp: enable_hw_def branches dest!: same_shape_iter intro: enable_nth_shape same_shape_trans)

lemma gdb_register_thread_inferiors:
  assumes "gdb_register_thread K x y tcb b s = Inr (e, b', s')"
  shows "i_enabled (inferiors s' i) = i_enabled (inferiors s i) \<and> i_gdb_id (inferiors s' i) = i_gdb_id (inferiors s i)"
  using assms
  by (auto simp: gdb_register_thread_def Let_def branches add_thread_def same_shape_def dest!: enable_hw_shape split: if_splits)

lemma gdb_thread_exit_inferiors:
  assumes "gdb_thread_exit x y b s = Inr (e, b', s')"
  shows "i_enabled (inferiors s' i) = i_enabled (inferiors s i) \<and> i_gdb_id (inferiors s' i) = i_gdb_id (inferiors s i)"
  using assms by (auto simp: gdb_thread_exit_def Let_def branches split: if_splits)

lemma gdb_inv_ks: "gdb_inv s \<Longrightarrow> gdb_inv (s\<lparr>ks := k\<rparr>)"
  by (erule gdb_inv_shape) (intro shape_intros)

lemma BUFSIZE_64: "length b = BUFSIZE \<Longrightarrow> 64 \<le> length b"
  by (simp add: BUFSIZE_def)

lemma api_step_inv:
  assumes "api_step K s s'" and "gdb_inv s"
  shows "gdb_inv s'"
  using assms
proof (induction rule: api_step.induct)
  case (register_inferior x vs s e s')
  then show ?case
    using gdb_register_inferior_inv by blast
next
  case (register_thread x y tcb b s e b' s')
  then show ?case
    using gdb_register_thread_wf [OF _ register_thread(1) BUFSIZE_64] gdb_register_thread_inferiors [OF register_thread(1)]
    by (simp add: gdb_inv_def)
next
  case (thread_exit x y b s e b' s')
  then show ?case
    using gdb_thread_exit_wf [OF _ thread_exit(1) BUFSIZE_64] gdb_thread_exit_inferiors [OF thread_exit(1)]
    by (simp add: gdb_inv_def)
next
  case (packet uc ids p b d s r)
  then show ?case
    using gdb_handle_packet_inv by blast
next
  case (a_fault x y reason b s e hr b' s')
  then show ?case
    using gdb_handle_fault_inv by blast
qed (simp_all add: suspend_system_def resume_system_def gdb_inv_ks)

lemma reachable_inv: "reachable K s \<Longrightarrow> gdb_inv s"
  by (induction rule: reachable.induct) (auto intro: gdb_inv_init api_step_inv)

section \<open>Properties\<close>

text \<open>C7: Whatever sequence of calls the system makes, the library's tables stay consistent. In
  every reachable state: an inferior in use is found by the identifier that GDB knows it by;
  so is each of its threads, unless its 16-bit identifier has wrapped around to zero; no two
  inferiors have the same client identifier; and the target thread belongs to an inferior in
  use, to which it points back.\<close>

theorem reachable_consistent:
  assumes "reachable K s"
  shows "(\<forall>i<MAX_PDS. i_enabled (inferiors s i) \<longrightarrow> lookup_inferior_from_gdb_id (int (i + 1)) s = Inr (Some i)) \<and>
    (\<forall>(i, j) \<in> set (thread_list s). t_gdb_id (thr s i j) \<noteq> 0 \<longrightarrow>
       lookup_thread_from_gdb_id (int (i + 1)) (uint (t_gdb_id (thr s i j))) s = Inr (Some (i, j))) \<and>
    (\<forall>i<MAX_PDS. \<forall>j<MAX_PDS. i_enabled (inferiors s i) \<longrightarrow> i_enabled (inferiors s j) \<longrightarrow>
       i_id (inferiors s i) = i_id (inferiors s j) \<longrightarrow> i = j) \<and>
    (\<forall>i j. target_thread s = Some (i, j) \<longrightarrow>
       i < MAX_PDS \<and> j < MAX_THREADS \<and> i_enabled (inferiors s i) \<and> t_inferior (thr s i j) = Some i)"
proof -
  have wf: "gdb_wf s"
    using reachable_inv [OF assms] by (simp add: gdb_inv_def)
  have "ids_distinct MAX_PDS (inferior_ids s)" "target_wf s"
    using wf by (simp_all add: gdb_wf_def)
  moreover have "lookup_thread_from_gdb_id (int (i + 1)) (uint (t_gdb_id (thr s i j))) s = Inr (Some (i, j))"
    if "(i, j) \<in> set (thread_list s)" "t_gdb_id (thr s i j) \<noteq> 0" for i j
    using live_thread [OF wf that(1)] lookup_thread_gdb_id [OF wf] that(2) by blast
  ultimately show ?thesis
    using lookup_inferior_gdb_id(1) [OF wf]
    by (auto simp: ids_distinct_def inferior_ids_def target_wf_def)
qed

theorem reachable_consistent_witness:
  "\<exists>s. gdb_register_inferior 3 4 (init_gdb machine0) = Inr (NoError, s) \<and>
    (\<forall>i<MAX_PDS. i_enabled (inferiors s i) \<longrightarrow> lookup_inferior_from_gdb_id (int (i + 1)) s = Inr (Some i)) \<and>
    (\<forall>(i, j) \<in> set (thread_list s). t_gdb_id (thr s i j) \<noteq> 0 \<longrightarrow>
       lookup_thread_from_gdb_id (int (i + 1)) (uint (t_gdb_id (thr s i j))) s = Inr (Some (i, j))) \<and>
    (\<forall>i<MAX_PDS. \<forall>j<MAX_PDS. i_enabled (inferiors s i) \<longrightarrow> i_enabled (inferiors s j) \<longrightarrow>
       i_id (inferiors s i) = i_id (inferiors s j) \<longrightarrow> i = j) \<and>
    (\<forall>i j. target_thread s = Some (i, j) \<longrightarrow>
       i < MAX_PDS \<and> j < MAX_THREADS \<and> i_enabled (inferiors s i) \<and> t_inferior (thr s i j) = Some i)"
proof -
  have new: "lookup_inferior_from_id 3 (init_gdb machine0) = None"
    by (simp add: inferior_table.lookup_eq find_upt_None inferior_ids_def init_gdb_def zero_inferior_def)
  have room: "curr_inferior_idx (init_gdb machine0) < MAX_PDS"
    by (simp add: init_gdb_def MAX_PDS_def)
  obtain s where run: "gdb_register_inferior 3 4 (init_gdb machine0) = Inr (NoError, s)"
    by (rule that [OF gdb_register_inferior_new [OF gdb_wf_init new room]])
  then have r: "reachable machine_kernel s"
    by (intro reachable.step [OF reachable.start] api_step.register_inferior)
  show ?thesis
    by (rule exI, rule conjI [OF run reachable_consistent [OF r]])
qed

end
