(* ===== verification/Gdb_Transport.thy ===== *)
theory Gdb_Transport
  imports Gdb_Reply
begin

text \<open>
  The packet layer of the example debuggers: packets framed by \<open>$\<close>, \<open>#\<close> and a checksum, read
  from and written to a stream of characters
  (\<open>examples/microkit_sddf_serial/apps/debugger/debugger.c\<close>, and the variants of the network and
  the integrated example).

  A function that reads gets the characters that arrive as a list. It returns the characters
  sent, and either the value it computes and the characters left, or \<open>None\<close> when it has
  consumed all characters and waits for more in \<open>gdb_get_char\<close>: the coroutine switches to the
  event handler, and goes on where it was when more characters arrive. A pointer into the
  input buffer is the offset and the buffer.
\<close>

section \<open>Reading a packet\<close>

text \<open>
  The body of a packet: the inner loop with the jump to \<open>retry\<close> at a \<open>$\<close>. The result is the
  buffer, the count, the checksum, whether the loop ended at a \<open>#\<close>, and what is left.
\<close>

fun read_body :: "u8 list \<Rightarrow> nat \<Rightarrow> u8 \<Rightarrow> u8 list \<Rightarrow> (u8 list \<times> nat \<times> u8 \<times> bool \<times> u8 list) option res" where
  "read_body buf count cksum [] =
     Inr (if count < BUFSIZE - 1 then None else Some (buf, count, cksum, False, []))"
| "read_body buf count cksum (c # s) =
     (if count < BUFSIZE - 1
      then if c = ch CHR ''$'' then read_body buf 0 0 s
           else if c = ch CHR ''#'' then Inr (Some (buf, count, cksum, True, s))
           else bindR (put buf count c) (\<lambda>buf. read_body buf (count + 1) (cksum + c) s)
      else Inr (Some (buf, count, cksum, False, c # s)))"

lemma read_body_length: "read_body buf count cksum s = Inr (Some (b, n, k, h, r)) \<Longrightarrow> length r \<le> length s"
  by (induction buf count cksum s rule: read_body.induct)
    (fastforce simp: bindR_eq_Inr_iff split: if_splits)+

text \<open>
  The outer loop. The examples differ in two ways: whether the interrupt character is handled
  (\<open>intr\<close>), and which characters of the buffer are sent back for a packet with a sequence
  number (\<open>e\<close>). The checksum is read with \<open>hexchar_to_int\<close>, whose \<open>-1\<close> for a character that is
  no digit is shifted as the compilers for the target do it, by multiplication.
\<close>

definition array_get :: "u8 list \<Rightarrow> nat \<Rightarrow> u8 res" where
  "array_get b p = (if p < length b then Inr (b ! p) else Inl OutOfBounds)"

text \<open>
  From the label \<open>retry\<close> to the end of the body of the outer loop: it waits in the middle, goes
  round again (with the buffer and what is left), or returns a packet. The first component of
  the result is what it sends.
\<close>

datatype round = Waits | Again "u8 list" "u8 list" | Got nat "u8 list" "u8 list"

definition packet_round :: "nat \<times> nat \<Rightarrow> u8 list \<Rightarrow> u8 list \<Rightarrow> (u8 list \<times> round) res" where
  "packet_round e buf s =
    bindR (read_body buf 0 0 s) (\<lambda>r. case r of
      None \<Rightarrow> Inr ([], Waits)
    | Some (buf, count, cksum, hash, s) \<Rightarrow>
        bindR (put buf count 0) (\<lambda>buf.
        if \<not> hash then Inr ([], Again buf s)
        else case s of
            a # b # s \<Rightarrow>
              (let xcksum = hex_byte a b
               in if cksum \<noteq> xcksum then Inr ([ch CHR ''-''], Again buf s)
                  else bindR (array_get buf 2) (\<lambda>m.
                       if m = ch CHR '':''
                       then bindR (array_get buf (fst e)) (\<lambda>x. bindR (array_get buf (snd e)) (\<lambda>y.
                            Inr ([ch CHR ''+'', x, y], Got 3 buf s)))
                       else Inr ([ch CHR ''+''], Got 0 buf s)))
          | _ \<Rightarrow> Inr ([], Waits)))"

lemma packet_round_length: "packet_round e buf s = Inr (x, Again b r) \<Longrightarrow> length r \<le> length s"
  by (auto simp: packet_round_def res_branches Let_def dest!: read_body_length)

function packet_loop :: "bool \<Rightarrow> nat \<times> nat \<Rightarrow> u8 list \<Rightarrow> u8 list \<Rightarrow> u8 list \<Rightarrow> (u8 list \<times> (nat \<times> u8 list \<times> u8 list) option) res" where
  "packet_loop intr e buf sent [] = Inr (sent, None)"
| "packet_loop intr e buf sent (c # s) =
     (if c = ch CHR ''$''
      then bindR (packet_round e buf s) (\<lambda>(x, r). case r of
          Waits \<Rightarrow> Inr (sent @ x, None)
        | Again buf s \<Rightarrow> packet_loop intr e buf (sent @ x) s
        | Got p buf s \<Rightarrow> Inr (sent @ x, Some (p, buf, s)))
      else if intr \<and> c = 3
      then bindR (put buf 0 c) (\<lambda>buf. bindR (put buf 1 0) (\<lambda>buf. Inr (sent, Some (0, buf, s))))
      else packet_loop intr e buf sent s)"
  by pat_completeness auto
termination
  by (relation "measure (\<lambda>(intr, e, buf, sent, s). length s)") (auto dest!: packet_round_length)

definition get_packet :: "u8 list \<Rightarrow> u8 list \<Rightarrow> (u8 list \<times> (nat \<times> u8 list \<times> u8 list) option) res" where
  "get_packet input s = packet_loop True (0, 1) input [] s"

definition net_get_packet :: "u8 list \<Rightarrow> u8 list \<Rightarrow> (u8 list \<times> (nat \<times> u8 list \<times> u8 list) option) res" where
  "net_get_packet input s = packet_loop True (1, 2) input [] s"

definition integrated_get_packet :: "u8 list \<Rightarrow> u8 list \<Rightarrow> (u8 list \<times> (nat \<times> u8 list \<times> u8 list) option) res" where
  "integrated_get_packet input s = packet_loop False (0, 1) input [] s"

section \<open>Sending a packet\<close>

text \<open>The loop over the text: the characters sent, the checksum, and the pointer to the end.\<close>

fun send_body :: "cptr \<Rightarrow> u8 \<Rightarrow> (u8 list \<times> u8 \<times> cptr) res" where
  "send_body [] cksum = Inl OutOfBounds"
| "send_body (c # p) cksum =
     (if c = 0 then Inr ([], cksum, c # p)
      else bindR (send_body p (cksum + c)) (\<lambda>(cs, k, q). Inr (c # cs, k, q)))"

definition send_frame :: "cptr \<Rightarrow> (u8 list \<times> cptr) res" where
  "send_frame buf =
    bindR (send_body buf 0) (\<lambda>(cs, cksum, q).
    Inr (ch CHR ''$'' # cs @ [ch CHR ''#'', hex_hi cksum, hex_lo cksum], q))"

text \<open>Sending again until the character received is a \<open>+\<close>.\<close>

fun put_packet :: "cptr \<Rightarrow> u8 list \<Rightarrow> (u8 list \<times> u8 list option) res" where
  "put_packet buf [] = bindR (send_frame buf) (\<lambda>(f, _). Inr (f, None))"
| "put_packet buf (c # s) =
     bindR (send_frame buf) (\<lambda>(f, _).
     if c = ch CHR ''+'' then Inr (f, Some s)
     else bindR (put_packet buf s) (\<lambda>(t, r). Inr (f @ t, r)))"

text \<open>The integrated example moves \<open>buf\<close> itself over the text.\<close>

fun integrated_put_packet :: "cptr \<Rightarrow> u8 list \<Rightarrow> (u8 list \<times> u8 list option) res" where
  "integrated_put_packet buf [] = bindR (send_frame buf) (\<lambda>(f, _). Inr (f, None))"
| "integrated_put_packet buf (c # s) =
     bindR (send_frame buf) (\<lambda>(f, buf).
     if c = ch CHR ''+'' then Inr (f, Some s)
     else bindR (integrated_put_packet buf s) (\<lambda>(t, r). Inr (f @ t, r)))"

text \<open>
  The network example collects the packet in \<open>tcp_output_buf\<close> and moves both \<open>output\<close> and the
  pointer \<open>p\<close> into the buffer. What is sent is the C string at the start of the buffer.
\<close>

definition net_send_frame :: "u8 list \<Rightarrow> nat \<Rightarrow> cptr \<Rightarrow> (u8 list \<times> u8 list \<times> nat \<times> cptr) res" where
  "net_send_frame tbuf p buf =
    bindR (send_frame buf) (\<lambda>(f, q).
    bindR (put_all tbuf p (f @ [0])) (\<lambda>tbuf.
    bindR (strnlen tbuf BUFSIZE) (\<lambda>n. Inr (take n tbuf, tbuf, p + length f + 1, q))))"

fun net_put_packet :: "u8 list \<Rightarrow> nat \<Rightarrow> cptr \<Rightarrow> u8 list \<Rightarrow> (u8 list \<times> u8 list option) res" where
  "net_put_packet tbuf p buf [] = bindR (net_send_frame tbuf p buf) (\<lambda>(f, _). Inr (f, None))"
| "net_put_packet tbuf p buf (c # s) =
     bindR (net_send_frame tbuf p buf) (\<lambda>(f, tbuf, p, buf).
     if c = ch CHR ''+'' then Inr (f, Some s)
     else bindR (net_put_packet tbuf p buf s) (\<lambda>(t, r). Inr (f @ t, r)))"

section \<open>Frames\<close>

definition plain :: "u8 list \<Rightarrow> bool" where
  "plain t \<longleftrightarrow> 0 \<notin> set t \<and> ch CHR ''$'' \<notin> set t \<and> ch CHR ''#'' \<notin> set t"

definition frame :: "u8 list \<Rightarrow> u8 list" where
  "frame t = ch CHR ''$'' # t @ [ch CHR ''#'', hex_hi (sum_list t), hex_lo (sum_list t)]"

lemma send_body_text: "0 \<notin> set t \<Longrightarrow> send_body (t @ 0 # r) k = Inr (t, k + sum_list t, 0 # r)"
  by (induction t arbitrary: k) (auto simp: add.assoc)

lemma send_frame_text: "0 \<notin> set t \<Longrightarrow> send_frame (t @ 0 # r) = Inr (frame t, 0 # r)"
  by (simp add: send_frame_def send_body_text frame_def)

lemma length_frame [simp]: "length (frame t) = length t + 4"
  by (simp add: frame_def)

lemma frame_nonzero: "0 \<notin> set t \<Longrightarrow> 0 \<notin> set (frame t)"
  using is_hex_nonzero [OF hex.hi_digit [of "sum_list t"]] is_hex_nonzero [OF hex.lo_digit [of "sum_list t"]] by (auto simp: frame_def)

text \<open>The characters of a body go to the buffer and into the checksum.\<close>

definition unframed :: "u8 list \<Rightarrow> bool" where
  "unframed t \<longleftrightarrow> ch CHR ''$'' \<notin> set t \<and> ch CHR ''#'' \<notin> set t"

lemma plain_unframed: "plain t \<Longrightarrow> unframed t"
  by (simp add: plain_def unframed_def)

lemma read_body_run:
  "unframed t \<Longrightarrow> count + length t \<le> BUFSIZE - 1 \<Longrightarrow> length buf = BUFSIZE \<Longrightarrow>
     read_body buf count k (t @ s) = read_body (patch buf count t) (count + length t) (k + sum_list t) s"
proof (induction t arbitrary: buf count k)
  case (Cons c t)
  then have "put buf count c = Inr (buf[count := c])"
    by (simp add: put_def BUFSIZE_def)
  moreover have "unframed t" "c \<noteq> ch CHR ''$''" "c \<noteq> ch CHR ''#''"
    using Cons.prems(1) by (auto simp: unframed_def)
  ultimately show ?case
    using Cons.IH [of "count + 1" "buf[count := c]" "k + c"] Cons.prems
    by (simp add: patch_Cons add.assoc del: of_char_def)
qed (simp add: patch_def)

lemma read_body_text:
  "unframed t \<Longrightarrow> count + length t < BUFSIZE - 1 \<Longrightarrow> length buf = BUFSIZE \<Longrightarrow>
     read_body buf count k (t @ ch CHR ''#'' # s) = Inr (Some (patch buf count t, count + length t, k + sum_list t, True, s))"
  by (simp add: read_body_run)

section \<open>Reading a frame\<close>

text \<open>What a text that fits and its terminator leave in the buffer, and what is returned.\<close>

definition accepted :: "nat \<times> nat \<Rightarrow> u8 list \<Rightarrow> u8 list \<Rightarrow> u8 list \<times> round" where
  "accepted e buf s =
    (if buf ! 2 = ch CHR '':'' then ([ch CHR ''+'', buf ! fst e, buf ! snd e], Got 3 buf s)
     else ([ch CHR ''+''], Got 0 buf s))"

lemma packet_round_body:
  assumes "unframed t" and "length t < BUFSIZE - 1" and "length buf = BUFSIZE" and "fst e < BUFSIZE" and "snd e < BUFSIZE"
  defines "buf' \<equiv> patch buf 0 (t @ [0])"
  shows "packet_round e buf (t @ ch CHR ''#'' # a # b # s) =
    Inr (if hex_byte a b = sum_list t then accepted e buf' s else ([ch CHR ''-''], Again buf' s))"
proof -
  have body: "read_body buf 0 0 (t @ ch CHR ''#'' # a # b # s) = Inr (Some (patch buf 0 t, length t, sum_list t, True, a # b # s))"
    using read_body_text [of t 0 buf 0 "a # b # s"] assms(1-3) by simp
  have "put (patch buf 0 t) (length t) 0 = Inr (patch (patch buf 0 t) (0 + length t) [0])"
    using assms(2,3) by (simp add: put_patch)
  then have end_put: "put (patch buf 0 t) (length t) 0 = Inr buf'"
    using patch_patch [of 0 t buf "[0]"] assms(2,3) by (simp add: buf'_def)
  have len: "length buf' = BUFSIZE"
    using assms(2,3) by (simp add: buf'_def)
  then have get: "array_get buf' (fst e) = Inr (buf' ! fst e)" "array_get buf' (snd e) = Inr (buf' ! snd e)"
    "array_get buf' 2 = Inr (buf' ! 2)"
    using assms(4,5) by (simp_all add: array_get_def) (simp add: BUFSIZE_def)
  show ?thesis
    unfolding packet_round_def body by (simp add: end_put get accepted_def)
qed

lemma packet_loop_body:
  assumes "plain t" and "length t < BUFSIZE - 1" and "length buf = BUFSIZE" and "fst e < BUFSIZE" and "snd e < BUFSIZE"
    and "hex_byte a b \<noteq> sum_list t"
  shows "packet_loop intr e buf sent (ch CHR ''$'' # t @ ch CHR ''#'' # a # b # s) =
    packet_loop intr e (patch buf 0 (t @ [0])) (sent @ [ch CHR ''-'']) s"
  using packet_round_body [OF plain_unframed [OF assms(1)] assms(2-5), of a b s] assms(6) by simp

lemma packet_loop_frame:
  assumes "plain t" and "length t < BUFSIZE - 1" and "length buf = BUFSIZE" and "fst e < BUFSIZE" and "snd e < BUFSIZE"
  defines "buf' \<equiv> patch buf 0 (t @ [0])"
  shows "packet_loop intr e buf sent (frame t @ s) =
    Inr (if buf' ! 2 = ch CHR '':'' then (sent @ [ch CHR ''+'', buf' ! fst e, buf' ! snd e], Some (3, buf', s))
         else (sent @ [ch CHR ''+''], Some (0, buf', s)))"
  using packet_round_body [OF plain_unframed [OF assms(1)] assms(2-5), of "hex_hi (sum_list t)" "hex_lo (sum_list t)" s]
  by (simp add: frame_def hex.dec_enc accepted_def buf'_def)

text \<open>Characters before a frame are skipped.\<close>

lemma packet_loop_noise:
  "ch CHR ''$'' \<notin> set g \<Longrightarrow> 3 \<notin> set g \<Longrightarrow> packet_loop intr e buf sent (g @ s) = packet_loop intr e buf sent s"
  by (induction g) auto

section \<open>The checksum\<close>

lemma sum_list_substitute:
  assumes "i < length t"
  shows "sum_list (t[i := x]) = sum_list t - t ! i + (x :: u8)"
proof -
  have "sum_list t = sum_list (take i t) + t ! i + sum_list (drop (Suc i) t)"
    using arg_cong [OF id_take_nth_drop [OF assms], of sum_list] by (simp add: add.assoc)
  moreover have "sum_list (t[i := x]) = sum_list (take i t) + x + sum_list (drop (Suc i) t)"
    using assms by (simp add: upd_conv_take_nth_drop add.assoc)
  ultimately show ?thesis
    by simp
qed

section \<open>Waiting\<close>

text \<open>
  A reader that waits has used all characters, and goes on with the next ones; a reader that
  has finished leaves the rest for the next call.
\<close>

lemma read_body_more:
  "read_body buf n k s = Inr (Some (b, m, k', h, r)) \<Longrightarrow> read_body buf n k (s @ t) = Inr (Some (b, m, k', h, r @ t))"
proof (induction buf n k s rule: read_body.induct)
  case (1 buf count cksum)
  then show ?case
    by (cases t) (simp_all split: if_splits)
next
  case (2 buf count cksum c s)
  then show ?case
    by (auto simp: bindR_eq_Inr_iff split: if_splits)
qed

lemma packet_round_more:
  assumes "packet_round e buf s = Inr (x, r)" and "r \<noteq> Waits"
  shows "packet_round e buf (s @ t) =
    Inr (x, case r of Waits \<Rightarrow> Waits | Again b q \<Rightarrow> Again b (q @ t) | Got p b q \<Rightarrow> Got p b (q @ t))"
proof -
  obtain b1 n k h s1 b2 where body: "read_body buf 0 0 s = Inr (Some (b1, n, k, h, s1))" and b2: "put b1 n 0 = Inr b2"
    using assms by (auto simp: packet_round_def bindR_eq_Inr_iff split: option.splits)
  note run = assms(1) [unfolded packet_round_def body bindR_Inr option.case prod.case b2]
  note goal = packet_round_def read_body_more [OF body] bindR_Inr option.case prod.case b2
  show ?thesis
  proof (cases h)
    case False
    with run show ?thesis
      unfolding goal by auto
  next
    case True
    with run assms(2) obtain a b s2 where s1: "s1 = a # b # s2"
      by (cases s1; cases "tl s1") auto
    show ?thesis
    proof (cases "k = hex_byte a b")
      case False
      with run True s1 show ?thesis
        unfolding goal by (auto simp: Let_def)
    next
      case ok: True
      with run True s1 obtain m where m: "array_get b2 2 = Inr m"
        by (auto simp: Let_def bindR_eq_Inr_iff)
      show ?thesis
        using run True s1 ok unfolding goal by (cases "m = ch CHR '':''") (auto simp: Let_def m bindR_eq_Inr_iff)
    qed
  qed
qed

lemma packet_loop_more:
  "packet_loop intr e buf sent s = Inr (x, Some (p, b, r)) \<Longrightarrow>
     packet_loop intr e buf sent (s @ t) = Inr (x, Some (p, b, r @ t))"
proof (induction "length s" arbitrary: buf sent s rule: less_induct)
  case less
  then obtain c s1 where s: "s = c # s1"
    by (cases s) auto
  show ?case
  proof (cases "c = ch CHR ''$''")
    case True
    with less.prems s obtain y q where round: "packet_round e buf s1 = Inr (y, q)"
      by (auto simp: bindR_eq_Inr_iff)
    show ?thesis
    proof (cases q)
      case Waits
      with less.prems s True round show ?thesis
        by simp
    next
      case (Again b1 s2)
      then have "length s2 < length s"
        using packet_round_length [of e buf s1 y b1 s2] round s by simp
      from less.hyps [OF this] less.prems s True round Again packet_round_more [OF round, of t] show ?thesis
        by simp
    next
      case (Got p1 b1 s2)
      with less.prems s True round packet_round_more [OF round, of t] show ?thesis
        by simp
    qed
  next
    case False
    then show ?thesis
      using less.hyps [of s1] less.prems s by (auto simp: bindR_eq_Inr_iff split: if_splits)
  qed
qed

section \<open>Staying in the buffer\<close>

text \<open>The last byte of the static buffer is zero at the start and is only ever written as a
  terminator.\<close>

definition input_ok :: "u8 list \<Rightarrow> bool" where
  "input_ok b \<longleftrightarrow> length b = BUFSIZE \<and> b ! (BUFSIZE - 1) = 0"

lemma input_ok_put:
  assumes "input_ok b" and "n \<le> BUFSIZE - 1" and "n = BUFSIZE - 1 \<longrightarrow> v = 0"
  shows "put b n v = Inr (b[n := v])" and "input_ok (b[n := v])"
  using assms by (auto simp: input_ok_def put_def nth_list_update BUFSIZE_def)

lemma read_body_safe:
  "input_ok buf \<Longrightarrow> n \<le> BUFSIZE - 1 \<Longrightarrow> \<exists>r. read_body buf n k s = Inr r \<and>
     (\<forall>b m k' h q. r = Some (b, m, k', h, q) \<longrightarrow> input_ok b \<and> m \<le> BUFSIZE - 1)"
proof (induction buf n k s rule: read_body.induct)
  case (2 buf n k c s)
  show ?case
  proof (cases "n < BUFSIZE - 1 \<and> c \<noteq> ch CHR ''$'' \<and> c \<noteq> ch CHR ''#''")
    case True
    note step = input_ok_put [OF "2.prems"(1,2), of c]
    have "put buf n c = Inr (buf[n := c])" "input_ok (buf[n := c])"
      using step True by simp_all
    moreover have "n + 1 \<le> BUFSIZE - 1"
      using True by simp
    ultimately show ?thesis
      using "2.IH"(2) [of "buf[n := c]"] True by simp
  next
    case False
    then show ?thesis
      using "2.IH"(1) "2.prems" by (cases "n < BUFSIZE - 1") auto
  qed
qed simp

definition indices_ok :: "nat \<times> nat \<Rightarrow> bool" where
  "indices_ok e \<longleftrightarrow> fst e < BUFSIZE \<and> snd e < BUFSIZE"

lemma packet_round_safe:
  assumes "input_ok buf" and "indices_ok e"
  shows "\<exists>x r. packet_round e buf s = Inr (x, r) \<and>
    (\<forall>b q. r = Again b q \<longrightarrow> input_ok b \<and> length q \<le> length s) \<and>
    (\<forall>p b q. r = Got p b q \<longrightarrow> input_ok b \<and> p \<le> 3 \<and> length q \<le> length s)"
proof -
  obtain r where r: "read_body buf 0 0 s = Inr r"
    and ok: "\<And>b m k' h q. r = Some (b, m, k', h, q) \<Longrightarrow> input_ok b \<and> m \<le> BUFSIZE - 1"
    using read_body_safe [OF assms(1) le0] by blast
  show ?thesis
  proof (cases r)
    case None
    with r show ?thesis
      by (simp add: packet_round_def)
  next
    case (Some u)
    then obtain b m k h q where u: "r = Some (b, m, k, h, q)"
      by (cases u) simp
    note len = read_body_length [OF r [unfolded u]]
    have b: "put b m 0 = Inr (b[m := 0])" "input_ok (b[m := 0])"
      using ok [OF u] input_ok_put [of b m 0] by simp_all
    then have get: "array_get (b[m := 0]) 2 = Inr (b[m := 0] ! 2)" "array_get (b[m := 0]) (fst e) = Inr (b[m := 0] ! fst e)"
      "array_get (b[m := 0]) (snd e) = Inr (b[m := 0] ! snd e)"
      using assms(2) by (simp_all add: array_get_def input_ok_def indices_ok_def) (simp add: BUFSIZE_def)
    note run = packet_round_def r u bindR_Inr option.case prod.case b(1)
    show ?thesis
      unfolding run using b(2) len by (auto simp: Let_def get split: list.split)
  qed
qed

lemma packet_loop_safe:
  "input_ok buf \<Longrightarrow> indices_ok e \<Longrightarrow> \<exists>x r. packet_loop intr e buf sent s = Inr (x, r) \<and>
     (\<forall>p b q. r = Some (p, b, q) \<longrightarrow> input_ok b \<and> p \<le> 3 \<and> length q < length s)"
proof (induction "length s" arbitrary: buf sent s rule: less_induct)
  case less
  show ?case
  proof (cases s)
    case (Cons c s1)
    show ?thesis
    proof (cases "c = ch CHR ''$''")
      case True
      obtain y q where round: "packet_round e buf s1 = Inr (y, q)"
        and again: "\<And>b r. q = Again b r \<Longrightarrow> input_ok b \<and> length r \<le> length s1"
        and got: "\<And>p b r. q = Got p b r \<Longrightarrow> input_ok b \<and> p \<le> 3 \<and> length r \<le> length s1"
        using packet_round_safe [OF less.prems, of s1] by blast
      show ?thesis
      proof (cases q)
        case Waits
        with Cons True round show ?thesis
          by simp
      next
        case (Again b r)
        have "length r < length s"
          using again [OF Again] Cons by simp
        from less.hyps [OF this _ less.prems(2), of b "sent @ y"] again [OF Again] Cons True round Again \<open>length r < length s\<close>
        show ?thesis
          by (auto intro: less_trans)
      next
        case (Got p b r)
        with Cons True round got [OF Got] show ?thesis
          by (simp add: less_Suc_eq_le)
      qed
    next
      case False
      have *: "put buf 0 c = Inr (buf[0 := c])" "input_ok (buf[0 := c])"
        using input_ok_put [OF less.prems(1), of 0 c] by (simp_all add: BUFSIZE_def)
      moreover have "put (buf[0 := c]) 1 0 = Inr (buf[0 := c, 1 := 0])" "input_ok (buf[0 := c, 1 := 0])"
        using input_ok_put [OF *(2), of 1 0] by (simp_all add: BUFSIZE_def)
      moreover have "length s1 < length s"
        using Cons by simp
      note less.hyps [OF this less.prems, of sent]
      ultimately show ?thesis
        using False Cons by (auto intro: less_SucI)
    qed
  qed simp
qed

section \<open>Sending\<close>

lemma put_packet_text:
  assumes "0 \<notin> set t" and "ch CHR ''+'' \<notin> set n"
  shows "put_packet (t @ 0 # r) (n @ ch CHR ''+'' # s) = Inr (concat (replicate (length n + 1) (frame t)), Some s)"
  using assms(2) by (induction n) (auto simp: send_frame_text [OF assms(1)])

lemma net_send_frame_text:
  assumes "0 \<notin> set t" and "length tbuf = BUFSIZE" and "p \<le> BUFSIZE"
  shows "net_send_frame tbuf p (t @ 0 # r) =
    (if p + length t + 5 \<le> BUFSIZE
     then Inr (content (patch tbuf p (frame t @ [0])), patch tbuf p (frame t @ [0]), p + length t + 5, 0 # r)
     else Inl OutOfBounds)"
proof (cases "p + length t + 5 \<le> BUFSIZE")
  case True
  let ?b = "patch tbuf p (frame t @ [0])"
  have fill: "put_all tbuf p (frame t @ [0]) = Inr ?b"
    by (rule put_all_patch) (use True assms(2) in simp)
  have "0 \<in> set ?b"
    by (simp add: patch_def)
  then have "strnlen ?b BUFSIZE = Inr (min BUFSIZE (length (content ?b)))"
    by (rule strnlen_content)
  moreover have "length (content ?b) \<le> BUFSIZE"
    unfolding content_def using length_takeWhile_le [of "\<lambda>c. c \<noteq> 0" ?b] True assms(2) by simp
  moreover have "take (length (content ?b)) ?b = content ?b"
    unfolding content_def by (metis takeWhile_eq_take)
  ultimately show ?thesis
    using True by (simp add: net_send_frame_def send_frame_text [OF assms(1)] fill min_absorb2)
next
  case False
  then have "put_all tbuf p (frame t @ [0]) = Inl OutOfBounds"
    by (intro put_all_overflow) (use assms(2,3) in simp_all)
  with False show ?thesis
    by (simp add: net_send_frame_def send_frame_text [OF assms(1)])
qed

text \<open>Each time it sends again, the code appends an empty frame to the buffer.\<close>

lemma net_resend:
  assumes "ch CHR ''+'' \<notin> set n" and "length tbuf = BUFSIZE" and "p \<le> BUFSIZE" and "length f < p"
    and "take (length f + 1) tbuf = f @ [0]" and "0 \<notin> set f"
  shows "net_put_packet tbuf p (0 # r) (n @ ch CHR ''+'' # s) =
    (if p + 5 * (length n + 1) \<le> BUFSIZE then Inr (concat (replicate (length n + 1) f), Some s) else Inl OutOfBounds)"
  using assms(1-5)
proof (induction n arbitrary: tbuf p)
  case Nil
  let ?b = "patch tbuf p (frame [] @ [0])"
  have sent: "content ?b = f" if "p + 5 \<le> BUFSIZE"
  proof -
    have "take (length f + 1) ?b = f @ [0]"
      using Nil.prems by (simp add: patch_def)
    then have "?b = f @ 0 # drop (length f + 1) ?b"
      by (metis append_Cons append_Nil append_assoc append_take_drop_id)
    then show ?thesis
      using content_append_zero [OF assms(6)] by metis
  qed
  show ?case
    using net_send_frame_text [of "[]" tbuf p r] Nil.prems sent by (auto simp: add.commute)
next
  case (Cons c n)
  let ?b = "patch tbuf p (frame [] @ [0])"
  have frame: "net_send_frame tbuf p (0 # r) = (if p + 5 \<le> BUFSIZE then Inr (content ?b, ?b, p + 5, 0 # r) else Inl OutOfBounds)"
    using net_send_frame_text [of "[]" tbuf p r] Cons.prems by simp
  show ?case
  proof (cases "p + 5 \<le> BUFSIZE")
    case True
    have taken: "take (length f + 1) ?b = f @ [0]"
      using Cons.prems by (simp add: patch_def)
    then have "?b = f @ 0 # drop (length f + 1) ?b"
      by (metis append_Cons append_Nil append_assoc append_take_drop_id)
    then have sent: "content ?b = f"
      using content_append_zero [OF assms(6)] by metis
    have "length ?b = BUFSIZE"
      using True Cons.prems(2) by simp
    from Cons.IH [OF _ this _ _ taken, of "p + 5"] Cons.prems True show ?thesis
      by (auto simp: frame sent)
  next
    case False
    then show ?thesis
      by (simp add: frame)
  qed
qed

section \<open>Properties\<close>

lemma indices_serial: "indices_ok (0, 1)"
  by (simp add: indices_ok_def BUFSIZE_def)

lemma get_packet_frame:
  assumes "plain t" and "length t < BUFSIZE - 1" and "length buf = BUFSIZE" and "patch buf 0 (t @ [0]) ! 2 \<noteq> ch CHR '':''"
  shows "packet_loop True (0, 1) buf sent (frame t @ s) = Inr (sent @ [ch CHR ''+''], Some (0, patch buf 0 (t @ [0]), s))"
  using packet_loop_frame [OF assms(1-3), of "(0, 1)" True sent s] assms(4) by (simp add: BUFSIZE_def)

text \<open>C8: Round trip of a packet: the text of a reply is sent as one frame when it is
  acknowledged, and a frame is read back as the text, acknowledged, after any characters that
  do not start a packet. (A text with a colon as its third character is taken for one with a
  sequence number; for a text shorter than that, the third character is left from the packet
  before.)\<close>

theorem packet_round_trip:
  assumes "plain t" and "length t < BUFSIZE - 1" and "length buf = BUFSIZE" and "patch buf 0 (t @ [0]) ! 2 \<noteq> ch CHR '':''"
    and "ch CHR ''$'' \<notin> set g" and "3 \<notin> set g"
  shows "put_packet (t @ 0 # r) (ch CHR ''+'' # s) = Inr (frame t, Some s) \<and>
    (\<exists>b. get_packet buf (g @ frame t @ s') = Inr ([ch CHR ''+''], Some (0, b, s')) \<and> content b = t)"
proof
  have "0 \<notin> set t"
    using assms(1) by (simp add: plain_def)
  then show "put_packet (t @ 0 # r) (ch CHR ''+'' # s) = Inr (frame t, Some s)"
    using put_packet_text [of t "[]" r s] by simp
  show "\<exists>b. get_packet buf (g @ frame t @ s') = Inr ([ch CHR ''+''], Some (0, b, s')) \<and> content b = t"
    using get_packet_frame [OF assms(1-4), of "[]" s'] \<open>0 \<notin> set t\<close>
    by (auto simp: get_packet_def packet_loop_noise [OF assms(5,6)] content_patch)
qed

theorem packet_round_trip_witness:
  "put_packet (str ''m1000,4'' @ [0]) (str ''+'') = Inr (frame (str ''m1000,4''), Some []) \<and>
    (\<exists>b. get_packet (replicate BUFSIZE 0) (str ''+'' @ frame (str ''m1000,4'') @ []) = Inr ([ch CHR ''+''], Some (0, b, [])) \<and>
      content b = str ''m1000,4'')"
  using packet_round_trip [of "str ''m1000,4''" "replicate BUFSIZE 0" "str ''+''" "[]" "[]" "[]"]
  by (simp add: plain_def patch_def BUFSIZE_def)

text \<open>C33: A damaged packet is never delivered: if one character of the text is changed in
  transit, the frame is answered with a minus and forgotten; the sender, told so, sends the
  same frame again, and that one is delivered.\<close>

theorem damaged_packet_is_sent_again:
  assumes "plain t" and "length t < BUFSIZE - 1" and "length buf = BUFSIZE"
    and "i < length t" and "x \<noteq> t ! i" and "plain [x]"
    and "\<And>b. patch b 0 (t @ [0]) ! 2 \<noteq> ch CHR '':''"
  shows "put_packet (t @ 0 # r) (ch CHR ''-'' # ch CHR ''+'' # s) = Inr (frame t @ frame t, Some s) \<and>
    (\<exists>b. get_packet buf (ch CHR ''$'' # t[i := x] @ [ch CHR ''#'', hex_hi (sum_list t), hex_lo (sum_list t)] @ frame t @ s') =
      Inr ([ch CHR ''-'', ch CHR ''+''], Some (0, b, s')) \<and> content b = t)"
proof
  have nz: "0 \<notin> set t"
    using assms(1) by (simp add: plain_def)
  then show "put_packet (t @ 0 # r) (ch CHR ''-'' # ch CHR ''+'' # s) = Inr (frame t @ frame t, Some s)"
    using put_packet_text [of t "[ch CHR ''-'']" r s] by simp
  have plain: "plain (t[i := x])"
    using assms(1,6) set_update_subset_insert [of t i x] by (auto simp: plain_def)
  have "hex_byte (hex_hi (sum_list t)) (hex_lo (sum_list t)) \<noteq> sum_list (t[i := x])"
    using assms(4,5) by (simp add: hex.dec_enc sum_list_substitute)
  moreover define b1 where "b1 = patch buf 0 (t[i := x] @ [0])"
  moreover have len: "length b1 = BUFSIZE"
    using assms(2,3) by (simp add: b1_def)
  ultimately have "get_packet buf (ch CHR ''$'' # t[i := x] @ [ch CHR ''#'', hex_hi (sum_list t), hex_lo (sum_list t)] @ frame t @ s') =
      packet_loop True (0, 1) b1 [ch CHR ''-''] (frame t @ s')"
    using packet_loop_body [OF plain, of buf "(0, 1)" "hex_hi (sum_list t)" "hex_lo (sum_list t)" True "[]" "frame t @ s'"] assms(2,3)
    by (simp add: get_packet_def BUFSIZE_def)
  also have "\<dots> = Inr ([ch CHR ''-'', ch CHR ''+''], Some (0, patch b1 0 (t @ [0]), s'))"
    using get_packet_frame [OF assms(1,2) len assms(7), of "[ch CHR ''-'']" s'] by simp
  finally show "\<exists>b. get_packet buf (ch CHR ''$'' # t[i := x] @ [ch CHR ''#'', hex_hi (sum_list t), hex_lo (sum_list t)] @ frame t @ s') =
      Inr ([ch CHR ''-'', ch CHR ''+''], Some (0, b, s')) \<and> content b = t"
    using nz by (auto simp: content_patch)
qed

theorem damaged_packet_is_sent_again_witness:
  "put_packet (str ''m1000,4'' @ [0]) (str ''-+'') = Inr (frame (str ''m1000,4'') @ frame (str ''m1000,4''), Some []) \<and>
    (\<exists>b. get_packet (replicate BUFSIZE 0) (ch CHR ''$'' # (str ''m1000,4'')[1 := ch CHR ''2''] @
        [ch CHR ''#'', hex_hi (sum_list (str ''m1000,4'')), hex_lo (sum_list (str ''m1000,4''))] @ frame (str ''m1000,4'') @ []) =
      Inr ([ch CHR ''-'', ch CHR ''+''], Some (0, b, [])) \<and> content b = str ''m1000,4'')"
  using damaged_packet_is_sent_again [of "str ''m1000,4''" "replicate BUFSIZE 0" 1 "ch CHR ''2''" "[]" "[]" "[]"]
  by (simp add: plain_def patch_def BUFSIZE_def)

text \<open>Reading a packet never leaves the input buffer, whatever characters arrive: the reader
  waits, or returns a pointer to a terminated text in the buffer; it consumes characters when
  it returns, needs none of those that follow, and leaves the buffer fit for the next call.\<close>

lemma get_packet_stays_in_buffer:
  assumes "input_ok buf"
  shows "\<exists>x r. get_packet buf s = Inr (x, r) \<and>
    (\<forall>p b q. r = Some (p, b, q) \<longrightarrow> input_ok b \<and> 0 \<in> set (drop p b) \<and> length q < length s \<and>
       (\<forall>u. get_packet buf (s @ u) = Inr (x, Some (p, b, q @ u))))"
proof -
  obtain x r where run: "packet_loop True (0, 1) buf [] s = Inr (x, r)"
    and ok: "\<And>p b q. r = Some (p, b, q) \<Longrightarrow> input_ok b \<and> p \<le> 3 \<and> length q < length s"
    using packet_loop_safe [OF assms indices_serial, of True "[]" s] by (elim exE conjE) simp
  have "0 \<in> set (drop p b)" if "input_ok b" "p \<le> 3" for p b
  proof -
    have len: "length b = BUFSIZE" and last: "b ! (BUFSIZE - 1) = 0"
      using that(1) by (simp_all only: input_ok_def)
    have "BUFSIZE - 1 - p < length (drop p b)" "p + (BUFSIZE - 1 - p) = BUFSIZE - 1" "p \<le> length b"
      using that(2) len by (simp_all add: BUFSIZE_def)
    then show ?thesis
      using last nth_drop [of p b "BUFSIZE - 1 - p"] nth_mem by metis
  qed
  then have stays: "\<forall>p b q. r = Some (p, b, q) \<longrightarrow> input_ok b \<and> 0 \<in> set (drop p b) \<and> length q < length s \<and>
      (\<forall>u. packet_loop True (0, 1) buf [] (s @ u) = Inr (x, Some (p, b, q @ u)))"
    using ok run by (intro allI impI) (simp add: packet_loop_more)
  show ?thesis
    unfolding get_packet_def by (rule exI, rule exI, rule conjI [OF run stays])
qed

text \<open>C34: The network example sends a reply and, for each answer other than a plus, the same
  frame again, as long as its buffer lasts: every round uses five more bytes and the frame of
  a text of \<open>n\<close> characters uses \<open>n + 5\<close>; the round that needs more leaves the buffer. A reply
  of more than 2043 characters does so in the first round.\<close>

theorem net_put_packet_outcome:
  assumes "0 \<notin> set t" and "length tbuf = BUFSIZE" and "ch CHR ''+'' \<notin> set n"
  shows "net_put_packet tbuf 0 (t @ 0 # r) (n @ ch CHR ''+'' # s) =
    (if length t + 5 + 5 * length n \<le> BUFSIZE then Inr (concat (replicate (length n + 1) (frame t)), Some s) else Inl OutOfBounds)"
proof (cases "length t + 5 \<le> BUFSIZE")
  case False
  then have "net_send_frame tbuf 0 (t @ 0 # r) = Inl OutOfBounds"
    using net_send_frame_text [OF assms(1,2), of 0 r] by simp
  with False show ?thesis
    by (cases n) simp_all
next
  case True
  let ?b = "patch tbuf 0 (frame t @ [0])"
  have first: "net_send_frame tbuf 0 (t @ 0 # r) = Inr (frame t, ?b, length t + 5, 0 # r)"
    using net_send_frame_text [OF assms(1,2), of 0 r] True content_patch [OF frame_nonzero [OF assms(1)]] by simp
  show ?thesis
  proof (cases n)
    case Nil
    with first True show ?thesis
      by simp
  next
    case (Cons c m)
    have "length ?b = BUFSIZE" "take (length (frame t) + 1) ?b = frame t @ [0]"
      using True assms(2) by (simp_all add: patch_def)
    from net_resend [OF _ this(1) _ _ this(2) frame_nonzero [OF assms(1)], of m "length t + 5" r s] first True Cons assms(3)
    show ?thesis
      by auto
  qed
qed

theorem net_put_packet_outcome_witness:
  "net_put_packet (replicate BUFSIZE 0) 0 (str ''OK'' @ [0]) (str ''-+'') = Inr (frame (str ''OK'') @ frame (str ''OK''), Some [])"
  using net_put_packet_outcome [of "str ''OK''" "replicate BUFSIZE 0" "str ''-''" "[]" "[]"] by (simp add: BUFSIZE_def)

text \<open>The integrated example does not send the packet again when it is told to, but an empty one.\<close>

lemma integrated_resend_is_empty:
  assumes "0 \<notin> set t" and "c \<noteq> ch CHR ''+''"
  shows "integrated_put_packet (t @ 0 # r) (c # ch CHR ''+'' # s) = Inr (frame t @ frame [], Some s)"
  using assms send_frame_text [of "[]" r] by (simp add: send_frame_text)

end
