(* ===== verification/Gdb_EventLoop.thy ===== *)
theory Gdb_EventLoop
  imports Gdb_System Gdb_Transport
begin

text \<open>
  The debugger component of the serial and the network example as a machine
  (\<open>examples/microkit_sddf_serial/apps/debugger/debugger.c\<close> and the variant under
  \<open>microkit_sddf_net\<close>): two coroutines, the event loop and the fault message, that give up the
  processor in \<open>gdb_get_char\<close> whenever no character is there, and the event handlers \<open>init\<close>,
  \<open>notified\<close> and \<open>fault\<close> that switch to them.

  The stack of a suspended coroutine is modelled by the point at which it waits and the local
  variables that are live there.
\<close>

section \<open>A packet, character by character\<close>

text \<open>
  Where \<open>get_packet\<close> waits: for the start of a packet, for a character of the body (with
  \<open>count\<close> and \<open>cksum\<close>), for the first digit of the checksum (with \<open>cksum\<close>), and for the second
  (with \<open>xcksum\<close> as well).
\<close>

datatype reading = Start | Body nat u8 | High u8 | Low u8 u8

datatype progress = At reading "u8 list" | Packet nat "u8 list"

text \<open>From one call of \<open>gdb_get_char\<close> to the next, or to the end.\<close>

fun packet_char :: "nat \<times> nat \<Rightarrow> reading \<Rightarrow> u8 \<Rightarrow> u8 list \<Rightarrow> (u8 list \<times> progress) res" where
  "packet_char e Start c buf =
     (if c = ch CHR ''$'' then Inr ([], At (Body 0 0) buf)
      else if c = 3 then bindR (put buf 0 c) (\<lambda>buf. bindR (put buf 1 0) (\<lambda>buf. Inr ([], Packet 0 buf)))
      else Inr ([], At Start buf))"
| "packet_char e (Body count cksum) c buf =
     (if c = ch CHR ''$'' then Inr ([], At (Body 0 0) buf)
      else if c = ch CHR ''#'' then bindR (put buf count 0) (\<lambda>buf. Inr ([], At (High cksum) buf))
      else bindR (put buf count c) (\<lambda>buf.
           if count + 1 < BUFSIZE - 1 then Inr ([], At (Body (count + 1) (cksum + c)) buf)
           else bindR (put buf (count + 1) 0) (\<lambda>buf. Inr ([], At Start buf))))"
| "packet_char e (High cksum) c buf = Inr ([], At (Low cksum (word_of_int (hexchar_to_int c * 16))) buf)"
| "packet_char e (Low cksum xcksum) c buf =
     (if cksum \<noteq> xcksum + word_of_int (hexchar_to_int c) then Inr ([ch CHR ''-''], At Start buf)
      else bindR (array_get buf 2) (\<lambda>m.
           if m = ch CHR '':''
           then bindR (array_get buf (fst e)) (\<lambda>x. bindR (array_get buf (snd e)) (\<lambda>y.
                Inr ([ch CHR ''+'', x, y], Packet 3 buf)))
           else Inr ([ch CHR ''+''], Packet 0 buf)))"

text \<open>The coroutine fed with characters until it waits or returns a packet.\<close>

fun receive :: "nat \<times> nat \<Rightarrow> reading \<Rightarrow> u8 list \<Rightarrow> u8 list \<Rightarrow> (u8 list \<times> progress \<times> u8 list) res" where
  "receive e pt buf [] = Inr ([], At pt buf, [])"
| "receive e pt buf (c # s) =
     bindR (packet_char e pt c buf) (\<lambda>(x, r). case r of
       At pt buf \<Rightarrow> bindR (receive e pt buf s) (\<lambda>(y, r, s). Inr (x @ y, r, s))
     | Packet p buf \<Rightarrow> Inr (x, Packet p buf, s))"

section \<open>The state of the debugger\<close>

datatype event_state = eventState_none | eventState_waitingForInputEventLoop | eventState_waitingForInputFault

text \<open>
  The event loop waits in \<open>get_packet\<close>, or in \<open>put_packet\<close> for an acknowledgement; then the
  variable \<open>resume\<close> is live, and in the network example the two pointers that \<open>put_packet\<close> moves.
\<close>

datatype main_point = Reading reading | Acking bool nat nat

record 'k debugger =
  d_lib :: "'k gdb"
  d_input :: "u8 list"
  d_output :: "u8 list"
  d_tcp_output_buf :: "u8 list"
  d_detached :: bool
  d_state :: event_state
  d_main :: main_point
  d_fault :: "(nat \<times> nat) option"
  d_rx :: "u8 list"
  d_tx :: "u8 list"

text \<open>
  What the two examples do differently: the characters echoed for a sequence number, and how
  a frame is sent. The function gets \<open>tcp_output_buf\<close> and the two offsets, into it and into
  the output buffer, and returns what is sent, the buffer, and the offsets it leaves.
\<close>

type_synonym sender = "u8 list \<Rightarrow> nat \<Rightarrow> nat \<Rightarrow> u8 list \<Rightarrow> (u8 list \<times> u8 list \<times> nat \<times> nat) res"

record variant =
  echoed :: "nat \<times> nat"
  sender :: sender

definition serial_variant :: variant where
  "serial_variant = \<lparr>echoed = (0, 1),
     sender = (\<lambda>tbuf p q text. bindR (send_frame text) (\<lambda>(f, _). Inr (f, tbuf, p, q)))\<rparr>"

definition net_variant :: variant where
  "net_variant = \<lparr>echoed = (1, 2),
     sender = (\<lambda>tbuf p q text. bindR (net_send_frame tbuf p (drop q text)) (\<lambda>(f, tbuf, p, rest).
       Inr (f, tbuf, p, length text - length rest)))\<rparr>"

section \<open>The event loop\<close>

definition send_output :: "variant \<Rightarrow> nat \<Rightarrow> nat \<Rightarrow> 'k debugger \<Rightarrow> (nat \<times> nat \<times> 'k debugger) res" where
  "send_output V p q d =
    bindR (sender V (d_tcp_output_buf d) p q (d_output d)) (\<lambda>(f, tbuf, p, q).
    Inr (p, q, d\<lparr>d_tx := d_tx d @ f, d_tcp_output_buf := tbuf\<rparr>))"

text \<open>The end of the loop body, and the call of \<open>get_packet\<close> in the next round.\<close>

definition next_packet :: "('k, 'r) kernel \<Rightarrow> bool \<Rightarrow> 'k debugger \<Rightarrow> 'k debugger" where
  "next_packet K resume d =
    (if resume then d\<lparr>d_lib := resume_system K (d_lib d)\<rparr> else d)\<lparr>d_main := Reading Start\<rparr>"

text \<open>The loop body after \<open>get_packet\<close> has returned, up to the next wait.\<close>

definition interrupted :: "('k, 'r) kernel \<Rightarrow> u8 \<Rightarrow> 'k debugger \<Rightarrow> 'k debugger" where
  "interrupted K c d =
    (if d_detached d \<or> c = 3 then d\<lparr>d_lib := suspend_system K (d_lib d), d_detached := False\<rparr> else d)"

definition serve_packet ::
  "variant \<Rightarrow> ('k, 'r) kernel \<Rightarrow> 'r user_context_scheme \<Rightarrow> (cptr \<Rightarrow> u32 \<times> u32) \<Rightarrow> nat \<Rightarrow> 'k debugger \<Rightarrow> 'k debugger res"
where
  "serve_packet V K uc ids p d =
    bindR (array_get (d_input d) p) (\<lambda>c.
    let d = interrupted K c d
    in bindR (gdb_handle_packet K uc ids (drop p (d_input d)) (d_output d) (d_detached d) (d_lib d)) (\<lambda>r.
       let d = d\<lparr>d_lib := st r, d_output := out r, d_detached := detached r\<rparr>
       in if \<not> resumed r \<or> detached r
          then bindR (send_output V 0 0 d) (\<lambda>(p, q, d). Inr (d\<lparr>d_main := Acking (resumed r) p q\<rparr>))
          else Inr (next_packet K (resumed r) d)))"

text \<open>The event loop is given a character, and runs until it needs another.\<close>

definition main_char ::
  "variant \<Rightarrow> ('k, 'r) kernel \<Rightarrow> 'r user_context_scheme \<Rightarrow> (cptr \<Rightarrow> u32 \<times> u32) \<Rightarrow> u8 \<Rightarrow> 'k debugger \<Rightarrow> 'k debugger res"
where
  "main_char V K uc ids c d = (case d_main d of
      Reading pt \<Rightarrow>
        bindR (packet_char (echoed V) pt c (d_input d)) (\<lambda>(x, r).
        let d = d\<lparr>d_tx := d_tx d @ x\<rparr>
        in case r of
             At pt buf \<Rightarrow> Inr (d\<lparr>d_input := buf, d_main := Reading pt\<rparr>)
           | Packet p buf \<Rightarrow> serve_packet V K uc ids p (d\<lparr>d_input := buf\<rparr>))
    | Acking resume p q \<Rightarrow>
        if c = ch CHR ''+'' then Inr (next_packet K resume d)
        else bindR (send_output V p q d) (\<lambda>(p, q, d). Inr (d\<lparr>d_main := Acking resume p q\<rparr>)))"

text \<open>The event loop runs until the receive queue is empty.\<close>

fun run_main ::
  "variant \<Rightarrow> ('k, 'r) kernel \<Rightarrow> 'r user_context_scheme \<Rightarrow> (cptr \<Rightarrow> u32 \<times> u32) \<Rightarrow> u8 list \<Rightarrow> 'k debugger \<Rightarrow> 'k debugger res"
where
  "run_main V K uc ids [] d = Inr (d\<lparr>d_rx := [], d_state := eventState_waitingForInputEventLoop\<rparr>)"
| "run_main V K uc ids (c # s) d = bindR (main_char V K uc ids c d) (run_main V K uc ids s)"

section \<open>The fault message\<close>

fun run_fault :: "variant \<Rightarrow> u8 list \<Rightarrow> nat \<Rightarrow> nat \<Rightarrow> 'k debugger \<Rightarrow> 'k debugger res" where
  "run_fault V [] p q d = Inr (d\<lparr>d_rx := [], d_state := eventState_waitingForInputFault, d_fault := Some (p, q)\<rparr>)"
| "run_fault V (c # s) p q d =
     (if c = ch CHR ''+''
      then Inr (d\<lparr>d_rx := s, d_state := eventState_waitingForInputEventLoop, d_fault := None\<rparr>)
      else bindR (send_output V p q d) (\<lambda>(p, q, d). run_fault V s p q d))"

definition fault_message :: "variant \<Rightarrow> 'k debugger \<Rightarrow> 'k debugger res" where
  "fault_message V d = bindR (send_output V 0 0 d) (\<lambda>(p, q, d). run_fault V (d_rx d) p q d)"

section \<open>Events\<close>

text \<open>
  The result of \<open>fault\<close> is \<open>have_reply\<close>; it is \<open>None\<close> when \<open>gdb_handle_fault\<close> fails and leaves
  the variable uninitialised.
\<close>

definition fault_event :: "variant \<Rightarrow> ('k, 'r) kernel \<Rightarrow> u64 \<Rightarrow> u64 \<Rightarrow> 'k debugger \<Rightarrow> (bool option \<times> 'k debugger) res" where
  "fault_event V K child label d =
    (let s = suspend_system K (d_lib d)
     in bindR (gdb_handle_fault K child 0 label (d_output d) s) (\<lambda>(err, have_reply, b, s).
        bindR (fault_message V (d\<lparr>d_lib := s, d_output := b\<rparr>)) (\<lambda>d. Inr (have_reply, d))))"

text \<open>Switching to a coroutine that has never been created dereferences a null pointer.\<close>

definition notified ::
  "variant \<Rightarrow> ('k, 'r) kernel \<Rightarrow> 'r user_context_scheme \<Rightarrow> (cptr \<Rightarrow> u32 \<times> u32) \<Rightarrow> 'k debugger \<Rightarrow> 'k debugger res"
where
  "notified V K uc ids d =
    bindR (if d_state d = eventState_waitingForInputFault
           then case d_fault d of
                  None \<Rightarrow> Inl NullDeref
                | Some (p, q) \<Rightarrow> run_fault V (d_rx d) p q (d\<lparr>d_state := eventState_none\<rparr>)
           else Inr d) (\<lambda>d.
    if d_state d = eventState_waitingForInputEventLoop
    then run_main V K uc ids (d_rx d) (d\<lparr>d_state := eventState_none\<rparr>)
    else Inr d)"

text \<open>Characters arrive in the receive queue.\<close>

definition arrive :: "u8 list \<Rightarrow> 'k debugger \<Rightarrow> 'k debugger" where
  "arrive s d = d\<lparr>d_rx := d_rx d @ s\<rparr>"

section \<open>Initialisation\<close>

definition NUM_DEBUGEES :: nat where
  "NUM_DEBUGEES = 2"

text \<open>The static variables before \<open>init\<close>.\<close>

definition start_debugger :: "'k \<Rightarrow> 'k debugger" where
  "start_debugger k = \<lparr>d_lib = init_gdb k, d_input = replicate BUFSIZE 0, d_output = replicate BUFSIZE 0,
     d_tcp_output_buf = replicate BUFSIZE 0, d_detached = False, d_state = eventState_none,
     d_main = Reading Start, d_fault = None, d_rx = [], d_tx = []\<rparr>"

text \<open>\<open>base_vspace\<close> and \<open>base_tcb\<close> are the constants \<open>BASE_VSPACE_CAP\<close> and \<open>BASE_TCB_CAP\<close> of libmicrokit.\<close>

definition register_debugee :: "('k, 'r) kernel \<Rightarrow> u64 \<Rightarrow> u64 \<Rightarrow> nat \<Rightarrow> 'k debugger \<Rightarrow> 'k debugger res" where
  "register_debugee K base_vspace base_tcb i d =
    bindR (gdb_register_inferior (of_nat i) (base_vspace + of_nat i) (d_lib d)) (\<lambda>(_, s).
    bindR (gdb_register_thread K (of_nat i) 0 (base_tcb + of_nat i) (d_output d) s) (\<lambda>(_, b, s).
    Inr (d\<lparr>d_lib := s, d_output := b\<rparr>)))"

definition init_debugger ::
  "variant \<Rightarrow> ('k, 'r) kernel \<Rightarrow> 'r user_context_scheme \<Rightarrow> (cptr \<Rightarrow> u32 \<times> u32) \<Rightarrow> u64 \<Rightarrow> u64 \<Rightarrow> 'k \<Rightarrow> 'k debugger res"
where
  "init_debugger V K uc ids base_vspace base_tcb k =
    bindR (iterR (register_debugee K base_vspace base_tcb) [0..<NUM_DEBUGEES] (start_debugger k)) (\<lambda>d.
    run_main V K uc ids (d_rx d) (d\<lparr>d_lib := suspend_system K (d_lib d)\<rparr>))"

section \<open>Waiting inside a packet\<close>

text \<open>What \<open>get_packet\<close> makes of the coroutine: it still waits, or has a packet and leaves the rest.\<close>

fun whole :: "u8 list \<times> progress \<times> u8 list \<Rightarrow> u8 list \<times> (nat \<times> u8 list \<times> u8 list) option" where
  "whole (x, At pt b, s) = (x, None)"
| "whole (x, Packet p b, s) = (x, Some (p, b, s))"

definition finished :: "(u8 list \<times> progress \<times> u8 list) res \<Rightarrow> (u8 list \<times> (nat \<times> u8 list \<times> u8 list) option) res" where
  "finished m = bindR m (\<lambda>r. Inr (whole r))"

lemma finished_Inr [simp]: "finished (Inr r) = Inr (whole r)"
  by (simp add: finished_def)

lemma whole_append: "whole (x @ y, r, s) = (x @ fst (whole (y, r, s)), snd (whole (y, r, s)))"
  by (cases r) simp_all

lemma finished_append: "finished (bindR m (\<lambda>(y, r, s). Inr (x @ y, r, s))) = bindR (finished m) (\<lambda>(y, r). Inr (x @ y, r))"
  by (cases m) (auto simp: finished_def whole_append split_def)

lemma finished_Cons:
  "finished (receive e pt buf (c # s)) = bindR (packet_char e pt c buf) (\<lambda>(x, r). case r of
      At pt buf \<Rightarrow> bindR (finished (receive e pt buf s)) (\<lambda>(y, r). Inr (x @ y, r))
    | Packet p buf \<Rightarrow> Inr (x, Some (p, buf, s)))"
  by (cases "packet_char e pt c buf") (auto simp: finished_append finished_def [of "Inl _"] split: progress.split)

lemma bindR_return [simp]: "bindR m Inr = m" "bindR m (\<lambda>(x, r). Inr (x, r)) = m"
  by (cases m, auto)+

lemmas receive_cons [simp del] = receive.simps(2)
declare finished_Cons [simp]

lemma receive_body:
  "n < BUFSIZE - 1 \<Longrightarrow> finished (receive e (Body n k) buf s) =
     bindR (read_body buf n k s) (\<lambda>r. case r of
       None \<Rightarrow> Inr ([], None)
     | Some (b, m, k, h, s) \<Rightarrow> bindR (put b m 0) (\<lambda>b. finished (receive e (if h then High k else Start) b s)))"
proof (induction s arbitrary: n k buf)
  case (Cons c s)
  have zero: "0 < BUFSIZE - 1"
    by (simp add: BUFSIZE_def)
  show ?case
  proof (cases "c = ch CHR ''$'' \<or> c = ch CHR ''#''")
    case True
    with Cons.IH [OF zero] Cons.prems show ?thesis
      by (auto simp: bindR_assoc)
  next
    case plain: False
    show ?thesis
    proof (cases "n + 1 < BUFSIZE - 1")
      case True
      with Cons.IH [OF True] Cons.prems plain show ?thesis
        by (simp add: bindR_assoc)
    next
      case False
      have "read_body b (n + 1) (k + c) s = Inr (Some (b, n + 1, k + c, False, s))" for b
        using False by (cases s) simp_all
      with False Cons.prems plain show ?thesis
        by (simp add: bindR_assoc)
    qed
  qed
qed simp

lemma receive_checksum:
  "finished (receive e (High k) buf s) = (case s of
      a # b # s \<Rightarrow> bindR (packet_char e (Low k (word_of_int (hexchar_to_int a * 16))) b buf) (\<lambda>(x, r). case r of
          At pt b \<Rightarrow> bindR (finished (receive e pt b s)) (\<lambda>(y, r). Inr (x @ y, r))
        | Packet p b \<Rightarrow> Inr (x, Some (p, b, s)))
    | _ \<Rightarrow> Inr ([], None))"
proof (cases s)
  case (Cons a s1)
  then show ?thesis
    by (cases s1) (simp_all del: packet_char.simps(4))
qed simp

text \<open>Where the first round ends, in terms of the coroutine.\<close>

lemma receive_round:
  "finished (receive e Start buf (ch CHR ''$'' # s)) = bindR (packet_round e buf s) (\<lambda>(x, r). case r of
      Waits \<Rightarrow> Inr (x, None)
    | Again b s \<Rightarrow> bindR (finished (receive e Start b s)) (\<lambda>(y, r). Inr (x @ y, r))
    | Got p b s \<Rightarrow> Inr (x, Some (p, b, s)))"
proof -
  have zero: "0 < BUFSIZE - 1"
    by (simp add: BUFSIZE_def)
  have "finished (receive e Start buf (ch CHR ''$'' # s)) = finished (receive e (Body 0 0) buf s)"
    by simp
  also note receive_body [OF zero]
  finally show ?thesis
    by (auto simp: packet_round_def bindR_assoc Let_def split_def receive_checksum hex_byte_def
        intro!: bindR_cong split: option.splits list.splits)
qed

lemma receive_packet_loop:
  "packet_loop True e buf sent s = bindR (finished (receive e Start buf s)) (\<lambda>(x, r). Inr (sent @ x, r))"
proof (induction "length s" arbitrary: buf sent s rule: less_induct)
  case less
  show ?case
  proof (cases s)
    case (Cons c s1)
    show ?thesis
    proof (cases "c = ch CHR ''$''")
      case True
      have "packet_loop True e b (sent @ x) s2 = bindR (finished (receive e Start b s2)) (\<lambda>(y, r). Inr (sent @ x @ y, r))"
        if "packet_round e buf s1 = Inr (x, Again b s2)" for x b s2
        using less.hyps [of s2] packet_round_length [OF that] Cons by simp
      then show ?thesis
        unfolding Cons True receive_round packet_loop.simps
        by (auto simp: bindR_assoc split_def intro!: bindR_cong split: round.splits)
    next
      case False
      then show ?thesis
        using less.hyps [of s1] by (cases "c = 3") (simp_all add: Cons bindR_assoc)
    qed
  qed simp
qed

section \<open>Waiting between characters\<close>

text \<open>The coroutines look at the receive queue and at the event state only when they wait.\<close>

lemma send_output_waiting:
  "send_output V p q (d\<lparr>d_rx := x, d_state := y\<rparr>) =
     bindR (send_output V p q d) (\<lambda>(p, q, d). Inr (p, q, d\<lparr>d_rx := x, d_state := y\<rparr>))"
  by (auto simp: send_output_def bindR_assoc split_def intro!: bindR_cong)

lemma send_output_fault:
  "send_output V p q (d\<lparr>d_fault := z\<rparr>) = bindR (send_output V p q d) (\<lambda>(p, q, d). Inr (p, q, d\<lparr>d_fault := z\<rparr>))"
  by (auto simp: send_output_def bindR_assoc split_def intro!: bindR_cong)

lemma next_packet_waiting: "next_packet K r (d\<lparr>d_rx := x, d_state := y\<rparr>) = (next_packet K r d)\<lparr>d_rx := x, d_state := y\<rparr>"
  by (simp add: next_packet_def)

lemma serve_packet_waiting:
  "serve_packet V K uc ids p (d\<lparr>d_rx := x, d_state := y\<rparr>) =
     bindR (serve_packet V K uc ids p d) (\<lambda>d. Inr (d\<lparr>d_rx := x, d_state := y\<rparr>))"
proof -
  have swap: "(interrupted K c (d\<lparr>d_rx := x, d_state := y\<rparr>)) = (interrupted K c d)\<lparr>d_rx := x, d_state := y\<rparr>" for c
    by (simp add: interrupted_def)
  have lift: "d\<lparr>d_rx := x, d_state := y, d_lib := l, d_output := b, d_detached := g\<rparr> =
      (d\<lparr>d_lib := l, d_output := b, d_detached := g\<rparr>)\<lparr>d_rx := x, d_state := y\<rparr>" for d :: "'a debugger" and l b g
    by simp
  show ?thesis
    unfolding serve_packet_def swap Let_def lift send_output_waiting next_packet_waiting
    by (auto simp: bindR_assoc split_def intro!: bindR_cong)
qed

lemma main_char_waiting:
  "main_char V K uc ids c (d\<lparr>d_rx := x, d_state := y\<rparr>) =
     bindR (main_char V K uc ids c d) (\<lambda>d. Inr (d\<lparr>d_rx := x, d_state := y\<rparr>))"
proof (cases "d_main d")
  case (Reading pt)
  have lift: "d\<lparr>d_rx := x, d_state := y, d_tx := t, d_input := b\<rparr> = (d\<lparr>d_tx := t, d_input := b\<rparr>)\<lparr>d_rx := x, d_state := y\<rparr>"
    for d :: "'a debugger" and t b
    by simp
  show ?thesis
    by (auto simp: main_char_def Reading Let_def bindR_assoc split_def lift serve_packet_waiting
        intro!: bindR_cong split: progress.split)
next
  case (Acking r p q)
  then show ?thesis
    by (auto simp: main_char_def bindR_assoc split_def send_output_waiting next_packet_waiting intro!: bindR_cong)
qed

lemma run_main_waiting [simp]: "run_main V K uc ids s (d\<lparr>d_rx := x, d_state := y\<rparr>) = run_main V K uc ids s d"
  by (induction s arbitrary: d) (simp_all add: main_char_waiting bindR_assoc)

lemma run_fault_waiting [simp]: "run_fault V s p q (d\<lparr>d_rx := x, d_state := y\<rparr>) = run_fault V s p q d"
  by (induction s arbitrary: d p q) (simp_all add: send_output_waiting bindR_assoc split_def)

lemma run_fault_fault: "run_fault V s p q (d\<lparr>d_fault := z\<rparr>) = run_fault V s p q d"
  by (induction s arbitrary: d p q) (simp_all add: send_output_fault bindR_assoc split_def)

lemma run_main_append: "run_main V K uc ids (s @ t) d = bindR (run_main V K uc ids s d) (run_main V K uc ids t)"
  by (induction s arbitrary: d) (auto simp: bindR_assoc intro!: bindR_cong)

text \<open>More characters: the fault message goes on with them if it still waits; otherwise they are
  left in the queue.\<close>

lemma run_fault_append:
  "run_fault V (s @ t) p q d = bindR (run_fault V s p q d) (\<lambda>d. case d_fault d of
      None \<Rightarrow> Inr (d\<lparr>d_rx := d_rx d @ t\<rparr>)
    | Some (p, q) \<Rightarrow> run_fault V t p q d)"
proof (induction s arbitrary: d p q)
  case Nil
  have "run_fault V t p q (d\<lparr>d_rx := [], d_state := eventState_waitingForInputFault, d_fault := Some (p, q)\<rparr>) = run_fault V t p q d"
    using run_fault_fault [of V t p q "Some (p, q)" "d\<lparr>d_rx := [], d_state := eventState_waitingForInputFault\<rparr>"] by simp
  then show ?case
    by simp
qed (auto simp: bindR_assoc split_def intro!: bindR_cong)

section \<open>Serving a packet\<close>

lemma receive_Packet:
  assumes "packet_loop True e buf [] s = Inr (x, Some (p, b, t))"
  shows "receive e Start buf s = Inr (x, Packet p b, t)"
proof -
  have "finished (receive e Start buf s) = Inr (x, Some (p, b, t))"
    using assms by (simp add: receive_packet_loop)
  then obtain y r u where "receive e Start buf s = Inr (y, r, u)" "whole (y, r, u) = (x, Some (p, b, t))"
    by (auto simp: finished_def bindR_eq_Inr_iff)
  then show ?thesis
    by (cases r) simp_all
qed

text \<open>The point at which the event loop waited is gone when it has served a packet.\<close>

lemma serve_packet_main: "serve_packet V K uc ids p (d\<lparr>d_main := m\<rparr>) = serve_packet V K uc ids p d"
proof -
  have swap: "(interrupted K c (d\<lparr>d_main := m\<rparr>)) = (interrupted K c d)\<lparr>d_main := m\<rparr>" for c
    by (simp add: interrupted_def)
  have lift: "d\<lparr>d_main := m, d_lib := l, d_output := b, d_detached := g\<rparr> =
      (d\<lparr>d_lib := l, d_output := b, d_detached := g\<rparr>)\<lparr>d_main := m\<rparr>" for d :: "'a debugger" and l b g
    by simp
  have send: "send_output V p q (d\<lparr>d_main := m\<rparr>) = bindR (send_output V p q d) (\<lambda>(p, q, d). Inr (p, q, d\<lparr>d_main := m\<rparr>))"
    for p q and d :: "'a debugger"
    by (auto simp: send_output_def bindR_assoc split_def intro!: bindR_cong)
  have "next_packet K r (d\<lparr>d_main := m\<rparr>) = next_packet K r d" for r and d :: "'a debugger"
    by (simp add: next_packet_def)
  then show ?thesis
    unfolding serve_packet_def swap Let_def lift send
    by (auto simp: bindR_assoc split_def intro!: bindR_cong)
qed

text \<open>The event loop while it reads: it runs \<open>get_packet\<close>, and serves what that returns.\<close>

lemma run_main_reading:
  assumes "d_main d = Reading pt"
  shows "run_main V K uc ids s d = bindR (receive (echoed V) pt (d_input d) s) (\<lambda>(x, r, s). case r of
      At pt b \<Rightarrow> run_main V K uc ids [] (d\<lparr>d_tx := d_tx d @ x, d_input := b, d_main := Reading pt\<rparr>)
    | Packet p b \<Rightarrow> bindR (serve_packet V K uc ids p (d\<lparr>d_tx := d_tx d @ x, d_input := b\<rparr>)) (run_main V K uc ids s))"
  using assms
proof (induction s arbitrary: d pt)
  case (Cons c s)
  show ?case
  proof (cases "packet_char (echoed V) pt c (d_input d)")
    case (Inr r)
    show ?thesis
    proof (cases "snd r")
      case (At pt1 b)
      let ?d = "d\<lparr>d_tx := d_tx d @ fst r, d_input := b, d_main := Reading pt1\<rparr>"
      have r: "r = (fst r, At pt1 b)"
        by (simp add: At [symmetric])
      have "d\<lparr>d_main := Reading pt1, d_tx := t, d_input := b1\<rparr> = d\<lparr>d_tx := t, d_input := b1, d_main := Reading pt1\<rparr>" for t b1
        by simp
      then have "serve_packet V K uc ids p (d\<lparr>d_main := Reading pt1, d_tx := t, d_input := b1\<rparr>) =
          serve_packet V K uc ids p (d\<lparr>d_tx := t, d_input := b1\<rparr>)" for p t b1
        by (simp only: serve_packet_main)
      moreover have "main_char V K uc ids c d = Inr ?d"
        using Cons.prems Inr r by (simp add: main_char_def split_def At)
      ultimately show ?thesis
        using Cons.IH [of ?d pt1] r
        by (auto simp: receive_cons Inr At split_def bindR_assoc intro!: bindR_cong split: progress.split)
    next
      case (Packet p b)
      then show ?thesis
        using Cons.prems by (simp add: receive_cons main_char_def Inr split_def)
    qed
  qed (use Cons.prems in \<open>simp add: receive_cons main_char_def\<close>)
qed (auto intro!: arg_cong [of _ _ Inr])

text \<open>What the handler of a packet is called with.\<close>

lemma resumed_detached:
  assumes "gdb_handle_packet K uc ids p b d s = Inr r" and "\<not> resumed r"
  shows "detached r = d"
  using assms by (auto simp: gdb_handle_packet_def Let_def finish_def res_branches ifR_def)

text \<open>Whether a request gets a reply, and what the library does after it.\<close>

definition replies :: "'k packet_result \<Rightarrow> bool" where
  "replies r \<longleftrightarrow> \<not> resumed r \<or> detached r"

definition afterwards :: "('k, 'r) kernel \<Rightarrow> 'k packet_result \<Rightarrow> 'k gdb" where
  "afterwards K r = (if resumed r then resume_system K (st r) else st r)"

lemma serve_packet_reply:
  fixes d :: "'k debugger"
  assumes "p < length (d_input d)"
    and "gdb_handle_packet K uc ids (drop p (d_input d)) (d_output d) (d_detached e) (d_lib e) = Inr r"
    and "e = interrupted K (d_input d ! p) d"
    and "replies r \<Longrightarrow> sender V (d_tcp_output_buf d) 0 0 (out r) = Inr (f, tb, x, y)"
  obtains d' :: "'k debugger" where "bindR (serve_packet V K uc ids p d) (run_main V K uc ids (if replies r then [ch CHR ''+''] else [])) = Inr d'"
    and "d_tx d' = d_tx d @ (if replies r then f else [])" and "d_lib d' = afterwards K r"
    and "d_state d' = eventState_waitingForInputEventLoop" and "d_main d' = Reading Start" and "d_rx d' = []"
    and "d_detached d' = detached r" and "d_input d' = d_input d" and "d_fault d' = d_fault d" and "d_output d' = out r"
proof -
  have same: "d_input e = d_input d" "d_output e = d_output d" "d_tcp_output_buf e = d_tcp_output_buf d"
    "d_tx e = d_tx d" "d_fault e = d_fault d"
    by (simp_all add: assms(3) interrupted_def)
  have get: "array_get (d_input d) p = Inr (d_input d ! p)"
    using assms(1) by (simp add: array_get_def)
  let ?d = "e\<lparr>d_lib := st r, d_output := out r, d_detached := detached r\<rparr>"
  have serve: "serve_packet V K uc ids p d = (if replies r
      then bindR (send_output V 0 0 ?d) (\<lambda>(p, q, d). Inr (d\<lparr>d_main := Acking (resumed r) p q\<rparr>))
      else Inr (next_packet K (resumed r) ?d))"
    using assms(2) same by (simp add: serve_packet_def get Let_def replies_def flip: assms(3))
  show thesis
  proof (cases "replies r")
    case True
    then have "send_output V 0 0 ?d = Inr (x, y, ?d\<lparr>d_tx := d_tx d @ f, d_tcp_output_buf := tb\<rparr>)"
      using assms(4) same by (simp add: send_output_def)
    with True serve have run: "bindR (serve_packet V K uc ids p d) (run_main V K uc ids (if replies r then [ch CHR ''+''] else [])) =
        Inr ((next_packet K (resumed r) (?d\<lparr>d_tx := d_tx d @ f, d_tcp_output_buf := tb, d_main := Acking (resumed r) x y\<rparr>))
          \<lparr>d_rx := [], d_state := eventState_waitingForInputEventLoop\<rparr>)"
      by (simp add: main_char_def)
    show thesis
      by (rule that [OF run]) (simp_all add: next_packet_def afterwards_def same True)
  next
    case False
    with serve have run: "bindR (serve_packet V K uc ids p d) (run_main V K uc ids (if replies r then [ch CHR ''+''] else [])) =
        Inr ((next_packet K (resumed r) ?d)\<lparr>d_rx := [], d_state := eventState_waitingForInputEventLoop\<rparr>)"
      by simp
    show thesis
      by (rule that [OF run]) (simp_all add: next_packet_def afterwards_def same False)
  qed
qed

text \<open>The frame of a reply, in either example.\<close>

definition sends :: "variant \<Rightarrow> u8 list \<Rightarrow> u8 list \<Rightarrow> bool" where
  "sends V tbuf a \<longleftrightarrow> V = serial_variant \<or> V = net_variant \<and> length tbuf = BUFSIZE \<and> length a + 5 \<le> BUFSIZE"

lemma sends_frame:
  assumes "sends V tbuf a" and "0 \<notin> set a"
  obtains tb x y where "sender V tbuf 0 0 (a @ 0 # z) = Inr (frame a, tb, x, y)"
proof (cases "V = serial_variant")
  case True
  then show thesis
    using that send_frame_text [OF assms(2), of z] by (simp add: serial_variant_def)
next
  case False
  then have net: "V = net_variant" "length tbuf = BUFSIZE" "length a + 5 \<le> BUFSIZE"
    using assms(1) by (simp_all add: sends_def)
  then show thesis
    using that net_send_frame_text [OF assms(2) net(2), of 0 z] content_patch [OF frame_nonzero [OF assms(2)]]
    by (simp add: net_variant_def)
qed

lemma echoed_ok: "sends V tbuf a \<Longrightarrow> fst (echoed V) < BUFSIZE \<and> snd (echoed V) < BUFSIZE"
  by (auto simp: sends_def serial_variant_def net_variant_def BUFSIZE_def)

lemma split_content: "0 \<in> set b \<Longrightarrow> \<exists>z. b = content b @ 0 # z"
  by (induction b) auto

lemma patch_drop_0: "drop 0 b = b"
  by simp

lemma run_state [simp]:
  "run_main V K uc ids s (d\<lparr>d_state := y\<rparr>) = run_main V K uc ids s d" "run_main V K uc ids s (d\<lparr>d_rx := x\<rparr>) = run_main V K uc ids s d"
  "run_fault V s p q (d\<lparr>d_state := y\<rparr>) = run_fault V s p q d" "run_fault V s p q (d\<lparr>d_rx := x\<rparr>) = run_fault V s p q d"
  using run_main_waiting [where x = "d_rx d" and y = y and d = d and V = V and K = K and uc = uc and ids = ids and s = s]
    run_main_waiting [where x = x and y = "d_state d" and d = d and V = V and K = K and uc = uc and ids = ids and s = s]
    run_fault_waiting [where x = "d_rx d" and y = y and d = d and V = V and s = s and p = p and q = q]
    run_fault_waiting [where x = x and y = "d_state d" and d = d and V = V and s = s and p = p and q = q]
  by simp_all

lemma notified_eq:
  "notified V K uc ids d = bindR (if d_state d = eventState_waitingForInputFault
      then case d_fault d of None \<Rightarrow> Inl NullDeref | Some (p, q) \<Rightarrow> run_fault V (d_rx d) p q d else Inr d) (\<lambda>d.
    if d_state d = eventState_waitingForInputEventLoop then run_main V K uc ids (d_rx d) d else Inr d)"
  unfolding notified_def run_state ..

lemma arrive_sel [simp]: "d_rx (arrive s d) = d_rx d @ s" "d_state (arrive s d) = d_state d" "d_fault (arrive s d) = d_fault d"
  "run_main V K uc ids t (arrive s d) = run_main V K uc ids t d" "run_fault V t p q (arrive s d) = run_fault V t p q d"
  by (simp_all add: arrive_def)

text \<open>Where the coroutines stop.\<close>

lemma run_main_stops:
  assumes "run_main V K uc ids s d = Inr d'"
  shows "d_state d' = eventState_waitingForInputEventLoop" and "d_rx d' = []"
  using assms by (induction s arbitrary: d) (auto simp: bindR_eq_Inr_iff)

lemma run_fault_stops:
  "run_fault V s p q d = Inr d' \<Longrightarrow>
     d_state d' = eventState_waitingForInputFault \<and> d_rx d' = [] \<and> (\<exists>x y. d_fault d' = Some (x, y)) \<or>
     d_state d' = eventState_waitingForInputEventLoop \<and> d_fault d' = None"
  by (induction s arbitrary: d p q) (auto simp: bindR_eq_Inr_iff split: if_splits)

lemma notified_request:
  fixes d :: "'k debugger"
  assumes idle: "d_state d = eventState_waitingForInputEventLoop" "d_main d = Reading Start" "d_rx d = []"
    and got: "packet_loop True (echoed V) (d_input d) [] s = Inr (x, Some (0, buf, if replies r then [ch CHR ''+''] else []))"
    and buf: "0 < length buf"
    and handler: "gdb_handle_packet K uc ids buf (d_output d) (d_detached e) (d_lib e) = Inr r"
    and e: "e = interrupted K (buf ! 0) d"
    and out: "0 \<in> set (out r)" "sends V (d_tcp_output_buf d) (content (out r))"
  obtains d' where "notified V K uc ids (arrive s d) = Inr d'"
    and "d_tx d' = d_tx d @ x @ (if replies r then frame (content (out r)) else [])" and "d_lib d' = afterwards K r"
    and "d_state d' = eventState_waitingForInputEventLoop" and "d_main d' = Reading Start" and "d_rx d' = []"
    and "d_detached d' = detached r" and "d_input d' = buf" and "d_fault d' = d_fault d" and "d_output d' = out r"
proof -
  let ?d = "d\<lparr>d_tx := d_tx d @ x, d_input := buf\<rparr>"
  obtain z where z: "out r = content (out r) @ 0 # z"
    using split_content [OF out(1)] by blast
  obtain tb m n where "sender V (d_tcp_output_buf d) 0 0 (content (out r) @ 0 # z) = Inr (frame (content (out r)), tb, m, n)"
    by (rule sends_frame [OF out(2) zero_notin_content])
  then have send: "sender V (d_tcp_output_buf ?d) 0 0 (out r) = Inr (frame (content (out r)), tb, m, n)"
    using z by simp
  have e': "d_lib (interrupted K (d_input ?d ! 0) ?d) = d_lib e" "d_detached (interrupted K (d_input ?d ! 0) ?d) = d_detached e"
    by (simp_all add: e interrupted_def)
  have handler': "gdb_handle_packet K uc ids (drop 0 (d_input ?d)) (d_output ?d)
      (d_detached (interrupted K (d_input ?d ! 0) ?d)) (d_lib (interrupted K (d_input ?d ! 0) ?d)) = Inr r"
    unfolding e' using handler by simp
  have run: "notified V K uc ids (arrive s d) = bindR (serve_packet V K uc ids 0 ?d) (run_main V K uc ids (if replies r then [ch CHR ''+''] else []))"
  proof -
    have "notified V K uc ids (arrive s d) = run_main V K uc ids s d"
      using idle by (simp add: notified_eq)
    also have "\<dots> = bindR (serve_packet V K uc ids 0 ?d) (run_main V K uc ids (if replies r then [ch CHR ''+''] else []))"
      using receive_Packet [OF got] by (simp add: run_main_reading [OF idle(2)])
    finally show ?thesis .
  qed
  obtain d' where "bindR (serve_packet V K uc ids 0 ?d) (run_main V K uc ids (if replies r then [ch CHR ''+''] else [])) = Inr d'"
    and "d_tx d' = d_tx ?d @ (if replies r then frame (content (out r)) else [])" "d_lib d' = afterwards K r"
      "d_state d' = eventState_waitingForInputEventLoop" "d_main d' = Reading Start" "d_rx d' = []"
      "d_detached d' = detached r" "d_input d' = d_input ?d" "d_fault d' = d_fault ?d" "d_output d' = out r"
    using serve_packet_reply [OF _ handler' refl send] buf by simp blast
  with run show thesis
    by (intro that [of d']) simp_all
qed

section \<open>Properties\<close>

text \<open>Suspending in the middle of a packet makes no difference: the coroutine that is given
  characters one at a time, and keeps only its local variables while it waits, sends and
  returns what \<open>get_packet\<close> does on the whole input, and leaves the same characters unread.\<close>

lemma suspended_reading_is_get_packet:
  "bindR (receive (echoed serial_variant) Start buf s) (\<lambda>r. Inr (whole r)) = get_packet buf s \<and>
    bindR (receive (echoed net_variant) Start buf s) (\<lambda>r. Inr (whole r)) = net_get_packet buf s"
  using receive_packet_loop [of "(0, 1)" buf "[]" s] receive_packet_loop [of "(1, 2)" buf "[]" s]
  by (simp add: get_packet_def net_get_packet_def finished_def serial_variant_def net_variant_def)

text \<open>C15: It does not matter how the input is cut into notifications. The debugger that is
  notified of some characters and then of more is in the same state, and has sent the same, as
  when it is notified of all of them at once, whatever it was waiting for.\<close>

theorem notifications_can_be_merged:
  "notified V K uc ids (arrive (s @ t) d) = bindR (notified V K uc ids (arrive s d)) (\<lambda>d. notified V K uc ids (arrive t d))"
proof (cases "d_state d")
  case eventState_none
  then show ?thesis
    by (simp add: notified_eq) (simp add: arrive_def)
next
  case eventState_waitingForInputEventLoop
  have "notified V K uc ids (arrive t d') = run_main V K uc ids t d'" if "run_main V K uc ids (d_rx d @ s) d = Inr d'" for d'
    using run_main_stops [OF that] by (simp add: notified_eq)
  with eventState_waitingForInputEventLoop show ?thesis
    by (auto simp: notified_eq [of _ _ _ _ "arrive _ d"] run_main_append [of _ _ _ _ "d_rx d @ s" t, simplified] intro!: bindR_cong)
next
  case eventState_waitingForInputFault
  show ?thesis
  proof (cases "d_fault d")
    case None
    with eventState_waitingForInputFault show ?thesis
      by (simp add: notified_eq)
  next
    case (Some u)
    obtain p q where u: "d_fault d = Some (p, q)"
      using Some by (cases u) simp
    let ?first = "run_fault V (d_rx d @ s) p q d"
    have split: "run_fault V (d_rx d @ s @ t) p q d = bindR ?first (\<lambda>d. case d_fault d of
        None \<Rightarrow> Inr (d\<lparr>d_rx := d_rx d @ t\<rparr>) | Some (p, q) \<Rightarrow> run_fault V t p q d)"
      using run_fault_append [of V "d_rx d @ s" t p q d] by simp
    have more: "notified V K uc ids (arrive t d') = bindR (run_fault V t x y d') (\<lambda>d.
        if d_state d = eventState_waitingForInputEventLoop then run_main V K uc ids (d_rx d) d else Inr d)"
      if "d_state d' = eventState_waitingForInputFault" "d_fault d' = Some (x, y)" "d_rx d' = []" for d' x y
      using that by (simp add: notified_eq)
    have rest: "bindR (run_main V K uc ids (d_rx d') d') (\<lambda>d. notified V K uc ids (arrive t d)) = run_main V K uc ids (d_rx d' @ t) d'"
      for d'
      using run_main_stops [of V K uc ids "d_rx d'" d'] by (auto simp: run_main_append notified_eq intro!: bindR_cong)
    show ?thesis
    proof (cases ?first)
      case (Inr d')
      from run_fault_stops [OF this] show ?thesis
        using eventState_waitingForInputFault Inr u more rest
        by (elim disjE conjE exE) (simp_all add: notified_eq [of _ _ _ _ "arrive _ d"] split)
    qed (use eventState_waitingForInputFault u in \<open>simp add: notified_eq split\<close>)
  qed
qed

text \<open>C2: A request is served. When the event loop waits for a packet and a frame arrives, the
  debugger acknowledges it, passes its text to \<open>gdb_handle_packet\<close> (after stopping the system,
  if the client had detached), and, unless the handler resumes the system, sends the reply as
  one frame; once that is acknowledged, or at once when there is no reply, it resumes the
  system if the handler says so, and waits for the next packet. In the network example, the
  frame has to fit the buffer.\<close>

theorem request_is_answered:
  assumes "d_state d = eventState_waitingForInputEventLoop" and "d_main d = Reading Start" and "d_rx d = []"
    and "plain t" and "length t < BUFSIZE - 1" and "length (d_input d) = BUFSIZE"
    and "buf = patch (d_input d) 0 (t @ [0])" and "buf ! 2 \<noteq> ch CHR '':''" and "e = interrupted K (buf ! 0) d"
    and "gdb_handle_packet K uc ids buf (d_output d) (d_detached e) (d_lib e) = Inr r"
    and "0 \<in> set (out r)" and "sends V (d_tcp_output_buf d) (content (out r))"
  shows "\<exists>d'. notified V K uc ids (arrive (frame t @ (if replies r then [ch CHR ''+''] else [])) d) = Inr d' \<and>
    d_tx d' = d_tx d @ [ch CHR ''+''] @ (if replies r then frame (content (out r)) else []) \<and>
    d_lib d' = afterwards K r \<and> d_state d' = eventState_waitingForInputEventLoop \<and> d_main d' = Reading Start \<and>
    d_rx d' = [] \<and> d_detached d' = detached r \<and> d_input d' = buf \<and> d_output d' = out r"
proof -
  have len: "length buf = BUFSIZE"
    using assms(5-7) by simp
  have "packet_loop True (echoed V) (d_input d) [] (frame t @ (if replies r then [ch CHR ''+''] else [])) =
      Inr ([ch CHR ''+''], Some (0, buf, if replies r then [ch CHR ''+''] else []))"
    using packet_loop_frame [OF assms(4-6)] echoed_ok [OF assms(12)] assms(7,8) by simp
  then obtain d' where "notified V K uc ids (arrive (frame t @ (if replies r then [ch CHR ''+''] else [])) d) = Inr d'"
    "d_tx d' = d_tx d @ [ch CHR ''+''] @ (if replies r then frame (content (out r)) else [])" "d_lib d' = afterwards K r"
    "d_state d' = eventState_waitingForInputEventLoop" "d_main d' = Reading Start" "d_rx d' = []"
    "d_detached d' = detached r" "d_input d' = buf" "d_output d' = out r"
    by (rule notified_request [OF assms(1-3) _ _ assms(10,9,11,12)]) (simp_all add: len BUFSIZE_def)
  then show ?thesis
    by blast
qed

definition running_debugger :: "machine debugger" where
  "running_debugger = (start_debugger machine0)\<lparr>d_state := eventState_waitingForInputEventLoop\<rparr>"

lemma empty_reply:
  assumes "length b = BUFSIZE"
  shows "gdb_handle_packet K uc ids (ch CHR ''!'' # p) b d s = Inr (finish False d (reply b [], s))"
  by (simp add: gdb_handle_packet_eq [OF assms] Let_def)

theorem request_is_answered_witness:
  "\<exists>d'. notified serial_variant machine_kernel zero_context (\<lambda>_. (0, 0)) (arrive (frame (str ''!'') @ [ch CHR ''+'']) running_debugger) = Inr d' \<and>
    d_tx d' = str ''+$#00'' \<and> d_state d' = eventState_waitingForInputEventLoop"
proof -
  let ?b = "replicate BUFSIZE (0 :: u8)"
  let ?r = "finish False False (reply ?b [], init_gdb machine0)"
  let ?buf = "patch ?b 0 (str ''!'' @ [0])"
  have buf: "?buf = ch CHR ''!'' # replicate (BUFSIZE - 1) 0"
    by (simp add: patch_def BUFSIZE_def flip: replicate_Suc)
  have "?buf ! 2 = 0"
    unfolding buf by (simp add: BUFSIZE_def)
  moreover have "interrupted machine_kernel (?buf ! 0) running_debugger = running_debugger"
    unfolding buf by (simp add: interrupted_def running_debugger_def start_debugger_def)
  moreover have "gdb_handle_packet machine_kernel zero_context (\<lambda>_. (0, 0)) ?buf ?b False (init_gdb machine0) = Inr ?r"
    unfolding buf by (rule empty_reply) simp
  moreover have "0 \<in> set (reply ?b [])" "content (reply ?b []) = []"
    by (simp_all add: reply_def patch_def)
  ultimately have "\<exists>d'. notified serial_variant machine_kernel zero_context (\<lambda>_. (0, 0))
      (arrive (frame (str ''!'') @ (if replies ?r then [ch CHR ''+''] else [])) running_debugger) = Inr d' \<and>
    d_tx d' = d_tx running_debugger @ [ch CHR ''+''] @ (if replies ?r then frame (content (out ?r)) else []) \<and>
    d_lib d' = afterwards machine_kernel ?r \<and> d_state d' = eventState_waitingForInputEventLoop \<and> d_main d' = Reading Start \<and>
    d_rx d' = [] \<and> d_detached d' = detached ?r \<and> d_input d' = ?buf \<and> d_output d' = out ?r"
    by (intro request_is_answered [where e = running_debugger])
      (simp_all add: running_debugger_def start_debugger_def plain_def sends_def BUFSIZE_def)
  moreover have "replies ?r" "content (out ?r) = []" "d_tx running_debugger = []"
    by (simp_all add: replies_def running_debugger_def start_debugger_def)
  moreover have "[ch CHR ''+''] @ frame [] = str ''+$#00''"
    by (simp add: frame_def hex_hi_def hex_lo_def int_to_hexchar_def hexchars_def)
  ultimately show ?thesis
    by auto
qed

text \<open>C37: Ctrl-C stops the system. The character 3 between packets suspends every registered
  thread, reports the interrupt, and leaves the tables of the library alone; the system stays
  suspended when the report has been acknowledged.\<close>

theorem interrupt_stops_the_system:
  assumes "d_state d = eventState_waitingForInputEventLoop" and "d_main d = Reading Start" and "d_rx d = []"
    and "length (d_input d) = BUFSIZE" and "length (d_output d) = BUFSIZE" and "sends V (d_tcp_output_buf d) (str ''S02'')"
    and "scheduler K running"
  shows "\<exists>d'. notified V K uc ids (arrive [3, ch CHR ''+''] d) = Inr d' \<and> d_tx d' = d_tx d @ frame (str ''S02'') \<and>
    d_lib d' = suspend_system K (d_lib d) \<and>
    (\<forall>i<MAX_PDS. \<forall>j<MAX_THREADS. i_enabled (inferiors (d_lib d) i) \<longrightarrow> t_enabled (thr (d_lib d) i j) \<longrightarrow>
       \<not> running (ks (d_lib d')) (t_tcb (thr (d_lib d) i j))) \<and>
    d_state d' = eventState_waitingForInputEventLoop \<and> d_main d' = Reading Start \<and> \<not> d_detached d'"
proof -
  let ?r = "finish False False (reply (reply (d_output d) []) (str ''S02''), suspend_system K (d_lib d))"
  let ?buf = "patch (d_input d) 0 [3, 0]"
  have buf: "?buf = 3 # 0 # drop 2 (d_input d)"
    by (simp add: patch_def numeral_2_eq_2)
  have len: "0 < length (d_input d)" "1 < length (d_input d)"
    using assms(4) by (simp_all add: BUFSIZE_def)
  then have "(d_input d)[0 := 3, 1 := 0] = ?buf"
    unfolding buf by (cases "d_input d"; cases "tl (d_input d)") auto
  then have got: "packet_loop True (echoed V) (d_input d) [] [3, ch CHR ''+''] =
      Inr ([], Some (0, ?buf, if replies ?r then [ch CHR ''+''] else []))"
    using len by (simp add: put_def replies_def)
  have start: "?buf ! 0 = 3"
    by (simp add: buf)
  have handler: "gdb_handle_packet K uc ids ?buf (d_output d) (d_detached (interrupted K (?buf ! 0) d))
      (d_lib (interrupted K (?buf ! 0) d)) = Inr ?r"
    unfolding start using gdb_handle_packet_eq [OF assms(5), of K uc ids 3 "0 # drop 2 (d_input d)"] assms(5)
    by (simp add: buf interrupted_def Let_def handle_sig_interrupt_def copy_reply_ok)
  have out: "0 \<in> set (out ?r)" "content (out ?r) = str ''S02''"
    by (simp_all add: reply_def [of "reply _ _"] patch_def)
  have send: "sends V (d_tcp_output_buf d) (content (out ?r))"
    unfolding out(2) by (rule assms(6))
  have halted: "\<not> running (ks (suspend_system K (d_lib d))) (t_tcb (thr (d_lib d) i j))"
    if "i < MAX_PDS" "j < MAX_THREADS" "i_enabled (inferiors (d_lib d) i)" "t_enabled (thr (d_lib d) i j)" for i j
    using that by (auto simp: suspend_running [OF assms(7)] set_live_threads)
  obtain d' where "notified V K uc ids (arrive [3, ch CHR ''+''] d) = Inr d'"
    "d_tx d' = d_tx d @ [] @ (if replies ?r then frame (content (out ?r)) else [])" "d_lib d' = afterwards K ?r"
    "d_state d' = eventState_waitingForInputEventLoop" "d_main d' = Reading Start" "d_detached d' = detached ?r"
    by (rule notified_request [OF assms(1-3) got _ handler refl out(1) send]) (simp_all add: buf)
  then show ?thesis
    using halted by (intro exI [of _ d']) (simp add: replies_def afterwards_def)
qed

theorem interrupt_stops_the_system_witness:
  "\<exists>d'. notified serial_variant machine_kernel zero_context (\<lambda>_. (0, 0)) (arrive [3, ch CHR ''+''] (running_debugger\<lparr>d_lib := one_thread\<rparr>)) = Inr d' \<and>
    d_tx d' = frame (str ''S02'') \<and> \<not> mc_run (ks (d_lib d')) 9"
proof -
  let ?d = "running_debugger\<lparr>d_lib := one_thread\<rparr>"
  have thread: "i_enabled (inferiors one_thread 0)" "t_enabled (thr one_thread 0 0)" "t_tcb (thr one_thread 0 0) = 9"
    by (simp_all add: one_thread_def)
  have "d_state ?d = eventState_waitingForInputEventLoop" "d_main ?d = Reading Start" "d_rx ?d = []"
    "length (d_input ?d) = BUFSIZE" "length (d_output ?d) = BUFSIZE" "sends serial_variant (d_tcp_output_buf ?d) (str ''S02'')"
    and empty: "d_tx ?d = []"
    by (simp_all add: running_debugger_def start_debugger_def sends_def)
  note interrupt_stops_the_system [OF this(1-6) machine_laws(4), where uc = zero_context and ids = "\<lambda>_. (0, 0)"]
  then obtain d' where "notified serial_variant machine_kernel zero_context (\<lambda>_. (0, 0)) (arrive [3, ch CHR ''+''] ?d) = Inr d'"
    "d_tx d' = d_tx ?d @ frame (str ''S02'')" and halted: "\<forall>i<MAX_PDS. \<forall>j<MAX_THREADS. i_enabled (inferiors (d_lib ?d) i) \<longrightarrow>
      t_enabled (thr (d_lib ?d) i j) \<longrightarrow> \<not> mc_run (ks (d_lib d')) (t_tcb (thr (d_lib ?d) i j))"
    by (elim exE conjE)
  moreover have "\<not> mc_run (ks (d_lib d')) 9"
    using halted [rule_format, of 0 0] thread by (simp add: MAX_PDS_def MAX_THREADS_def)
  ultimately show ?thesis
    using empty by (intro exI [of _ d']) simp
qed

lemma send_serial:
  assumes "0 \<in> set (d_output d)"
  shows "send_output serial_variant p q d = Inr (p, q, d\<lparr>d_tx := d_tx d @ frame (content (d_output d))\<rparr>)"
proof -
  obtain z where z: "d_output d = content (d_output d) @ 0 # z"
    using split_content [OF assms] by blast
  have "send_frame (d_output d) = Inr (frame (content (d_output d)), 0 # z)"
    using send_frame_text [OF zero_notin_content, of "d_output d" z] z by simp
  then show ?thesis
    by (simp add: send_output_def serial_variant_def)
qed

lemma run_fault_resends:
  assumes "0 \<in> set (d_output d)" and "ch CHR ''+'' \<notin> set n"
  shows "run_fault serial_variant (n @ ch CHR ''+'' # s) p q d =
    Inr (d\<lparr>d_tx := d_tx d @ concat (replicate (length n) (frame (content (d_output d)))), d_rx := s,
      d_state := eventState_waitingForInputEventLoop, d_fault := None\<rparr>)"
  using assms by (induction n arbitrary: d) (simp_all add: send_serial)

text \<open>C36: A fault is reported. The handler suspends the system, has the library write the stop
  reply, sends it as one frame and waits; until a plus arrives, every other character makes it
  send the frame again; then it is back to waiting for packets. What the event loop was waiting
  for when the fault came is unchanged, and so is what the library did with the fault.\<close>

theorem fault_is_reported:
  assumes "d_rx d = []" and "gdb_handle_fault K child 0 label (d_output d) (suspend_system K (d_lib d)) = Inr (err, hr, b, s)"
    and "0 \<in> set b" and "ch CHR ''+'' \<notin> set n"
  shows "\<exists>d1. fault_event serial_variant K child label d = Inr (hr, d1) \<and>
    d_tx d1 = d_tx d @ frame (content b) \<and> d_state d1 = eventState_waitingForInputFault \<and>
    notified serial_variant K uc ids (arrive (n @ [ch CHR ''+'']) d1) =
      Inr (d\<lparr>d_tx := d_tx d1 @ concat (replicate (length n) (frame (content b))), d_lib := s, d_output := b,
        d_state := eventState_waitingForInputEventLoop, d_fault := None\<rparr>)"
proof -
  let ?d0 = "d\<lparr>d_lib := s, d_output := b\<rparr>"
  let ?d1 = "d\<lparr>d_tx := d_tx d @ frame (content b), d_lib := s, d_output := b, d_rx := [],
    d_state := eventState_waitingForInputFault, d_fault := Some (0, 0)\<rparr>"
  have "fault_message serial_variant ?d0 = Inr ?d1"
    using assms(1,3) by (simp add: fault_message_def send_serial)
  then have "fault_event serial_variant K child label d = Inr (hr, ?d1)"
    using assms(2) by (simp add: fault_event_def Let_def)
  moreover have "notified serial_variant K uc ids (arrive (n @ [ch CHR ''+'']) ?d1) =
      Inr (d\<lparr>d_tx := d_tx ?d1 @ concat (replicate (length n) (frame (content b))), d_lib := s, d_output := b,
        d_state := eventState_waitingForInputEventLoop, d_fault := None\<rparr>)"
    using run_fault_resends [of ?d1 n "[]" 0 0] assms(1,3,4) by (simp add: notified_eq run_main_stops)
  ultimately show ?thesis
    by (intro exI [of _ ?d1]) simp
qed

definition debugee_thread :: "machine gdb" where
  "debugee_thread = upd_thr 0 0 (\<lambda>t. t\<lparr>t_id := 0\<rparr>) one_thread"

lemma debugee_thread_sel: "i_enabled (inferiors debugee_thread 0)" "i_id (inferiors debugee_thread 0) = 3"
  "i_gdb_id (inferiors debugee_thread 0) = 1" "t_enabled (thr debugee_thread 0 0)" "t_id (thr debugee_thread 0 0) = 0"
  "t_gdb_id (thr debugee_thread 0 0) = 1" "t_inferior (thr debugee_thread 0 0) = Some 0"
  by (simp_all add: debugee_thread_def one_thread_def)

lemma suspend_inferiors: "inferiors (suspend_system K s) = inferiors s"
  by (simp add: suspend_system_def)

theorem fault_is_reported_witness:
  "\<exists>b s d1. fault_event serial_variant machine_kernel 3 9 (running_debugger\<lparr>d_lib := debugee_thread\<rparr>) =
      Inr (Some False, d1) \<and>
    d_tx d1 = frame (str ''T06thread:p01.01;'') \<and> d_state d1 = eventState_waitingForInputFault \<and>
    notified serial_variant machine_kernel zero_context (\<lambda>_. (0, 0)) (arrive (str ''-+'') d1) =
      Inr ((running_debugger\<lparr>d_lib := debugee_thread\<rparr>)\<lparr>d_tx := d_tx d1 @ frame (str ''T06thread:p01.01;''),
        d_lib := s, d_output := b, d_state := eventState_waitingForInputEventLoop, d_fault := None\<rparr>)"
proof -
  let ?d = "running_debugger\<lparr>d_lib := debugee_thread\<rparr>"
  let ?t = "suspend_system machine_kernel (d_lib ?d)"
  let ?b = "reply (d_output ?d) (str ''T06thread:'' @ thread_text ?t (0, 0) @ str '';'')"
  have "lookup_inferior_from_id 3 ?t = Some 0" "lookup_thread_from_id 0 0 ?t = Some 0"
    by (simp_all add: lookup_inferior_from_id_def lookup_thread_from_id_def suspend_inferiors debugee_thread_sel find_upt_Some MAX_PDS_def MAX_THREADS_def)
  moreover have "handle_fault (0, 0) (d_output ?d) ?t = Inr (False, ?b, ?t\<lparr>target_thread := Some (0, 0)\<rparr>)"
    by (rule handle_fault_reply) (simp_all add: suspend_inferiors debugee_thread_sel running_debugger_def start_debugger_def BUFSIZE_def)
  ultimately have run: "gdb_handle_fault machine_kernel 3 0 9 (d_output ?d) ?t = Inr (NoError, Some False, ?b, ?t\<lparr>target_thread := Some (0, 0)\<rparr>)"
    by (simp add: gdb_handle_fault_def machine_kernel_def)
  have msg: "str ''T06thread:'' @ thread_text ?t (0, 0) @ str '';'' = str ''T06thread:p01.01;''"
    by (simp add: thread_text_def id_text_def suspend_inferiors debugee_thread_sel hex_hi_def hex_lo_def int_to_hexchar_def hexchars_def)
  have b: "0 \<in> set ?b" "content ?b = str ''T06thread:p01.01;''" "d_rx ?d = []" "d_tx ?d = []" "ch CHR ''+'' \<notin> set (str ''-'')"
    unfolding msg by (simp_all add: reply_def patch_def running_debugger_def start_debugger_def)
  from fault_is_reported [where d = ?d and K = machine_kernel and child = 3 and label = 9 and n = "str ''-''" and uc = zero_context
      and ids = "\<lambda>_. (0, 0)", OF b(3) run b(1,5)]
  obtain d1 where d1: "fault_event serial_variant machine_kernel 3 9 ?d = Inr (Some False, d1)" "d_tx d1 = d_tx ?d @ frame (content ?b)"
      "d_state d1 = eventState_waitingForInputFault"
      "notified serial_variant machine_kernel zero_context (\<lambda>_. (0, 0)) (arrive (str ''-'' @ [ch CHR ''+'']) d1) =
        Inr (?d\<lparr>d_tx := d_tx d1 @ concat (replicate (length (str ''-'')) (frame (content ?b))),
          d_lib := ?t\<lparr>target_thread := Some (0, 0)\<rparr>, d_output := ?b, d_state := eventState_waitingForInputEventLoop, d_fault := None\<rparr>)"
    by (elim exE conjE)
  have acks: "str ''-'' @ [ch CHR ''+''] = str ''-+''" "concat (replicate (length (str ''-'')) x) = x" for x :: "u8 list"
    by simp_all
  show ?thesis
    using d1 unfolding b(2,4) acks append_Nil by blast
qed

end
