(* ===== verification/Gdb_Framing.thy ===== *)
theory Gdb_Framing
  imports Gdb_EventLoop
begin

text \<open>
  What \<open>get_packet\<close> reads, as a grammar of the input stream. The grammar has no counters, no
  running checksum and no place in the code: it says which characters make up a packet, what
  is sent in reply, and what happens to input that is not a packet.
\<close>

section \<open>The grammar\<close>

text \<open>
  \<open>reads e b s x p b' r\<close>: from the input \<open>s\<close>, with the buffer \<open>b\<close>, a packet is read; the
  characters \<open>x\<close> have been sent, the buffer is \<open>b'\<close>, the packet is its text from the offset \<open>p\<close>
  on, and \<open>r\<close> is not read yet. Characters outside a packet are noise, and Control-C among them
  is a packet of its own. A packet is a text between \<open>$\<close> and \<open>#\<close>, followed by the two digits of
  the sum of its characters. With a colon as the third character of the buffer the text has a
  sequence number, which is sent back and skipped. A packet with a wrong checksum is answered
  with \<open>-\<close> and forgotten; at another \<open>$\<close> the packet starts anew; a text that does not fit
  into the buffer is dropped and what follows it is noise again.
\<close>

inductive reads :: "nat \<times> nat \<Rightarrow> u8 list \<Rightarrow> u8 list \<Rightarrow> u8 list \<Rightarrow> nat \<Rightarrow> u8 list \<Rightarrow> u8 list \<Rightarrow> bool" for e where
  noise: "c \<noteq> ch CHR ''$'' \<Longrightarrow> c \<noteq> 3 \<Longrightarrow> reads e b s x p b' r \<Longrightarrow> reads e b (c # s) x p b' r"
| interrupt: "reads e b (3 # s) [] 0 (patch b 0 [3, 0]) s"
| packet: "unframed t \<Longrightarrow> length t < BUFSIZE - 1 \<Longrightarrow> hex_byte a c = sum_list t \<Longrightarrow>
    b' = patch b 0 (t @ [0]) \<Longrightarrow> b' ! 2 \<noteq> ch CHR '':'' \<Longrightarrow>
    reads e b (ch CHR ''$'' # t @ ch CHR ''#'' # a # c # s) [ch CHR ''+''] 0 b' s"
| numbered: "unframed t \<Longrightarrow> length t < BUFSIZE - 1 \<Longrightarrow> hex_byte a c = sum_list t \<Longrightarrow>
    b' = patch b 0 (t @ [0]) \<Longrightarrow> b' ! 2 = ch CHR '':'' \<Longrightarrow>
    reads e b (ch CHR ''$'' # t @ ch CHR ''#'' # a # c # s) [ch CHR ''+'', b' ! fst e, b' ! snd e] 3 b' s"
| damaged: "unframed t \<Longrightarrow> length t < BUFSIZE - 1 \<Longrightarrow> hex_byte a c \<noteq> sum_list t \<Longrightarrow>
    reads e (patch b 0 (t @ [0])) s x p b' r \<Longrightarrow>
    reads e b (ch CHR ''$'' # t @ ch CHR ''#'' # a # c # s) (ch CHR ''-'' # x) p b' r"
| restarted: "unframed t \<Longrightarrow> length t < BUFSIZE - 1 \<Longrightarrow> reads e (patch b 0 t) (ch CHR ''$'' # s) x p b' r \<Longrightarrow>
    reads e b (ch CHR ''$'' # t @ ch CHR ''$'' # s) x p b' r"
| overlong: "unframed t \<Longrightarrow> length t = BUFSIZE - 1 \<Longrightarrow> reads e (patch b 0 (t @ [0])) s x p b' r \<Longrightarrow>
    reads e b (ch CHR ''$'' # t @ s) x p b' r"

section \<open>Rounds of the loop\<close>

lemma round_restarted:
  "unframed t \<Longrightarrow> length t < BUFSIZE - 1 \<Longrightarrow> length b = BUFSIZE \<Longrightarrow>
     packet_round e b (t @ ch CHR ''$'' # s) = packet_round e (patch b 0 t) s"
  by (simp add: packet_round_def read_body_run)

lemma round_overlong:
  assumes "unframed t" and "length t = BUFSIZE - 1" and "length b = BUFSIZE"
  shows "packet_round e b (t @ s) = Inr ([], Again (patch b 0 (t @ [0])) s)"
proof -
  have "read_body (patch b 0 t) (length t) k s = Inr (Some (patch b 0 t, length t, k, False, s))" for k
    using assms(2) by (cases s) simp_all
  then have body: "read_body b 0 0 (t @ s) = Inr (Some (patch b 0 t, length t, sum_list t, False, s))"
    using assms by (simp add: read_body_run)
  have "put (patch b 0 t) (0 + length t) 0 = Inr (patch (patch b 0 t) (0 + length t) [0])"
    using assms(2,3) by (intro put_patch) (simp add: BUFSIZE_def)
  then have "put (patch b 0 t) (length t) 0 = Inr (patch b 0 (t @ [0]))"
    using assms(2,3) patch_patch [of 0 t b "[0]"] by (simp add: BUFSIZE_def)
  with body show ?thesis
    by (simp add: packet_round_def)
qed

text \<open>A packet that is not complete.\<close>

lemma round_waits:
  assumes "unframed t" and "length t < BUFSIZE - 1" and "length b = BUFSIZE"
  shows "packet_round e b t = Inr ([], Waits)"
    and "length s < 2 \<Longrightarrow> packet_round e b (t @ ch CHR ''#'' # s) = Inr ([], Waits)"
proof -
  show "packet_round e b t = Inr ([], Waits)"
    using assms read_body_run [of t 0 b 0 "[]"] by (simp add: packet_round_def)
  assume s: "length s < 2"
  have "put (patch b 0 t) (0 + length t) 0 = Inr (patch (patch b 0 t) (0 + length t) [0])"
    using assms(2,3) by (intro put_patch) (simp add: BUFSIZE_def)
  then show "packet_round e b (t @ ch CHR ''#'' # s) = Inr ([], Waits)"
    using assms s read_body_text [of t 0 b 0 s] by (cases s; cases "tl s") (simp_all add: packet_round_def)
qed

lemma loop_interrupt: "length b = BUFSIZE \<Longrightarrow> packet_loop True e b sent (3 # s) = Inr (sent, Some (0, patch b 0 [3, 0], s))"
  using patch_patch [of 0 "[3]" b "[0]"] by (simp add: put_patch BUFSIZE_def)

lemma loop_dollar:
  "packet_loop True e b sent (ch CHR ''$'' # s) = bindR (packet_round e b s) (\<lambda>(x, r). case r of
      Waits \<Rightarrow> Inr (sent @ x, None)
    | Again b s \<Rightarrow> packet_loop True e b (sent @ x) s
    | Got p b s \<Rightarrow> Inr (sent @ x, Some (p, b, s)))"
  by simp

section \<open>The code reads what the grammar says\<close>

lemma round_framed:
  "unframed t \<Longrightarrow> length t < BUFSIZE - 1 \<Longrightarrow> length b = BUFSIZE \<Longrightarrow> indices_ok e \<Longrightarrow>
     packet_round e b (t @ ch CHR ''#'' # a # c # s) = Inr (if hex_byte a c = sum_list t
       then accepted e (patch b 0 (t @ [0])) s else ([ch CHR ''-''], Again (patch b 0 (t @ [0])) s))"
  unfolding indices_ok_def by (rule packet_round_body) simp_all

lemma reads_loop:
  "reads e b s x p b' r \<Longrightarrow> length b = BUFSIZE \<Longrightarrow> indices_ok e \<Longrightarrow>
     packet_loop True e b sent s = Inr (sent @ x, Some (p, b', r))"
proof (induction arbitrary: sent rule: reads.induct)
  case (noise c b s x p b' r)
  then show ?case
    by simp
next
  case (interrupt b s)
  then show ?case
    by (simp add: loop_interrupt del: packet_loop.simps)
next
  case (packet t a c b' b s)
  then show ?case
    unfolding loop_dollar round_framed [OF packet(1,2,6,7)] by (simp add: accepted_def)
next
  case (numbered t a c b' b s)
  then show ?case
    unfolding loop_dollar round_framed [OF numbered(1,2,6,7)] by (simp add: accepted_def)
next
  case (damaged t a c b s x p b' r)
  then show ?case
    unfolding loop_dollar round_framed [OF damaged(1,2,6,7)] by simp
next
  case (restarted t b s x p b' r)
  then have "packet_loop True e (patch b 0 t) sent (ch CHR ''$'' # s) = Inr (sent @ x, Some (p, b', r))"
    by (simp add: BUFSIZE_def del: packet_loop.simps)
  then show ?case
    unfolding loop_dollar round_restarted [OF restarted(1,2,5)] .
next
  case (overlong t b s x p b' r)
  then show ?case
    unfolding loop_dollar round_overlong [OF overlong(1,2,5)] by (simp add: BUFSIZE_def)
qed

text \<open>Conversely, the input is cut at the first character that ends a text.\<close>

lemma split_text:
  obtains t where "unframed t" and "s = t"
  | t u where "unframed t" and "s = t @ ch CHR ''$'' # u"
  | t u where "unframed t" and "s = t @ ch CHR ''#'' # u"
proof -
  let ?P = "\<lambda>c. c \<noteq> ch CHR ''$'' \<and> c \<noteq> ch CHR ''#''"
  define t where "t = takeWhile ?P s"
  have t: "unframed t" "s = t @ dropWhile ?P s"
    by (auto simp: unframed_def t_def dest: set_takeWhileD)
  show thesis
  proof (cases "dropWhile ?P s")
    case Nil
    have "s = t"
      using t(2) unfolding Nil append_Nil2 .
    with t(1) that(1) show thesis
      by blast
  next
    case (Cons c u)
    have "\<not> ?P c"
      using hd_dropWhile [of ?P s] unfolding Cons list.sel(1) by blast
    then consider "c = ch CHR ''$''" | "c = ch CHR ''#''"
      by blast
    moreover have "s = t @ c # u"
      using t(2) unfolding Cons .
    ultimately show thesis
      using t(1) that(2,3) by cases blast+
  qed
qed

lemma unframed_take: "unframed t \<Longrightarrow> unframed (take n t)"
  by (auto simp: unframed_def dest: in_set_takeD)

lemma dollar_cases:
  assumes run: "packet_loop True e b sent (ch CHR ''$'' # s) = Inr (y, Some (p, b', r))"
    and len: "length b = BUFSIZE" and e: "indices_ok e"
  obtains (packet) t a c u where "s = t @ ch CHR ''#'' # a # c # u" "unframed t" "length t < BUFSIZE - 1"
    | (restarted) t u where "s = t @ ch CHR ''$'' # u" "unframed t" "length t < BUFSIZE - 1"
    | (overlong) t u where "s = t @ u" "unframed t" "length t = BUFSIZE - 1"
proof -
  have no: False if "packet_round e b s = Inr (x, Waits)" for x
    using run that by simp
  have long: thesis if "unframed t" "s = t @ u" "\<not> length t < BUFSIZE - 1" for t u
    using that overlong [of "take (BUFSIZE - 1) t" "drop (BUFSIZE - 1) t @ u"]
    by (simp add: unframed_take append_assoc [symmetric] del: append_assoc)
  show thesis
  proof (cases s rule: split_text)
    case (1 t)
    show thesis
    proof (cases "length t < BUFSIZE - 1")
      case True
      from no [unfolded 1(2), OF round_waits(1) [OF 1(1) True len]] show thesis ..
    next
      case False
      from long [OF 1(1) _ False, of "[]"] 1(2) show thesis
        by simp
    qed
  next
    case (2 t u)
    with restarted long show thesis
      by blast
  next
    case (3 t u)
    show thesis
    proof (cases "length t < BUFSIZE - 1")
      case True
      then have "\<not> length u < 2"
        using no [unfolded 3(2), OF round_waits(2) [OF 3(1) True len]] by blast
      then obtain a c v where "u = a # c # v"
        by (cases u; cases "tl u") auto
      with packet 3 True show thesis
        by blast
    qed (use long 3 in blast)
  qed
qed

text \<open>One round of the loop, with what it leaves to later rounds.\<close>

lemma dollar_reads:
  assumes run: "packet_loop True e b sent (ch CHR ''$'' # s) = Inr (y, Some (p, b', r))"
    and len: "length b = BUFSIZE" and e: "indices_ok e"
    and later: "\<And>b1 sent1 s2. length s2 \<le> length s \<Longrightarrow> packet_loop True e b1 sent1 s2 = Inr (y, Some (p, b', r)) \<Longrightarrow>
      length b1 = BUFSIZE \<Longrightarrow> \<exists>x. y = sent1 @ x \<and> reads e b1 s2 x p b' r"
  shows "\<exists>x. y = sent @ x \<and> reads e b (ch CHR ''$'' # s) x p b' r"
  using run len e
proof (cases rule: dollar_cases)
  case (packet t a c u)
  let ?b = "patch b 0 (t @ [0])"
  have lenb: "length ?b = BUFSIZE"
    using packet len by simp
  note round = round_framed [OF packet(2,3) len e, of a c u, folded packet(1)]
  show ?thesis
  proof (cases "hex_byte a c = sum_list t")
    case True
    note got = run [unfolded loop_dollar round, unfolded accepted_def]
    show ?thesis
    proof (cases "?b ! 2 = ch CHR '':''")
      case colon: True
      have "y = sent @ [ch CHR ''+'', ?b ! fst e, ?b ! snd e] \<and> p = 3 \<and> b' = ?b \<and> r = u"
        using got unfolding if_P [OF True] if_P [OF colon] by auto
      with reads.numbered [OF packet(2,3) True refl colon, of e u] packet(1) show ?thesis
        by blast
    next
      case colon: False
      have "y = sent @ [ch CHR ''+''] \<and> p = 0 \<and> b' = ?b \<and> r = u"
        using got unfolding if_P [OF True] if_not_P [OF colon] by auto
      with reads.packet [OF packet(2,3) True refl colon, of e u] packet(1) show ?thesis
        by blast
    qed
  next
    case False
    have "packet_loop True e ?b (sent @ [ch CHR ''-'']) u = Inr (y, Some (p, b', r))"
      using run unfolding loop_dollar round if_not_P [OF False] by simp
    from later [OF _ this lenb] packet(1) obtain x where x: "y = (sent @ [ch CHR ''-'']) @ x" "reads e ?b u x p b' r"
      by auto
    from reads.damaged [OF packet(2,3) False x(2)] x(1) packet(1) show ?thesis
      by (intro exI [of _ "ch CHR ''-'' # x"]) simp
  qed
next
  case (restarted t u)
  have "packet_round e b s = packet_round e (patch b 0 t) u"
    unfolding restarted(1) by (rule round_restarted [OF restarted(2,3) len])
  with run have "packet_loop True e (patch b 0 t) sent (ch CHR ''$'' # u) = Inr (y, Some (p, b', r))"
    by (simp only: loop_dollar)
  from later [OF _ this] restarted len obtain x where "y = sent @ x" "reads e (patch b 0 t) (ch CHR ''$'' # u) x p b' r"
    by auto
  with reads.restarted [OF restarted(2,3)] restarted(1) show ?thesis
    by blast
next
  case (overlong t u)
  have "packet_loop True e (patch b 0 (t @ [0])) sent u = Inr (y, Some (p, b', r))"
    using run [unfolded loop_dollar overlong(1) round_overlong [OF overlong(2,3) len]] by simp
  from later [OF _ this] overlong len obtain x where "y = sent @ x" "reads e (patch b 0 (t @ [0])) u x p b' r"
    by (auto simp: BUFSIZE_def)
  with reads.overlong [OF overlong(2,3)] overlong(1) show ?thesis
    by blast
qed

lemma loop_reads:
  "packet_loop True e b sent s = Inr (y, Some (p, b', r)) \<Longrightarrow> length b = BUFSIZE \<Longrightarrow> indices_ok e \<Longrightarrow>
     \<exists>x. y = sent @ x \<and> reads e b s x p b' r"
proof (induction "length s" arbitrary: b sent s rule: less_induct)
  case less
  note run = less.prems(1) and len = less.prems(2) and e = less.prems(3)
  show ?case
  proof (cases s)
    case Nil
    with run show ?thesis
      by simp
  next
    case (Cons c s1)
    consider "c = ch CHR ''$''" | "c = 3" | "c \<noteq> ch CHR ''$''" "c \<noteq> 3"
      by blast
    then show ?thesis
    proof cases
      case 1
      note s = Cons [unfolded 1]
      note run = run [unfolded s]
      show ?thesis
        unfolding s
      proof (rule dollar_reads [OF run len e])
        fix b1 sent1 s2
        assume "length s2 \<le> length s1" "packet_loop True e b1 sent1 s2 = Inr (y, Some (p, b', r))" "length b1 = BUFSIZE"
        with less.hyps [of s2 b1 sent1] e s show "\<exists>x. y = sent1 @ x \<and> reads e b1 s2 x p b' r"
          by simp
      qed
    next
      case 2
      with run Cons len show ?thesis
        by (auto simp: loop_interrupt intro: reads.interrupt simp del: packet_loop.simps)
    next
      case 3
      with run Cons len e less.hyps [of s1 b sent] obtain x where "y = sent @ x" "reads e b s1 x p b' r"
        by auto
      with reads.noise [OF 3] Cons show ?thesis
        by blast
    qed
  qed
qed

lemma loop_iff_reads:
  "length b = BUFSIZE \<Longrightarrow> indices_ok e \<Longrightarrow>
     packet_loop True e b [] s = Inr (x, Some (p, b', r)) \<longleftrightarrow> reads e b s x p b' r"
  using loop_reads [of e b "[]" s x p b' r] reads_loop [of e b s x p b' r "[]"] by auto

lemma receive_iff_loop:
  "receive e Start b s = Inr (x, Packet p b', r) \<longleftrightarrow> packet_loop True e b [] s = Inr (x, Some (p, b', r))"
proof
  assume "packet_loop True e b [] s = Inr (x, Some (p, b', r))"
  then show "receive e Start b s = Inr (x, Packet p b', r)"
    by (rule receive_Packet)
qed (simp add: receive_packet_loop)

section \<open>Properties\<close>

text \<open>C35: The code reads what the grammar of packets says. \<open>get_packet\<close> returns a packet, having
  sent some characters and left others unread, exactly if the grammar derives this from the
  input, and so does the coroutine that is given the characters one at a time and keeps only
  its local variables while it waits; the network example differs in the characters it echoes
  for a sequence number. If nothing can be derived, the reader does not return but waits.\<close>

theorem reading_follows_grammar:
  assumes "length buf = BUFSIZE"
  shows "(get_packet buf s = Inr (x, Some (p, b, r)) \<longleftrightarrow> reads (0, 1) buf s x p b r) \<and>
    (receive (echoed serial_variant) Start buf s = Inr (x, Packet p b, r) \<longleftrightarrow> reads (0, 1) buf s x p b r) \<and>
    (net_get_packet buf s = Inr (x, Some (p, b, r)) \<longleftrightarrow> reads (1, 2) buf s x p b r) \<and>
    (receive (echoed net_variant) Start buf s = Inr (x, Packet p b, r) \<longleftrightarrow> reads (1, 2) buf s x p b r)"
proof -
  have "indices_ok (0, 1)" "indices_ok (1, 2)"
    by (simp_all add: indices_ok_def BUFSIZE_def)
  then show ?thesis
    unfolding get_packet_def net_get_packet_def receive_iff_loop
    by (simp add: loop_iff_reads assms serial_variant_def net_variant_def)
qed

text \<open>Noise, a packet with a wrong checksum, a packet that starts anew, and what is left.\<close>

theorem reading_follows_grammar_witness:
  "\<exists>b. get_packet (replicate BUFSIZE 0) (str ''x$g#00$m$OK#9a+'') = Inr (str ''-+'', Some (0, b, str ''+'')) \<and>
     receive (echoed serial_variant) Start (replicate BUFSIZE 0) (str ''x$g#00$m$OK#9a+'') = Inr (str ''-+'', Packet 0 b, str ''+'') \<and>
     content b = str ''OK''"
proof -
  let ?b0 = "replicate BUFSIZE (0 :: u8)"
  let ?b1 = "patch ?b0 0 (str ''g'' @ [0])"
  let ?b2 = "patch ?b1 0 (str ''m'')"
  let ?b3 = "patch ?b2 0 (str ''OK'' @ [0])"
  have len: "length ?b0 = BUFSIZE" "length ?b1 = BUFSIZE" "length ?b2 = BUFSIZE"
    by (simp_all add: BUFSIZE_def)
  have b3: "content ?b3 = str ''OK''" "?b3 ! 2 \<noteq> ch CHR '':''"
    using content_patch [of "str ''OK''" ?b2] by (simp_all add: patch_def nth_append)
  have digits: "hex_byte (ch CHR ''9'') (ch CHR ''a'') = sum_list (str ''OK'')" "hex_byte (ch CHR ''0'') (ch CHR ''0'') \<noteq> sum_list (str ''g'')"
    by code_simp+
  have plain: "unframed (str ''g'')" "unframed (str ''m'')" "unframed (str ''OK'')"
    by (simp_all add: unframed_def)
  have short: "length (str ''g'') < BUFSIZE - 1" "length (str ''m'') < BUFSIZE - 1" "length (str ''OK'') < BUFSIZE - 1"
    by (simp_all add: BUFSIZE_def)
  note ok = reads.packet [OF plain(3) short(3) digits(1) refl b3(2), of "(0, 1)" "str ''+''"]
  note all = reads.damaged [OF plain(1) short(1) digits(2) reads.restarted [OF plain(2) short(2) ok]]
  have "reads (0, 1) ?b0 (str ''x$g#00$m$OK#9a+'') (str ''-+'') 0 ?b3 (str ''+'')"
    using reads.noise [OF _ _ all, of "ch CHR ''x''"] by (simp add: str_def)
  with reading_follows_grammar [OF len(1)] b3(1) show ?thesis
    by blast
qed

end
