(* ===== verification/Gdb_Debugger.thy ===== *)
theory Gdb_Debugger
  imports Gdb_EventLoop
begin

text \<open>
  The debugger component over time: what \<open>init\<close> sets up, and what holds in every state that
  arriving characters, notifications and faults can lead to.
\<close>

section \<open>Steps\<close>

text \<open>What the local variables that are not initialised hold may differ from step to step.\<close>

inductive debugger_step :: "variant \<Rightarrow> ('k, 'r) kernel \<Rightarrow> 'k debugger \<Rightarrow> 'k debugger \<Rightarrow> bool" for V K where
  characters: "debugger_step V K d (arrive s d)"
| notification: "notified V K uc ids d = Inr d' \<Longrightarrow> debugger_step V K d d'"
| a_fault: "fault_event V K child label d = Inr (hr, d') \<Longrightarrow> debugger_step V K d d'"
| elsewhere: "debugger_step V K d (d\<lparr>d_lib := (d_lib d)\<lparr>ks := k\<rparr>\<rparr>)"

inductive debugger_reachable :: "variant \<Rightarrow> ('k, 'r) kernel \<Rightarrow> 'k debugger \<Rightarrow> bool" for V K where
  started: "init_debugger V K uc ids base_vspace base_tcb k = Inr d \<Longrightarrow> debugger_reachable V K d"
| step: "debugger_reachable V K d \<Longrightarrow> debugger_step V K d d' \<Longrightarrow> debugger_reachable V K d'"

section \<open>The invariant\<close>

text \<open>Where \<open>get_packet\<close> can wait.\<close>

fun reading_ok :: "main_point \<Rightarrow> bool" where
  "reading_ok (Reading (Body n k)) \<longleftrightarrow> n < BUFSIZE - 1"
| "reading_ok _ \<longleftrightarrow> True"

definition waits :: "'k debugger \<Rightarrow> bool" where
  "waits d \<longleftrightarrow> d_state d \<noteq> eventState_none \<and> (d_state d = eventState_waitingForInputFault \<longrightarrow> d_fault d \<noteq> None)"

definition debugger_inv :: "'k debugger \<Rightarrow> bool" where
  "debugger_inv d \<longleftrightarrow> gdb_inv (d_lib d) \<and> input_ok (d_input d) \<and> reading_ok (d_main d)"

definition variant_ok :: "variant \<Rightarrow> bool" where
  "variant_ok V \<longleftrightarrow> indices_ok (echoed V)"

lemma variants_ok: "variant_ok serial_variant" "variant_ok net_variant"
  by (simp_all add: variant_ok_def indices_ok_def serial_variant_def net_variant_def BUFSIZE_def)

text \<open>Reading a character never leaves the buffer.\<close>

lemma packet_char_safe:
  assumes "input_ok buf" and "indices_ok e" and "reading_ok (Reading pt)"
  shows "\<exists>x r. packet_char e pt c buf = Inr (x, r) \<and>
    (\<forall>p b. r = At p b \<longrightarrow> input_ok b \<and> reading_ok (Reading p)) \<and> (\<forall>p b. r = Packet p b \<longrightarrow> input_ok b \<and> p \<le> 3)"
proof (cases pt)
  case Start
  have 0: "put buf 0 3 = Inr (buf[0 := 3])" "input_ok (buf[0 := 3])"
    using input_ok_put [OF assms(1), of 0 3] by (simp_all add: BUFSIZE_def)
  have 1: "put (buf[0 := 3]) 1 0 = Inr (buf[0 := 3, 1 := 0])" "input_ok (buf[0 := 3, 1 := 0])"
    using input_ok_put [OF 0(2), of 1 0] by (simp_all add: BUFSIZE_def)
  show ?thesis
    using assms(1) 0 1 by (cases "c = 3") (simp_all add: Start BUFSIZE_def)
next
  case (Body n k)
  then have n: "n < BUFSIZE - 1"
    using assms(3) by simp
  note end_put = input_ok_put [OF assms(1), of n 0] and put_char = input_ok_put [OF assms(1), of n c]
  have char: "put buf n c = Inr (buf[n := c])" "input_ok (buf[n := c])"
    using put_char n by simp_all
  have last: "put (buf[n := c]) (n + 1) 0 = Inr (buf[n := c, n + 1 := 0])" "input_ok (buf[n := c, n + 1 := 0])"
    using input_ok_put [OF char(2), of "n + 1" 0] n by simp_all
  consider "c = ch CHR ''$''" | "c = ch CHR ''#''" | "c \<noteq> ch CHR ''$''" "c \<noteq> ch CHR ''#''"
    by blast
  then show ?thesis
    using end_put n char last assms(1) by cases (simp_all add: Body BUFSIZE_def)
next
  case (Low k x)
  have "array_get buf 2 = Inr (buf ! 2)" "array_get buf (fst e) = Inr (buf ! fst e)" "array_get buf (snd e) = Inr (buf ! snd e)"
    using assms(1,2) by (simp_all add: array_get_def input_ok_def indices_ok_def) (simp add: BUFSIZE_def)
  then show ?thesis
    using assms(1) by (simp add: Low)
qed (use assms(1) in simp)

lemma send_output_keeps:
  "send_output V p q d = Inr (p', q', d') \<Longrightarrow> d_lib d' = d_lib d \<and> d_input d' = d_input d \<and> d_state d' = d_state d \<and>
     d_fault d' = d_fault d \<and> d_main d' = d_main d"
  by (auto simp: send_output_def bindR_eq_Inr_iff)

lemma gdb_inv_suspend: "gdb_inv s \<Longrightarrow> gdb_inv (suspend_system K s)" "gdb_inv s \<Longrightarrow> gdb_inv (resume_system K s)"
  by (simp_all add: suspend_system_def resume_system_def gdb_inv_ks)

lemma interrupted_keeps: "d_input (interrupted K c d) = d_input d" "gdb_inv (d_lib d) \<Longrightarrow> gdb_inv (d_lib (interrupted K c d))"
  by (simp_all add: interrupted_def gdb_inv_suspend)

lemma serve_packet_inv:
  assumes "serve_packet V K uc ids p d = Inr d'" and "gdb_inv (d_lib d)" and "input_ok (d_input d)"
  shows "debugger_inv d'"
proof -
  let ?e = "interrupted K (d_input d ! p) d"
  let ?done = "\<lambda>r. let d = ?e\<lparr>d_lib := st r, d_output := out r, d_detached := detached r\<rparr>
       in if \<not> resumed r \<or> detached r then bindR (send_output V 0 0 d) (\<lambda>(p, q, d). Inr (d\<lparr>d_main := Acking (resumed r) p q\<rparr>))
          else Inr (next_packet K (resumed r) d)"
  have "p < length (d_input d)"
    using assms(1) by (auto simp: serve_packet_def array_get_def split: if_splits)
  then have "bindR (gdb_handle_packet K uc ids (drop p (d_input ?e)) (d_output ?e) (d_detached ?e) (d_lib ?e)) ?done = Inr d'"
    using assms(1) by (simp add: serve_packet_def array_get_def Let_def)
  then obtain r where run: "gdb_handle_packet K uc ids (drop p (d_input ?e)) (d_output ?e) (d_detached ?e) (d_lib ?e) = Inr r"
    and rest: "?done r = Inr d'"
    by (rule bindR_InrE)
  have "gdb_inv (st r)"
    by (rule gdb_handle_packet_inv [OF interrupted_keeps(2) [OF assms(2)] run])
  with rest assms(3) show ?thesis
    by (auto simp: debugger_inv_def next_packet_def gdb_inv_suspend bindR_eq_Inr_iff interrupted_keeps Let_def
        dest!: send_output_keeps split: if_splits)
qed

lemma main_char_inv:
  assumes "main_char V K uc ids c d = Inr d'" and "debugger_inv d" and "variant_ok V"
  shows "debugger_inv d'"
proof (cases "d_main d")
  case (Reading pt)
  have ok: "input_ok (d_input d)" "indices_ok (echoed V)" "reading_ok (Reading pt)"
    using assms(2,3) Reading by (auto simp: debugger_inv_def variant_ok_def)
  obtain x r where step: "packet_char (echoed V) pt c (d_input d) = Inr (x, r)"
    and at: "\<And>p b. r = At p b \<Longrightarrow> input_ok b \<and> reading_ok (Reading p)" and got: "\<And>p b. r = Packet p b \<Longrightarrow> input_ok b"
    using packet_char_safe [OF ok, of c] by blast
  show ?thesis
  proof (cases r)
    case (At p b)
    then show ?thesis
      using assms(1,2) at [OF At] step by (auto simp: main_char_def Reading debugger_inv_def)
  next
    case (Packet p b)
    then have serve: "serve_packet V K uc ids p (d\<lparr>d_tx := d_tx d @ x, d_input := b\<rparr>) = Inr d'"
      using assms(1) step by (simp add: main_char_def Reading)
    show ?thesis
      using assms(2) got [OF Packet] by (intro serve_packet_inv [OF serve]) (simp_all add: debugger_inv_def)
  qed
next
  case (Acking resume p q)
  then show ?thesis
    using assms(1,2) by (auto simp: main_char_def debugger_inv_def next_packet_def gdb_inv_suspend bindR_eq_Inr_iff
        dest!: send_output_keeps split: if_splits)
qed

lemma run_main_inv: "run_main V K uc ids s d = Inr d' \<Longrightarrow> debugger_inv d \<Longrightarrow> variant_ok V \<Longrightarrow> debugger_inv d' \<and> waits d'"
proof (induction s arbitrary: d)
  case Nil
  then show ?case
    by (auto simp: debugger_inv_def waits_def)
next
  case (Cons c s)
  then show ?case
    using main_char_inv by (fastforce simp: bindR_eq_Inr_iff)
qed

lemma run_fault_inv: "run_fault V s p q d = Inr d' \<Longrightarrow> debugger_inv d \<Longrightarrow> debugger_inv d' \<and> waits d'"
proof (induction s arbitrary: d p q)
  case (Cons c s)
  show ?case
  proof (cases "c = ch CHR ''+''")
    case False
    then obtain p1 q1 d1 where sent: "send_output V p q d = Inr (p1, q1, d1)" and rest: "run_fault V s p1 q1 d1 = Inr d'"
      using Cons.prems by (auto simp: bindR_eq_Inr_iff)
    have "debugger_inv d1"
      using Cons.prems(2) send_output_keeps [OF sent] by (simp add: debugger_inv_def)
    with Cons.IH rest show ?thesis
      by blast
  qed (use Cons.prems in \<open>auto simp: debugger_inv_def waits_def\<close>)
qed (auto simp: debugger_inv_def waits_def)

lemma notified_inv:
  assumes "notified V K uc ids d = Inr d'" and "debugger_inv d" and "waits d" and "variant_ok V"
  shows "debugger_inv d' \<and> waits d' \<and> d_rx d' = []"
proof (cases "d_state d")
  case eventState_none
  with assms(3) show ?thesis
    by (simp add: waits_def)
next
  case eventState_waitingForInputEventLoop
  then have "run_main V K uc ids (d_rx d) d = Inr d'"
    using assms(1) by (simp add: notified_eq)
  from run_main_inv [OF this assms(2,4)] run_main_stops [OF this] show ?thesis
    by simp
next
  case eventState_waitingForInputFault
  then obtain p q d1 where first: "run_fault V (d_rx d) p q d = Inr d1"
    and rest: "(if d_state d1 = eventState_waitingForInputEventLoop then run_main V K uc ids (d_rx d1) d1 else Inr d1) = Inr d'"
    using assms(1,3) by (auto simp: notified_eq waits_def bindR_eq_Inr_iff)
  have d1: "debugger_inv d1 \<and> waits d1"
    by (rule run_fault_inv [OF first assms(2)])
  show ?thesis
  proof (cases "d_state d1 = eventState_waitingForInputEventLoop")
    case True
    with rest have main: "run_main V K uc ids (d_rx d1) d1 = Inr d'"
      by simp
    show ?thesis
      using run_main_inv [OF main _ assms(4)] run_main_stops [OF main] d1 by simp
  next
    case False
    then show ?thesis
      using d1 rest run_fault_stops [OF first] by auto
  qed
qed

lemma fault_event_inv:
  assumes "fault_event V K child label d = Inr (hr, d')" and "debugger_inv d"
  shows "debugger_inv d' \<and> waits d'"
proof -
  obtain err hr b s where run: "gdb_handle_fault K child 0 label (d_output d) (suspend_system K (d_lib d)) = Inr (err, hr, b, s)"
    and rest: "fault_message V (d\<lparr>d_lib := s, d_output := b\<rparr>) = Inr d'"
    using assms(1) by (auto simp: fault_event_def Let_def bindR_eq_Inr_iff)
  have "gdb_inv s"
    using assms(2) by (intro gdb_handle_fault_inv [OF _ run]) (simp add: debugger_inv_def gdb_inv_suspend)
  moreover obtain p q d1 where sent: "send_output V 0 0 (d\<lparr>d_lib := s, d_output := b\<rparr>) = Inr (p, q, d1)"
    and wait: "run_fault V (d_rx d1) p q d1 = Inr d'"
    using rest by (auto simp: fault_message_def bindR_eq_Inr_iff send_output_def split_def)
  ultimately have "debugger_inv d1"
    using assms(2) send_output_keeps [OF sent] by (simp add: debugger_inv_def)
  then show ?thesis
    by (rule run_fault_inv [OF wait])
qed

section \<open>Initialisation\<close>

text \<open>The first \<open>n\<close> debuggees are registered, each with one thread.\<close>

definition registered :: "u64 \<Rightarrow> u64 \<Rightarrow> nat \<Rightarrow> 'k gdb \<Rightarrow> bool" where
  "registered base_vspace base_tcb n s \<longleftrightarrow> curr_inferior_idx s = n \<and>
    (\<forall>i<MAX_PDS. i_enabled (inferiors s i) \<longleftrightarrow> i < n) \<and>
    (\<forall>i<n. i_id (inferiors s i) = of_nat i \<and> i_gdb_id (inferiors s i) = of_nat (i + 1) \<and>
       i_vspace (inferiors s i) = base_vspace + of_nat i \<and> (\<forall>j<MAX_THREADS. t_enabled (thr s i j) \<longleftrightarrow> j = 0) \<and>
       t_id (thr s i 0) = 0 \<and> t_gdb_id (thr s i 0) = 1 \<and> t_tcb (thr s i 0) = base_tcb + of_nat i)"

lemma of_nat_u64_eq: "i < MAX_PDS \<Longrightarrow> j < MAX_PDS \<Longrightarrow> (of_nat i :: u64) = of_nat j \<longleftrightarrow> i = j"
  by (simp add: MAX_PDS_def word_unat_eq_iff unat_of_nat)

lemma register_debugee_next:
  fixes d :: "'k debugger"
  assumes reg: "registered base_vspace base_tcb n (d_lib d)" and n: "n < MAX_PDS" and inv: "gdb_inv (d_lib d)"
    and out: "length (d_output d) = BUFSIZE"
  obtains s b where "register_debugee K base_vspace base_tcb n d = Inr (d\<lparr>d_lib := s, d_output := b\<rparr>)"
    and "registered base_vspace base_tcb (Suc n) s" and "gdb_inv s" and "length b = BUFSIZE"
proof -
  let ?s = "d_lib d"
  have wf: "gdb_wf ?s"
    using inv by (simp add: gdb_inv_def)
  have idx: "curr_inferior_idx ?s = n"
    using reg by (simp add: registered_def)
  have new: "lookup_inferior_from_id (of_nat n) ?s = None"
    using reg n by (auto simp: lookup_inferior_from_id_def find_None_iff registered_def of_nat_u64_eq)
  define s1 where "s1 = upd_inf n (\<lambda>I. I\<lparr>i_enabled := True, i_id := of_nat n,
      i_gdb_id := of_nat (n + 1), i_vspace := base_vspace + of_nat n, i_curr_thread_idx := 0,
      i_threads := (\<lambda>_. zero_thread), i_sw := (\<lambda>_. zero_sw), i_hb := (\<lambda>_. zero_hb),
      i_hw := (\<lambda>_. zero_hw)\<rparr>) (?s\<lparr>curr_inferior_idx := n + 1\<rparr>)"
  have first: "gdb_register_inferior (of_nat n) (base_vspace + of_nat n) ?s = Inr (NoError, s1)"
    using gdb_register_inferior_new [OF wf new, of "base_vspace + of_nat n"] n idx by (simp add: s1_def)
  have inv1: "gdb_inv s1"
    by (rule gdb_register_inferior_inv [OF inv first])
  then have wf1: "gdb_wf s1"
    by (simp add: gdb_inv_def)
  have found: "lookup_inferior_from_id (of_nat n) s1 = Some n"
    using reg n by (auto simp: lookup_inferior_from_id_def find_upt_Some s1_def registered_def of_nat_u64_eq)
  have none: "\<not> t_enabled (thr s1 n j)" and zero: "i_curr_thread_idx (inferiors s1 n) = 0" for j
    by (simp_all add: s1_def zero_thread_def)
  have slot: "next_free (\<lambda>c. t_enabled (thr s1 n (c mod MAX_THREADS))) (i_curr_thread_idx (inferiors s1 n)) MAX_THREADS = (Some 0, 0)"
    unfolding zero by (rule next_free_hit) (simp_all add: none MAX_THREADS_def)
  have no_thread: "lookup_thread_from_id n 0 s1 = None"
    by (simp add: lookup_thread_from_id_def find_None_iff none)
  let ?s2 = "add_thread n 0 0 (base_tcb + of_nat n) s1"
  have "i_curr_thread_idx (inferiors s1 n) + MAX_THREADS \<le> INT_MAX" "64 \<le> length (d_output d)"
    using out by (simp_all add: zero MAX_THREADS_def INT_MAX_def BUFSIZE_def)
  from gdb_register_thread_at [OF wf1 found no_thread slot this, of K "base_tcb + of_nat n"]
  obtain k' where "gdb_register_thread K (of_nat n) 0 (base_tcb + of_nat n) (d_output d) s1 = Inr (NoError,
      (case target_thread s1 of None \<Rightarrow> d_output d | Some u \<Rightarrow> reply (d_output d) (str ''T05clone:'' @
         thread_text ?s2 (n, 0 mod MAX_THREADS) @ str '';thread:'' @ thread_text ?s2 u @ str '';'')),
      ?s2\<lparr>ks := k', target_thread := Some (case target_thread s1 of None \<Rightarrow> (n, 0 mod MAX_THREADS) | Some u \<Rightarrow> u)\<rparr>)"
    by blast
  moreover have "length (case target_thread s1 of None \<Rightarrow> d_output d | Some u \<Rightarrow> reply (d_output d) (str ''T05clone:'' @
         thread_text ?s2 (n, 0 mod MAX_THREADS) @ str '';thread:'' @ thread_text ?s2 u @ str '';'')) = BUFSIZE"
    using out by (simp add: BUFSIZE_def split: option.split)
  ultimately obtain b t where second: "gdb_register_thread K (of_nat n) 0 (base_tcb + of_nat n) (d_output d) s1 =
      Inr (NoError, b, ?s2\<lparr>ks := k', target_thread := t\<rparr>)" and b: "length b = BUFSIZE"
    by blast
  let ?s3 = "?s2\<lparr>ks := k', target_thread := t\<rparr>"
  show thesis
  proof (rule that)
    show "register_debugee K base_vspace base_tcb n d = Inr (d\<lparr>d_lib := ?s3, d_output := b\<rparr>)"
      using first second by (simp add: register_debugee_def)
    show "gdb_inv ?s3"
      using api_step_inv [OF api_step.register_thread [OF second out] inv1] .
    show "registered base_vspace base_tcb (Suc n) ?s3"
      using reg n by (auto simp: registered_def s1_def add_thread_def zero_thread_def less_Suc_eq MAX_THREADS_def)
    show "length b = BUFSIZE"
      by (rule b)
  qed
qed

lemma register_debugees:
  fixes d :: "'k debugger"
  assumes "length (d_output d) = BUFSIZE" and "registered base_vspace base_tcb 0 (d_lib d)" and "gdb_inv (d_lib d)"
  shows "n \<le> MAX_PDS \<Longrightarrow> \<exists>s b. iterR (register_debugee K base_vspace base_tcb) [0..<n] d = Inr (d\<lparr>d_lib := s, d_output := b\<rparr>) \<and>
    registered base_vspace base_tcb n s \<and> gdb_inv s \<and> length b = BUFSIZE"
proof (induction n)
  case 0
  show ?case
    by (rule exI [of _ "d_lib d"], rule exI [of _ "d_output d"]) (simp add: assms)
next
  case (Suc n)
  then obtain s b where run: "iterR (register_debugee K base_vspace base_tcb) [0..<n] d = Inr (d\<lparr>d_lib := s, d_output := b\<rparr>)"
    and ok: "registered base_vspace base_tcb n s" "gdb_inv s" "length b = BUFSIZE"
    by auto
  obtain s' b' where more: "register_debugee K base_vspace base_tcb n (d\<lparr>d_lib := s, d_output := b\<rparr>) =
      Inr ((d\<lparr>d_lib := s, d_output := b\<rparr>)\<lparr>d_lib := s', d_output := b'\<rparr>)"
    and ok': "registered base_vspace base_tcb (Suc n) s'" "gdb_inv s'" "length b' = BUFSIZE"
    by (rule register_debugee_next [where n = n and d = "d\<lparr>d_lib := s, d_output := b\<rparr>"]) (use ok Suc.prems in simp_all)
  have "iterR (register_debugee K base_vspace base_tcb) [0..<Suc n] d = Inr (d\<lparr>d_lib := s', d_output := b'\<rparr>)"
    using run more by (simp add: iterR_append)
  with ok' show ?case
    by blast
qed

lemma registered_start: "registered base_vspace base_tcb 0 (init_gdb k)"
  by (simp add: registered_def init_gdb_def zero_inferior_def)

lemma input_ok_start: "input_ok (replicate BUFSIZE 0)"
  by (simp add: input_ok_def BUFSIZE_def)

lemma init_debugger_run:
  obtains s b where "init_debugger V K uc ids base_vspace base_tcb k = Inr ((start_debugger k)\<lparr>d_lib := suspend_system K s, d_output := b,
      d_state := eventState_waitingForInputEventLoop\<rparr>)"
    and "registered base_vspace base_tcb NUM_DEBUGEES s" and "gdb_inv s" and "length b = BUFSIZE"
proof -
  have start: "length (d_output (start_debugger k)) = BUFSIZE" "registered base_vspace base_tcb 0 (d_lib (start_debugger k))"
      "gdb_inv (d_lib (start_debugger k))" "d_rx (start_debugger k) = []"
    by (simp_all add: start_debugger_def registered_start gdb_inv_init)
  have "NUM_DEBUGEES \<le> MAX_PDS"
    by (simp add: NUM_DEBUGEES_def MAX_PDS_def)
  then obtain s b where "iterR (register_debugee K base_vspace base_tcb) [0..<NUM_DEBUGEES] (start_debugger k) =
      Inr ((start_debugger k)\<lparr>d_lib := s, d_output := b\<rparr>)"
    and ok: "registered base_vspace base_tcb NUM_DEBUGEES s" "gdb_inv s" "length b = BUFSIZE"
    using register_debugees [OF start(1-3)] by blast
  then have init: "init_debugger V K uc ids base_vspace base_tcb k = Inr ((start_debugger k)\<lparr>d_lib := suspend_system K s, d_output := b,
      d_state := eventState_waitingForInputEventLoop\<rparr>)"
    by (simp add: init_debugger_def start_debugger_def)
  show thesis
    by (rule that [OF init ok])
qed

section \<open>Properties\<close>

text \<open>Initialisation ends and leaves the debugger ready: exactly the two debuggees are
  registered, under the identifiers 0 and 1 of the client and 1 and 2 of GDB, each with one
  thread, with the capabilities of its address space and thread; their threads are suspended;
  nothing has been sent, and the event loop waits for a packet.\<close>

lemma debugger_starts:
  assumes "scheduler K running"
  shows "\<exists>d. init_debugger V K uc ids base_vspace base_tcb k = Inr d \<and>
    (\<forall>i<MAX_PDS. i_enabled (inferiors (d_lib d) i) \<longleftrightarrow> i < NUM_DEBUGEES) \<and>
    (\<forall>i<NUM_DEBUGEES. lookup_inferior_from_id (of_nat i) (d_lib d) = Some i \<and>
       lookup_inferior_from_gdb_id (int (i + 1)) (d_lib d) = Inr (Some i) \<and>
       i_vspace (inferiors (d_lib d) i) = base_vspace + of_nat i \<and> lookup_thread_from_id i 0 (d_lib d) = Some 0 \<and>
       t_tcb (thr (d_lib d) i 0) = base_tcb + of_nat i \<and> (\<forall>j<MAX_THREADS. t_enabled (thr (d_lib d) i j) \<longleftrightarrow> j = 0) \<and>
       \<not> running (ks (d_lib d)) (base_tcb + of_nat i)) \<and>
    d_state d = eventState_waitingForInputEventLoop \<and> d_main d = Reading Start \<and> d_tx d = [] \<and> \<not> d_detached d"
proof -
  obtain s b where init: "init_debugger V K uc ids base_vspace base_tcb k = Inr ((start_debugger k)\<lparr>d_lib := suspend_system K s,
      d_output := b, d_state := eventState_waitingForInputEventLoop\<rparr>)"
    and reg: "registered base_vspace base_tcb NUM_DEBUGEES s" and inv: "gdb_inv s"
    by (rule init_debugger_run)
  let ?s = "suspend_system K s"
  have few: "i < MAX_PDS" if "i < NUM_DEBUGEES" for i
    using that by (simp add: NUM_DEBUGEES_def MAX_PDS_def)
  have wf: "gdb_wf ?s"
    using gdb_inv_suspend(1) [OF inv, of K] by (simp add: gdb_inv_def)
  have inf: "lookup_inferior_from_id (of_nat i) ?s = Some i" if "i < NUM_DEBUGEES" for i
    using reg few [OF that] that by (auto simp: lookup_inferior_from_id_def find_upt_Some suspend_inferiors registered_def of_nat_u64_eq)
  have gdb: "lookup_inferior_from_gdb_id (int (i + 1)) ?s = Inr (Some i)" if "i < NUM_DEBUGEES" for i
    using lookup_inferior_gdb_id(1) [OF wf few [OF that]] reg few [OF that] that by (simp add: suspend_inferiors registered_def)
  have thread: "lookup_thread_from_id i 0 ?s = Some 0" if "i < NUM_DEBUGEES" for i
    using reg that by (simp add: lookup_thread_from_id_def find_upt_Some suspend_inferiors registered_def MAX_THREADS_def)
  have "t_tcb (thr s i 0) \<in> t_tcb ` set (live_threads s)" if "i < NUM_DEBUGEES" for i
  proof (rule imageI)
    have "i < MAX_PDS" "0 < MAX_THREADS" "i_enabled (inferiors s i)" "t_enabled (thr s i 0)"
      using reg few [OF that] that by (simp_all add: registered_def MAX_THREADS_def)
    then show "thr s i 0 \<in> set (live_threads s)"
      unfolding set_live_threads by blast
  qed
  then have stopped: "\<not> running (ks ?s) (base_tcb + of_nat i)" if "i < NUM_DEBUGEES" for i
    using reg that by (simp add: suspend_running [OF assms] registered_def)
  show ?thesis
    using reg inf gdb thread stopped
    by (intro exI [of _ "(start_debugger k)\<lparr>d_lib := ?s, d_output := b, d_state := eventState_waitingForInputEventLoop\<rparr>"] conjI init)
      (simp_all add: suspend_inferiors registered_def start_debugger_def)
qed

text \<open>C39: The debugger never stops listening. In every state that arriving characters,
  notifications and faults can lead to, the input buffer is intact, the library's tables are
  consistent, and the debugger waits for input, the fault message only if there is one;
  reading any character leaves neither the buffer nor this invariant; and a notification that
  returns has consumed all characters and waits again.\<close>

theorem debugger_keeps_listening:
  assumes "debugger_reachable V K d" and "variant_ok V"
  shows "d_state d \<noteq> eventState_none \<and> (d_state d = eventState_waitingForInputFault \<longrightarrow> d_fault d \<noteq> None) \<and>
    gdb_inv (d_lib d) \<and> input_ok (d_input d) \<and>
    (\<forall>pt c. d_main d = Reading pt \<longrightarrow> (\<exists>x r. packet_char (echoed V) pt c (d_input d) = Inr (x, r))) \<and>
    (\<forall>uc ids d'. notified V K uc ids d = Inr d' \<longrightarrow> d_rx d' = [] \<and> d_state d' \<noteq> eventState_none)"
proof -
  have inv: "debugger_inv d \<and> waits d"
    using assms(1)
  proof (induction rule: debugger_reachable.induct)
    case (started uc ids base_vspace base_tcb k d)
    obtain s b where "init_debugger V K uc ids base_vspace base_tcb k = Inr ((start_debugger k)\<lparr>d_lib := suspend_system K s,
        d_output := b, d_state := eventState_waitingForInputEventLoop\<rparr>)" and "gdb_inv s"
      by (rule init_debugger_run)
    with started show ?case
      by (auto simp: debugger_inv_def waits_def start_debugger_def gdb_inv_suspend input_ok_start)
  next
    case (step d d')
    from step.hyps(2) step.IH show ?case
    proof (induction rule: debugger_step.induct)
      case (notification uc ids d d')
      then show ?case
        using notified_inv [OF notification(1)] assms(2) by blast
    next
      case (a_fault child label d hr d')
      then show ?case
        using fault_event_inv [OF a_fault(1)] by blast
    qed (simp_all add: arrive_def debugger_inv_def waits_def gdb_inv_ks)
  qed
  have "\<exists>x r. packet_char (echoed V) pt c (d_input d) = Inr (x, r)" if "d_main d = Reading pt" for pt c
    using packet_char_safe [of "d_input d" "echoed V" pt c] inv assms(2) that by (auto simp: debugger_inv_def variant_ok_def)
  moreover have "d_rx d' = [] \<and> d_state d' \<noteq> eventState_none" if "notified V K uc ids d = Inr d'" for uc ids d'
    using notified_inv [OF that] inv assms(2) by (auto simp: waits_def)
  ultimately show ?thesis
    using inv by (auto simp: debugger_inv_def waits_def)
qed

theorem debugger_keeps_listening_witness:
  "\<exists>d. init_debugger serial_variant machine_kernel zero_context (\<lambda>_. (0, 0)) 138 202 machine0 = Inr d \<and>
    d_state d \<noteq> eventState_none \<and> (d_state d = eventState_waitingForInputFault \<longrightarrow> d_fault d \<noteq> None) \<and>
    gdb_inv (d_lib d) \<and> input_ok (d_input d) \<and>
    (\<forall>pt c. d_main d = Reading pt \<longrightarrow> (\<exists>x r. packet_char (echoed serial_variant) pt c (d_input d) = Inr (x, r))) \<and>
    (\<forall>uc ids d'. notified serial_variant machine_kernel uc ids d = Inr d' \<longrightarrow> d_rx d' = [] \<and> d_state d' \<noteq> eventState_none)"
proof -
  obtain s b where init: "init_debugger serial_variant machine_kernel zero_context (\<lambda>_. (0, 0)) 138 202 machine0 =
      Inr ((start_debugger machine0)\<lparr>d_lib := suspend_system machine_kernel s, d_output := b, d_state := eventState_waitingForInputEventLoop\<rparr>)"
    by (rule init_debugger_run)
  show ?thesis
    by (rule exI, rule conjI [OF init debugger_keeps_listening [OF debugger_reachable.started [OF init] variants_ok(1)]])
qed

end
