(* ===== verification/Gdb_Session.thy ===== *)
theory Gdb_Session
  imports Gdb_Debugger
begin

text \<open>
  A debugging session end to end: frames on the wire go through the event loop, the packet
  layer, the packet handlers and the breakpoint tables to the memory of the inferiors, and the
  answers come back as frames. A session sets and clears software breakpoints and ends with a
  detach packet.
\<close>

section \<open>What arrives and what is sent\<close>

definition request_text :: "sw_request \<Rightarrow> u8 list" where
  "request_text q = (case q of
      SetBreak a \<Rightarrow> str ''Z0,'' @ address_text a @ str '',4''
    | ClearBreak a \<Rightarrow> str ''z0,'' @ address_text a @ str '',4'')"

text \<open>Each packet of the client is followed by its acknowledgement of the reply.\<close>

definition session_input :: "sw_request list \<Rightarrow> u8 list" where
  "session_input qs = concat (map (\<lambda>q. frame (request_text q) @ [ch CHR ''+'']) qs)"

definition answer_text :: "bool \<Rightarrow> u8 list" where
  "answer_text ok = str (if ok then ''OK'' else ''E01'')"

definition session_output :: "bool list \<Rightarrow> u8 list" where
  "session_output oks = concat (map (\<lambda>ok. ch CHR ''+'' # frame (answer_text ok)) oks)"

text \<open>The kernel documents that resuming or suspending a thread does not itself write memory.\<close>

definition scheduling_keeps_memory :: "('k, 'r) kernel \<Rightarrow> ('k \<Rightarrow> u64 \<Rightarrow> memory) \<Rightarrow> bool" where
  "scheduling_keeps_memory K M \<longleftrightarrow> (\<forall>k tcb. M (TCB_Resume K k tcb) = M k \<and> M (TCB_Suspend K k tcb) = M k)"

lemma resume_keeps_memory:
  assumes "scheduling_keeps_memory K M"
  shows "M (ks (resume_system K s)) = M (ks s)"
proof -
  have "M (fold (\<lambda>t k. if t_wakeup t then TCB_Resume K k (t_tcb t) else k) ts k) = M k" for ts :: "gdb_thread list" and k
    using assms by (induction ts arbitrary: k) (simp_all add: scheduling_keeps_memory_def)
  then show ?thesis
    by (simp add: resume_system_def for_threads_live)
qed

lemma resume_inferiors: "inferiors (resume_system K s) = inferiors s"
  by (simp add: resume_system_def)

lemma is_hex_plain: "list_all is_hex ds \<Longrightarrow> plain ds"
  by (auto simp: plain_def list_all_iff is_hex_def hexchar_to_int_def)

lemma request_text_plain: "plain (request_text q)" "length (request_text q) < BUFSIZE - 1" "request_text q ! 0 \<noteq> 3"
  "request_text q ! 2 = ch CHR '',''" "2 < length (request_text q)"
  using is_hex_plain [OF address_text_hex] by (auto simp: request_text_def plain_def BUFSIZE_def split: sw_request.split)

lemma answer_text_zero: "0 \<notin> set (answer_text ok)" "length (answer_text ok) \<le> 3"
  by (simp_all add: answer_text_def)

section \<open>One request\<close>

lemma set_sw_only:
  assumes "word_memory K M P"
  shows "only_inferior M i s (snd (set_software_breakpoint K i a s))"
proof -
  have rd: "M (snd (VSpace_Read_Word K k vs a)) = M k" for k vs
    by (rule word_memoryD(1) [OF assms])
  have wr: "M (snd (VSpace_Write_Word K k vs a v)) vs' = M k vs'" if "vs' \<noteq> vs" for k vs v vs'
    using word_memoryD(5,7) [OF assms, where k = k and vs = vs and a = a and v = v] that by (cases "P vs a") simp_all
  show ?thesis
    using set_sw_shape [of s K i a] rd wr
    by (auto simp: only_inferior_def set_software_breakpoint_def Let_def split_def split: option.split)
qed

lemma sw_step_only: "word_memory K M P \<Longrightarrow> only_inferior M i s (snd (sw_step K i q s))"
  by (cases q) (simp_all add: set_sw_only unset_sw_only)

text \<open>The programs, their breakpoints, and the target.\<close>

definition debugging :: "('k \<Rightarrow> u64 \<Rightarrow> memory) \<Rightarrow> (u64 \<Rightarrow> u64 \<Rightarrow> bool) \<Rightarrow> (nat \<Rightarrow> memory) \<Rightarrow> nat \<Rightarrow> u64 \<Rightarrow> 'k gdb \<Rightarrow> u64 set \<Rightarrow> bool" where
  "debugging M P M0 i vs s S \<longleftrightarrow> debuggees M P M0 s \<and> sw_abs M (M0 i) i s S \<and> i < MAX_PDS \<and> i_enabled (inferiors s i) \<and>
     i_vspace (inferiors s i) = vs \<and> (\<exists>u. target_thread s = Some u \<and> t_inferior (thr s (fst u) (snd u)) = Some i)"

lemma sw_abs_unique: "sw_abs M M0 i s S \<Longrightarrow> sw_abs M M1 i s S' \<Longrightarrow> S' = S"
  by (simp add: sw_abs_def)

lemma sw_spec_mapped: "\<forall>a\<in>S. mapped a \<Longrightarrow> \<forall>a\<in>snd (sw_spec mapped q S). mapped a"
  by (cases q) auto

lemma debugging_step:
  assumes wm: "word_memory K M P" and d: "debugging M P M0 i vs s S" and ok: "sw_allowed (P vs) [q] S"
  shows "fst (sw_step K i q s) = fst (sw_spec (P vs) q S)"
    and "debugging M P M0 i vs (snd (sw_step K i q s)) (snd (sw_spec (P vs) q S))"
proof -
  let ?s = "snd (sw_step K i q s)" and ?S = "snd (sw_spec (P vs) q S)"
  have dbg: "debuggees M P M0 s" "sw_abs M (M0 i) i s S" "i < MAX_PDS" "i_enabled (inferiors s i)" "i_vspace (inferiors s i) = vs"
    using d by (simp_all add: debugging_def)
  have step: "fst (sw_step K i q s) = fst (sw_spec (P vs) q S)" "sw_abs M (M0 i) i ?s ?S"
    using sw_step_abs [OF wm dbg(2), of q] ok dbg(5) by simp_all
  show "fst (sw_step K i q s) = fst (sw_spec (P vs) q S)"
    by (rule step(1))
  have only: "only_inferior M i s ?s"
    by (rule sw_step_only [OF wm])
  then have shape: "same_shape s ?s"
    by (simp add: only_inferior_def)
  have mapped: "\<forall>a\<in>S. P vs a"
    using dbg(1,3,4,5) sw_abs_unique [OF dbg(2)] unfolding debuggees_def by blast
  have other: "i_vspace (inferiors s j) \<noteq> i_vspace (inferiors s i)" if "j < MAX_PDS" "i_enabled (inferiors s j)" "j \<noteq> i" for j
    using dbg(1,3,4) that unfolding debuggees_def by blast
  have "\<exists>S'. sw_abs M (M0 j) j ?s S' \<and> (\<forall>a\<in>S'. P (i_vspace (inferiors ?s j)) a)"
    if j: "j < MAX_PDS" "i_enabled (inferiors s j)" for j
  proof (cases "j = i")
    case True
    show ?thesis
      unfolding True same_shape_sel(2) [OF shape] dbg(5) using step(2) sw_spec_mapped [OF mapped] by blast
  next
    case False
    obtain S' where "sw_abs M (M0 j) j s S'" "\<forall>a\<in>S'. P (i_vspace (inferiors s j)) a"
      using dbg(1) j unfolding debuggees_def by blast
    then show ?thesis
      unfolding same_shape_sel(2) [OF shape] using only_inferior_abs(1) [OF only False other [OF j False]] by blast
  qed
  then have "debuggees M P M0 ?s"
    using dbg(1) unfolding debuggees_def same_shape_sel(1,2) [OF shape] by blast
  moreover have "\<exists>u. target_thread ?s = Some u \<and> t_inferior (thr ?s (fst u) (snd u)) = Some i"
    using d shape unfolding debugging_def same_shape_def by auto
  ultimately show "debugging M P M0 i vs ?s ?S"
    unfolding debugging_def same_shape_sel(1,2) [OF shape] using step(2) dbg(3-5) by blast
qed

definition at_rest :: "'k debugger \<Rightarrow> bool" where
  "at_rest d \<longleftrightarrow> d_state d = eventState_waitingForInputEventLoop \<and> d_main d = Reading Start \<and> d_rx d = [] \<and>
     length (d_input d) = BUFSIZE \<and> length (d_output d) = BUFSIZE \<and> d_input d ! 2 \<noteq> ch CHR '':''"

text \<open>A packet whose reply is a short text, on the serial line.\<close>

lemma serve_text:
  fixes d :: "'k debugger"
  assumes rest: "at_rest d" and live: "\<not> d_detached d" and t: "plain t" "length t < BUFSIZE - 1" "t \<noteq> []" "t ! 0 \<noteq> 3"
    and colon: "patch (d_input d) 0 (t @ [0]) ! 2 \<noteq> ch CHR '':''"
    and handler: "gdb_handle_packet K uc ids (t @ 0 # drop (length t + 1) (d_input d)) (d_output d) False (d_lib d) =
      Inr (finish b g (reply c x, s))"
    and reply: "\<not> b \<or> g" "0 \<notin> set x" "length x < BUFSIZE" "length c = BUFSIZE"
  obtains d' where "run_main serial_variant K uc ids (frame t @ [ch CHR ''+'']) d = Inr d'" and "at_rest d'"
    and "d_tx d' = d_tx d @ ch CHR ''+'' # frame x" and "d_lib d' = (if b then resume_system K s else s)" and "d_detached d' = g"
proof -
  let ?buf = "patch (d_input d) 0 (t @ [0])" and ?r = "finish b g (reply c x, s)"
  have idle: "d_state d = eventState_waitingForInputEventLoop" "d_main d = Reading Start" "d_rx d = []" "length (d_input d) = BUFSIZE"
    using rest by (simp_all add: at_rest_def)
  have buf: "?buf = t @ 0 # drop (length t + 1) (d_input d)"
    by (simp add: patch_def)
  have len: "length ?buf = BUFSIZE"
    using idle(4) t(2) by simp
  have got: "packet_loop True (echoed serial_variant) (d_input d) [] (frame t @ [ch CHR ''+'']) =
      Inr ([ch CHR ''+''], Some (0, ?buf, if replies ?r then [ch CHR ''+''] else []))"
    using get_packet_frame [OF t(1,2) idle(4) colon, of "[]" "[ch CHR ''+'']"] reply(1) by (simp add: serial_variant_def replies_def)
  have "?buf ! 0 = t ! 0"
    unfolding buf using t(3) by (cases t) simp_all
  then have keep: "interrupted K (?buf ! 0) d = d"
    using t(4) live by (simp add: interrupted_def)
  have run: "gdb_handle_packet K uc ids ?buf (d_output d) (d_detached d) (d_lib d) = Inr ?r"
    using handler live by (simp add: buf)
  have out: "0 \<in> set (out ?r)" "content (out ?r) = x"
    using reply(2) by (simp_all add: reply_def patch_def content_append_zero)
  obtain d' where "notified serial_variant K uc ids (arrive (frame t @ [ch CHR ''+'']) d) = Inr d'"
    and "d_tx d' = d_tx d @ [ch CHR ''+''] @ (if replies ?r then frame (content (out ?r)) else [])" "d_lib d' = afterwards K ?r"
      "d_state d' = eventState_waitingForInputEventLoop" "d_main d' = Reading Start" "d_rx d' = []"
      "d_detached d' = detached ?r" "d_input d' = ?buf" "d_output d' = out ?r"
    by (rule notified_request [OF idle(1-3) got _ run keep [symmetric] out(1)]) (simp_all add: len sends_def, simp add: BUFSIZE_def)
  then show thesis
    using out(2) reply idle len colon
    by (intro that [of d']) (simp_all add: notified_eq at_rest_def replies_def afterwards_def)
qed

lemma session_step:
  fixes d :: "'k debugger"
  assumes wm: "word_memory K M P" and rest: "at_rest d" and live: "\<not> d_detached d"
    and dbg: "debugging M P M0 i vs (d_lib d) S" and ok: "sw_allowed (P vs) [q] S"
  obtains d' where "run_main serial_variant K uc ids (frame (request_text q) @ [ch CHR ''+'']) d = Inr d'" and "at_rest d'"
    and "\<not> d_detached d'" and "d_tx d' = d_tx d @ session_output [fst (sw_spec (P vs) q S)]"
    and "debugging M P M0 i vs (d_lib d') (snd (sw_spec (P vs) q S))" and "same_shape (d_lib d) (d_lib d')"
proof -
  let ?s = "d_lib d" and ?t = "request_text q"
  obtain on a where q: "q = (if on then SetBreak a else ClearBreak a)"
    by (cases q) (metis (full_types))+
  have packet: "?t @ 0 # z = debug_packet on (ch CHR ''0'') (address_text a) (str ''4'') (0 # z)" for z
    by (cases on) (simp_all add: q request_text_def debug_packet_def)
  obtain u where u: "target_thread ?s = Some u" "t_inferior (thr ?s (fst u) (snd u)) = Some i"
    and vs: "i_vspace (inferiors ?s i) = vs"
    using dbg by (auto simp: debugging_def)
  have len: "length (d_output d) = BUFSIZE" "length (d_input d) = BUFSIZE"
    using rest by (simp_all add: at_rest_def)
  have four: "list_all is_hex (str ''4'')" "hex_number (str ''4'') = 4"
    by (simp_all add: is_hex_def hexchar_to_int_def hex_number_def)
  let ?r = "sw_step K i q ?s"
  have handler: "gdb_handle_packet K uc ids (?t @ 0 # drop (length ?t + 1) (d_input d)) (d_output d) False ?s =
      Inr (finish False False (reply (d_output d) (answer_text (fst ?r)), snd ?r))"
    unfolding packet
    using debug_packet_result [OF u len(1) _ _ address_text_hex _ four(1), of "ch CHR ''0''" a "0 # drop (length ?t + 1) (d_input d)" K uc ids on False,
        unfolded four(2) address_text_number]
    by (cases on) (simp_all add: debug_op_def q answer_text_def split_def is_hex_def hexchar_to_int_def)
  have "patch (d_input d) 0 (?t @ [0]) ! 2 = ch CHR '',''"
    using request_text_plain(4,5) [of q] by (simp add: patch_def nth_append)
  then have colon: "patch (d_input d) 0 (?t @ [0]) ! 2 \<noteq> ch CHR '':''"
    by simp
  have t: "?t \<noteq> []"
    using request_text_plain(5) [of q] by auto
  have short: "length (answer_text (fst ?r)) < BUFSIZE"
    using answer_text_zero(2) [of "fst ?r"] by (simp add: BUFSIZE_def)
  obtain d' where d': "run_main serial_variant K uc ids (frame ?t @ [ch CHR ''+'']) d = Inr d'" "at_rest d'"
    "d_tx d' = d_tx d @ ch CHR ''+'' # frame (answer_text (fst ?r))" "d_lib d' = (if False then resume_system K (snd ?r) else snd ?r)"
    "d_detached d' = False"
    by (rule serve_text [OF rest live request_text_plain(1,2) t request_text_plain(3) colon handler _ answer_text_zero(1) short len(1)]) simp
  note step = debugging_step [OF wm dbg ok]
  have shape: "same_shape ?s (snd ?r)"
    using sw_step_only [OF wm] by (simp add: only_inferior_def)
  show thesis
    by (rule that [OF d'(1,2)]) (use d'(3-5) step shape in \<open>simp_all add: session_output_def\<close>)
qed

text \<open>A sequence of requests.\<close>

lemma session_run:
  fixes d :: "'k debugger"
  assumes wm: "word_memory K M P" and "at_rest d" and "\<not> d_detached d"
    and "debugging M P M0 i vs (d_lib d) S" and "sw_allowed (P vs) qs S"
  shows "\<exists>d'. run_main serial_variant K uc ids (session_input qs) d = Inr d' \<and> at_rest d' \<and> \<not> d_detached d' \<and>
    d_tx d' = d_tx d @ session_output (fst (sw_spec_run (P vs) qs S)) \<and>
    debugging M P M0 i vs (d_lib d') (snd (sw_spec_run (P vs) qs S)) \<and> same_shape (d_lib d) (d_lib d')"
  using assms(2-5)
proof (induction qs arbitrary: d S)
  case Nil
  then show ?case
    by (auto simp: session_input_def session_output_def at_rest_def)
next
  case (Cons q qs)
  have "sw_allowed (P vs) [q] S"
    using Cons.prems(4) by simp
  from session_step [OF wm Cons.prems(1-3) this]
  obtain d1 where d1: "run_main serial_variant K uc ids (frame (request_text q) @ [ch CHR ''+'']) d = Inr d1" "at_rest d1" "\<not> d_detached d1"
    "d_tx d1 = d_tx d @ session_output [fst (sw_spec (P vs) q S)]" "debugging M P M0 i vs (d_lib d1) (snd (sw_spec (P vs) q S))"
    "same_shape (d_lib d) (d_lib d1)"
    by blast
  have "sw_allowed (P vs) qs (snd (sw_spec (P vs) q S))"
    using Cons.prems(4) by simp
  from Cons.IH [OF d1(2,3,5) this]
  obtain d2 where d2: "run_main serial_variant K uc ids (session_input qs) d1 = Inr d2" "at_rest d2" "\<not> d_detached d2"
    "d_tx d2 = d_tx d1 @ session_output (fst (sw_spec_run (P vs) qs (snd (sw_spec (P vs) q S))))"
    "debugging M P M0 i vs (d_lib d2) (snd (sw_spec_run (P vs) qs (snd (sw_spec (P vs) q S))))"
    "same_shape (d_lib d1) (d_lib d2)"
    by blast
  have "session_input (q # qs) = (frame (request_text q) @ [ch CHR ''+'']) @ session_input qs"
    by (simp add: session_input_def)
  then have "run_main serial_variant K uc ids (session_input (q # qs)) d = Inr d2"
    using d1(1) d2(1) run_main_append [of serial_variant K uc ids "frame (request_text q) @ [ch CHR ''+'']" "session_input qs" d] by simp
  moreover have "d_tx d2 = d_tx d @ session_output (fst (sw_spec_run (P vs) (q # qs) S))"
    using d1(4) d2(4) by (simp add: session_output_def split_def Let_def)
  ultimately show ?case
    using d2(2,3,5) same_shape_trans [OF d1(6) d2(6)] by (auto simp: split_def Let_def)
qed

section \<open>The whole session\<close>

lemma detach_packet:
  assumes "length b = BUFSIZE"
  shows "gdb_handle_packet K uc ids (ch CHR ''D'' # p) b d s =
    Inr (finish True True (reply (reply b []) (str ''OK''), fold (detach_inferior K) [0..<MAX_PDS] s))"
  using assms by (simp add: gdb_handle_packet_eq [OF assms] handle_detach_def copy_reply_ok)

text \<open>C1: A debugging session, from the wire to memory and back. The debugger waits for packets;
  frames arrive that set and clear software breakpoints in the target inferior, in any order
  that the code supports, and then a frame that detaches. Each request is acknowledged and
  answered by one frame, with \<open>OK\<close> or \<open>E01\<close> as the specification on sets says; in the end GDB
  is detached, the memory of every inferior is byte for byte what it was before the first
  breakpoint, no breakpoint is left in the tables, and the debugger waits for the next packet.\<close>

theorem session_restores_programs:
  assumes "word_memory K M P" and "breakpoints_keep_memory K M" and "scheduling_keeps_memory K M"
    and "at_rest d" and "\<not> d_detached d" and "debugging M P M0 i vs (d_lib d) S" and "sw_allowed (P vs) qs S"
  shows "\<exists>d'. notified serial_variant K uc ids (arrive (session_input qs @ frame (str ''D'') @ [ch CHR ''+'']) d) = Inr d' \<and>
    d_tx d' = d_tx d @ session_output (fst (sw_spec_run (P vs) qs S)) @ ch CHR ''+'' # frame (str ''OK'') \<and>
    (\<forall>j<MAX_PDS. i_enabled (inferiors (d_lib d) j) \<longrightarrow>
       M (ks (d_lib d')) (i_vspace (inferiors (d_lib d) j)) = M0 j \<and> clean (inferiors (d_lib d') j)) \<and>
    d_detached d' \<and> at_rest d'"
proof -
  obtain d1 where d1: "run_main serial_variant K uc ids (session_input qs) d = Inr d1" "at_rest d1" "\<not> d_detached d1"
    "d_tx d1 = d_tx d @ session_output (fst (sw_spec_run (P vs) qs S))" "debugging M P M0 i vs (d_lib d1) (snd (sw_spec_run (P vs) qs S))"
    and shape: "same_shape (d_lib d) (d_lib d1)"
    using session_run [OF assms(1,4-7)] by blast
  let ?s = "fold (detach_inferior K) [0..<MAX_PDS] (d_lib d1)"
  have len: "length (d_output d1) = BUFSIZE" "length (d_input d1) = BUFSIZE" "d_input d1 ! 2 \<noteq> ch CHR '':''"
    using d1(2) by (simp_all add: at_rest_def)
  have D: "plain (str ''D'')" "length (str ''D'') < BUFSIZE - 1" "str ''D'' \<noteq> []" "str ''D'' ! 0 \<noteq> 3"
    by (simp_all add: plain_def BUFSIZE_def)
  have colon: "patch (d_input d1) 0 (str ''D'' @ [0]) ! 2 \<noteq> ch CHR '':''"
    using len(2,3) by (simp add: patch_def BUFSIZE_def numeral_2_eq_2)
  have handler: "gdb_handle_packet K uc ids (str ''D'' @ 0 # drop (length (str ''D'') + 1) (d_input d1)) (d_output d1) False (d_lib d1) =
      Inr (finish True True (reply (reply (d_output d1) []) (str ''OK''), ?s))"
    using detach_packet [OF len(1), of K uc ids "0 # drop 2 (d_input d1)" False "d_lib d1"] by (simp add: numeral_2_eq_2)
  obtain d2 where d2: "run_main serial_variant K uc ids (frame (str ''D'') @ [ch CHR ''+'']) d1 = Inr d2" "at_rest d2"
    "d_tx d2 = d_tx d1 @ ch CHR ''+'' # frame (str ''OK'')" "d_lib d2 = (if True then resume_system K ?s else ?s)" "d_detached d2 = True"
    by (rule serve_text [OF d1(2,3) D colon handler]) (simp_all add: len(1) BUFSIZE_def)
  have restored: "M (ks ?s) (i_vspace (inferiors (d_lib d1) j)) = M0 j \<and> clean (inferiors ?s j)"
    if "j < MAX_PDS" "i_enabled (inferiors (d_lib d1) j)" for j
    using detach_all [OF assms(1,2) _ order_refl, of M0 "d_lib d1"] d1(5) that by (auto simp: debugging_def)
  have "M (ks (d_lib d2)) (i_vspace (inferiors (d_lib d) j)) = M0 j \<and> clean (inferiors (d_lib d2) j)"
    if "j < MAX_PDS" "i_enabled (inferiors (d_lib d) j)" for j
    using restored [of j] that d2(4) by (simp add: same_shape_sel [OF shape] resume_keeps_memory [OF assms(3)] resume_inferiors)
  moreover have "notified serial_variant K uc ids (arrive (session_input qs @ frame (str ''D'') @ [ch CHR ''+'']) d) = Inr d2"
    using assms(4) d1(1) d2(1) by (simp add: notified_eq at_rest_def run_main_append)
  ultimately show ?thesis
    using d1(4) d2(2,3,5) by (intro exI [of _ d2]) simp
qed

lemma one_thread_debugging: "debugging mc_mem mc_mapped (\<lambda>i _. 0) 0 4 one_thread {}"
proof -
  have en: "i_enabled (inferiors one_thread i) \<longleftrightarrow> i = 0" for i
    by (simp add: one_thread_def init_gdb_def zero_inferior_def)
  have "sw_abs mc_mem (mc_mem (ks one_thread) (i_vspace (inferiors one_thread 0))) 0 one_thread {}"
    by (rule sw_abs_fresh) (simp add: one_thread_def)
  then have "sw_abs mc_mem (\<lambda>_. 0) 0 one_thread {}"
    by (simp add: one_thread_def machine0_def init_gdb_def)
  then show ?thesis
    unfolding debugging_def debuggees_def en by (auto simp: mc_mapped_def one_thread_def MAX_PDS_def)
qed

theorem session_restores_programs_witness:
  "\<exists>d'. notified serial_variant machine_kernel zero_context (\<lambda>_. (0, 0))
      (arrive (session_input [SetBreak 4096, SetBreak 8192, ClearBreak 4096, SetBreak 0x10] @ frame (str ''D'') @ [ch CHR ''+''])
        (running_debugger\<lparr>d_lib := one_thread\<rparr>)) = Inr d' \<and>
    d_tx d' = session_output [True, True, True, False] @ ch CHR ''+'' # frame (str ''OK'') \<and>
    mc_mem (ks (d_lib d')) 4 = (\<lambda>_. 0)"
proof -
  let ?qs = "[SetBreak 4096, SetBreak 8192, ClearBreak 4096, SetBreak 0x10]" and ?d = "running_debugger\<lparr>d_lib := one_thread\<rparr>"
  have "scheduling_keeps_memory machine_kernel mc_mem"
    by (simp add: scheduling_keeps_memory_def machine_kernel_def)
  moreover have "at_rest ?d" "\<not> d_detached ?d" "d_tx ?d = []"
    by (simp_all add: at_rest_def running_debugger_def start_debugger_def BUFSIZE_def)
  moreover have "debugging mc_mem mc_mapped (\<lambda>i _. 0) 0 4 (d_lib ?d) {}"
    by (simp add: one_thread_debugging)
  moreover have "sw_allowed (mc_mapped 4) ?qs {}" and spec: "fst (sw_spec_run (mc_mapped 4) ?qs {}) = [True, True, True, False]"
    by (simp_all add: mc_mapped_def apart_def MAX_SW_BREAKS_def insert_Diff_if)
  moreover note session_restores_programs [OF machine_laws(1,3) calculation(1,2,3,5,6), where uc = zero_context and ids = "\<lambda>_. (0, 0)"]
  ultimately obtain d' where "notified serial_variant machine_kernel zero_context (\<lambda>_. (0, 0))
      (arrive (session_input ?qs @ frame (str ''D'') @ [ch CHR ''+'']) ?d) = Inr d'"
    "d_tx d' = d_tx ?d @ session_output (fst (sw_spec_run (mc_mapped 4) ?qs {})) @ ch CHR ''+'' # frame (str ''OK'')"
    "\<forall>j<MAX_PDS. i_enabled (inferiors (d_lib ?d) j) \<longrightarrow>
       mc_mem (ks (d_lib d')) (i_vspace (inferiors (d_lib ?d) j)) = (\<lambda>_. 0) \<and> clean (inferiors (d_lib d') j)"
    by blast
  moreover have "i_enabled (inferiors (d_lib ?d) 0)" "i_vspace (inferiors (d_lib ?d) 0) = 4" "0 < MAX_PDS"
    by (simp_all add: one_thread_def MAX_PDS_def)
  ultimately show ?thesis
    using spec \<open>d_tx ?d = []\<close> by (intro exI [of _ d']) auto
qed

end
