(* ===== verification/Gdb_Vcont.thy ===== *)
theory Gdb_Vcont
  imports Gdb_Control
begin

text \<open>
  Whole \<open>vCont\<close> packets: a grammar of the texts that name registered threads, what the actions
  of a packet mean together, and that \<open>handle_vcont\<close> carries this out.
\<close>

section \<open>Requests\<close>

text \<open>
  A request is a list of actions, each a step (\<open>True\<close>) or a continuation of the threads that its
  text names. \<open>ids\<close> gives the values that the uninitialised variables have where a thread
  identifier is parsed. The end of the packet has to follow \<open>-1\<close>, the identifier of all threads.
\<close>

definition threads_of :: "'k gdb \<Rightarrow> nat \<Rightarrow> (nat \<times> nat) list" where
  "threads_of s i = map (Pair i) (filter (\<lambda>j. t_enabled (thr s i j)) [0..<MAX_THREADS])"

inductive naming :: "(cptr \<Rightarrow> u32 \<times> u32) \<Rightarrow> 'k gdb \<Rightarrow> cptr \<Rightarrow> (nat \<times> nat) list \<Rightarrow> cptr \<Rightarrow> bool" for ids s where
  one: "p = ch CHR ''p'' # ds @ ch CHR ''.'' # es @ t \<Longrightarrow> names ds es (fst (ids p)) (snd (ids p)) s i j \<Longrightarrow> t \<noteq> [] \<Longrightarrow> \<not> is_hex (hd t) \<Longrightarrow>
    (i, j) \<in> set (thread_list s) \<Longrightarrow> t_gdb_id (thr s i j) = of_nat (j + 1) \<Longrightarrow> naming ids s p [(i, j)] t"
| all: "p = ch CHR ''p'' # ds @ ch CHR ''.'' # ch CHR ''-'' # ch CHR ''1'' # 0 # r \<Longrightarrow> list_all is_hex ds \<Longrightarrow> length ds = 1 \<or> length ds = 2 \<Longrightarrow>
    sint (id_value ds (fst (ids p))) = int (i + 1) \<Longrightarrow> i < MAX_PDS \<Longrightarrow> i_enabled (inferiors s i) \<Longrightarrow> naming ids s p (threads_of s i) (0 # r)"

inductive targets_text :: "(cptr \<Rightarrow> u32 \<times> u32) \<Rightarrow> 'k gdb \<Rightarrow> cptr \<Rightarrow> (nat \<times> nat) list \<Rightarrow> cptr \<Rightarrow> bool" for ids s where
  last_target: "naming ids s p us t \<Longrightarrow> hd t \<noteq> ch CHR '':'' \<Longrightarrow> targets_text ids s (ch CHR '':'' # p) us t"
| more_targets: "naming ids s p us q \<Longrightarrow> hd q = ch CHR '':'' \<Longrightarrow> targets_text ids s q vs t \<Longrightarrow> targets_text ids s (ch CHR '':'' # p) (us @ vs) t"

type_synonym vcont_request = "(bool \<times> (nat \<times> nat) list) list"

inductive vcont_text :: "(cptr \<Rightarrow> u32 \<times> u32) \<Rightarrow> 'k gdb \<Rightarrow> cptr \<Rightarrow> vcont_request \<Rightarrow> bool" for ids s where
  end_of_packet: "vcont_text ids s (0 # r) []"
| action: "targets_text ids s p us t \<Longrightarrow> vcont_text ids s t as \<Longrightarrow>
    vcont_text ids s (ch CHR '';'' # ch (if step then CHR ''s'' else CHR ''c'') # p) ((step, us) # as)"

text \<open>The first action that names a thread is the one for it.\<close>

fun fresh :: "(nat \<times> nat) set \<Rightarrow> (nat \<times> nat) list \<Rightarrow> (nat \<times> nat) list" where
  "fresh seen [] = []"
| "fresh seen (u # us) = (if u \<in> seen then fresh seen us else u # fresh (insert u seen) us)"

fun decided :: "(nat \<times> nat) set \<Rightarrow> vcont_request \<Rightarrow> ((nat \<times> nat) \<times> bool) list" where
  "decided seen [] = []"
| "decided seen ((step, us) # as) = map (\<lambda>u. (u, step)) (fresh seen us) @ decided (seen \<union> set us) as"

text \<open>
  Which threads are to run: each action starts from all threads or from none, so that the last
  one decides: after a continuation all are, after a step those that it was the first to name.
\<close>

fun woken :: "(nat \<times> nat) set \<Rightarrow> (nat \<times> nat \<Rightarrow> bool) \<Rightarrow> vcont_request \<Rightarrow> nat \<times> nat \<Rightarrow> bool" where
  "woken seen w [] u = w u"
| "woken seen w ((step, us) # as) u = woken (seen \<union> set us) (\<lambda>u. \<not> step \<or> u \<in> set us \<and> u \<notin> seen) as u"

lemma woken_Cons: "woken seen w ((step, us) # as) = woken (seen \<union> set us) (\<lambda>u. \<not> step \<or> u \<in> set us \<and> u \<notin> seen) as"
  by (rule ext) simp

definition steppings :: "('k, 'r) kernel \<Rightarrow> 'k gdb \<Rightarrow> ((nat \<times> nat) \<times> bool) list \<Rightarrow> 'k \<Rightarrow> 'k" where
  "steppings K s = fold (\<lambda>((i, j), step) k. TCB_ConfigureSingleStepping K k (t_tcb (thr s i j)) 0 (if step then 1 else 0))"

section \<open>The state while a packet is carried out\<close>

definition progress_of ::
  "('k, 'r) kernel \<Rightarrow> 'k gdb \<Rightarrow> (nat \<times> nat) set \<Rightarrow> ((nat \<times> nat) \<times> bool) list \<Rightarrow> (nat \<times> nat \<Rightarrow> bool) \<Rightarrow> 'k gdb \<Rightarrow> bool"
where
  "progress_of K s0 seen cs w s \<longleftrightarrow> curr_inferior_idx s = curr_inferior_idx s0 \<and> target_thread s = target_thread s0 \<and>
     (\<forall>i j. handled s i j = ((i, j) \<in> seen)) \<and> ks s = steppings K s0 cs (ks s0) \<and>
     (\<forall>i. inferiors s i = (inferiors s0 i)\<lparr>i_threads := (\<lambda>j. if (i, j) \<in> set (thread_list s0)
        then (thr s0 i j)\<lparr>t_ss_enabled := (t_ss_enabled (thr s0 i j) \<or> ((i, j), True) \<in> set cs), t_wakeup := w (i, j)\<rparr>
        else thr s0 i j)\<rparr>)"

lemma progress_sel:
  assumes "progress_of K s0 seen cs w s"
  shows "i_enabled (inferiors s i) = i_enabled (inferiors s0 i)" "i_id (inferiors s i) = i_id (inferiors s0 i)"
    "i_gdb_id (inferiors s i) = i_gdb_id (inferiors s0 i)" "i_curr_thread_idx (inferiors s i) = i_curr_thread_idx (inferiors s0 i)"
    "t_enabled (thr s i j) = t_enabled (thr s0 i j)" "t_inferior (thr s i j) = t_inferior (thr s0 i j)"
    "t_id (thr s i j) = t_id (thr s0 i j)" "t_gdb_id (thr s i j) = t_gdb_id (thr s0 i j)" "t_tcb (thr s i j) = t_tcb (thr s0 i j)"
    "handled s i j = ((i, j) \<in> seen)"
  using assms by (simp_all add: progress_of_def)

lemma progress_wf: "progress_of K s0 seen cs w s \<Longrightarrow> gdb_wf s0 \<Longrightarrow> gdb_wf s"
  by (erule gdb_wf_frame) (simp_all add: progress_sel, simp_all add: progress_of_def)

lemma progress_wakeups:
  assumes "progress_of K s0 seen cs w s"
  shows "progress_of K s0 seen cs (\<lambda>_. b) (set_wakeups b s)"
proof -
  have "marked b (inferiors s i) = (inferiors s0 i)\<lparr>i_threads := (\<lambda>j. if (i, j) \<in> set (thread_list s0)
        then (thr s0 i j)\<lparr>t_ss_enabled := (t_ss_enabled (thr s0 i j) \<or> ((i, j), True) \<in> set cs), t_wakeup := b\<rparr> else thr s0 i j)\<rparr>"
    if "i < MAX_PDS" for i
    using assms that by (auto simp: progress_of_def marked_def mark_def thread_list_iff fun_eq_iff)
  then show ?thesis
    using assms by (auto simp: progress_of_def thread_list_iff)
qed

lemma progress_thread:
  assumes "progress_of K s0 seen cs w s" and "(i, j) \<in> set (thread_list s0)" and "(i, j) \<notin> seen"
  shows "progress_of K s0 (insert (i, j) seen) (cs @ [((i, j), step)]) (w((i, j) := True))
    (upd_thr i j (\<lambda>t. t\<lparr>t_ss_enabled := (step \<or> t_ss_enabled t), t_wakeup := True\<rparr>)
      (s\<lparr>ks := TCB_ConfigureSingleStepping K (ks s) (t_tcb (thr s i j)) 0 (if step then 1 else 0),
         handled := (handled s)(i := (handled s i)(j := True))\<rparr>))"
proof -
  let ?t = "\<lambda>cs w j. if (i, j) \<in> set (thread_list s0)
      then (thr s0 i j)\<lparr>t_ss_enabled := (t_ss_enabled (thr s0 i j) \<or> ((i, j), True) \<in> set cs), t_wakeup := w (i, j)\<rparr> else thr s0 i j"
  have inf: "i_threads (inferiors s i) = ?t cs w" "inferiors s i = (inferiors s0 i)\<lparr>i_threads := ?t cs w\<rparr>"
    using assms(1) by (simp_all add: progress_of_def)
  have "(?t cs w)(j := (?t cs w j)\<lparr>t_ss_enabled := (step \<or> t_ss_enabled (?t cs w j)), t_wakeup := True\<rparr>) =
      ?t (cs @ [((i, j), step)]) (w((i, j) := True))"
    using assms(2) by (auto simp: fun_eq_iff disj_left_commute)
  then show ?thesis
    using assms inf by (auto simp: progress_of_def steppings_def cong: if_cong)
qed

lemma vcont_threads:
  assumes "progress_of K s0 seen cs w s" and "i < MAX_PDS" and "i_enabled (inferiors s0 i)" and "\<forall>j\<in>set js. j < MAX_THREADS"
    and "us = map (Pair i) (filter (\<lambda>j. t_enabled (thr s0 i j)) js)"
  shows "\<exists>s'. iterR (vcont_thread K step (Some i)) (map int js) s = Inr s' \<and>
    progress_of K s0 (seen \<union> set us) (cs @ map (\<lambda>u. (u, step)) (fresh seen us)) (\<lambda>u. w u \<or> u \<in> set us \<and> u \<notin> seen) s'"
  using assms
proof (induction js arbitrary: seen cs w s us)
  case Nil
  then show ?case
    by simp
next
  case (Cons j js)
  let ?us = "map (Pair i) (filter (\<lambda>j. t_enabled (thr s0 i j)) js)"
  have j: "j < MAX_THREADS" "\<forall>j\<in>set js. j < MAX_THREADS"
    using Cons.prems(4) by simp_all
  note rest = Cons.IH [OF _ Cons.prems(2,3) j(2) refl]
  note here = progress_sel(5,10) [OF Cons.prems(1), of i j]
  show ?case
  proof (cases "t_enabled (thr s0 i j) \<and> (i, j) \<notin> seen")
    case True
    then have live: "(i, j) \<in> set (thread_list s0)"
      using Cons.prems(2,3) j by (simp add: thread_list_iff)
    have run: "vcont_thread K step (Some i) (int j) s =
      Inr (upd_thr i j (\<lambda>t. t\<lparr>t_ss_enabled := (step \<or> t_ss_enabled t), t_wakeup := True\<rparr>)
        (s\<lparr>ks := TCB_ConfigureSingleStepping K (ks s) (t_tcb (thr s i j)) 0 (if step then 1 else 0),
           handled := (handled s)(i := (handled s i)(j := True))\<rparr>))"
      by (rule vcont_thread_live [OF j(1)]) (use True here in simp_all)
    have w: "(\<lambda>u. (w((i, j) := True)) u \<or> u \<in> set ?us \<and> u \<notin> insert (i, j) seen) = (\<lambda>u. w u \<or> u \<in> set us \<and> u \<notin> seen)"
      using True by (auto simp: Cons.prems(5))
    have seen: "insert (i, j) seen \<union> set ?us = seen \<union> set us" and new: "map (\<lambda>u. (u, step)) (fresh seen us) = ((i, j), step) # map (\<lambda>u. (u, step)) (fresh (insert (i, j) seen) ?us)"
      using True by (auto simp: Cons.prems(5))
    show ?thesis
      using rest [OF progress_thread [OF Cons.prems(1) live, where step = step]] True run w seen new by simp
  next
    case False
    have "vcont_thread K step (Some i) (int j) s = Inr s"
      using False here j by (auto simp: vcont_thread_def array_idx_def)
    moreover have "seen \<union> set ?us = seen \<union> set us" "fresh seen us = fresh seen ?us" "(\<lambda>u. w u \<or> u \<in> set ?us \<and> u \<notin> seen) = (\<lambda>u. w u \<or> u \<in> set us \<and> u \<notin> seen)"
      using False by (auto simp: Cons.prems(5))
    ultimately show ?thesis
      using rest [OF Cons.prems(1)] by simp
  qed
qed


section \<open>Carrying out a packet\<close>

lemma naming_step:
  assumes "naming ids s0 p us t" and "gdb_wf s0" and "progress_of K s0 seen cs w s"
  obtains v h s' where "parse_thread_id p (fst (ids p)) (snd (ids p)) = Inr (Some t, v, h)"
    and "vcont_target K step (sint v) (sint h) s = Inr s'" and "t \<noteq> []"
    and "progress_of K s0 (seen \<union> set us) (cs @ map (\<lambda>u. (u, step)) (fresh seen us)) (\<lambda>u. w u \<or> u \<in> set us \<and> u \<notin> seen) s'"
  using assms(1)
proof cases
  case (one ds es i j)
  have live: "i < MAX_PDS" "j < MAX_THREADS" "i_enabled (inferiors s0 i)" "t_enabled (thr s0 i j)"
    using one(6) by (simp_all add: thread_list_iff)
  obtain v h where parse: "parse_thread_id p (fst (ids p)) (snd (ids p)) = Inr (Some t, v, h)"
    and v: "sint v = int (i + 1)" and h: "sint h = uint (t_gdb_id (thr s0 i j))"
    unfolding one(2) by (rule names_parse [OF one(3) [unfolded one(2)] one(4,5)])
  have h': "sint h = int (j + 1)"
    using h one(7) uint_id [of j] live(2) by (simp add: MAX_THREADS_def)
  obtain s' where s': "iterR (vcont_thread K step (Some i)) (map int [j]) s = Inr s'"
    "progress_of K s0 (seen \<union> set us) (cs @ map (\<lambda>u. (u, step)) (fresh seen us)) (\<lambda>u. w u \<or> u \<in> set us \<and> u \<notin> seen) s'"
    using vcont_threads [OF assms(3) live(1,3), of "[j]" us step] live one(1) by auto
  have "id_to_idx (int (j + 1)) MAX_THREADS = Inr (int j)" "[int j..int (j + 1) - 1] = map int [j]"
    using live(2) by (simp_all add: id_to_idx_def c_mod_def)
  then have "vcont_target K step (sint v) (sint h) s = Inr s'"
    using s'(1) live lookup_inferior_gdb_id(1) [OF progress_wf [OF assms(3,2)], of i] progress_sel(1) [OF assms(3)]
    unfolding vcont_target_def v h' by simp
  then show thesis
    by (rule that [OF parse _ one(4) s'(2)])
next
  case (all ds r i)
  have parse: "parse_thread_id p (fst (ids p)) (snd (ids p)) = Inr (Some t, id_value ds (fst (ids p)), -1)"
    unfolding all(2,3) by (rule parse_thread_id_all [OF all(4,5)])
  obtain s' where s': "iterR (vcont_thread K step (Some i)) (map int [0..<MAX_THREADS]) s = Inr s'"
    "progress_of K s0 (seen \<union> set us) (cs @ map (\<lambda>u. (u, step)) (fresh seen us)) (\<lambda>u. w u \<or> u \<in> set us \<and> u \<notin> seen) s'"
    using vcont_threads [OF assms(3) all(7,8), of "[0..<MAX_THREADS]" us step] all(1) by (auto simp: threads_of_def)
  have "[0..int MAX_THREADS - 1] = map int [0..<MAX_THREADS]"
    by (rule upto_map_int)
  then have "vcont_target K step (sint (id_value ds (fst (ids p)))) (sint (-1 :: u32)) s = Inr s'"
    using s'(1) all(7,8) lookup_inferior_gdb_id(1) [OF progress_wf [OF assms(3,2)], of i] progress_sel(1) [OF assms(3)]
    unfolding vcont_target_def all(6) by simp
  then show thesis
    by (rule that [OF parse _ _ s'(2)]) (simp add: all(2))
qed

lemma targets_step:
  assumes "targets_text ids s0 p us t" and "gdb_wf s0" and "progress_of K s0 seen cs w s"
  shows "\<exists>s'. vcont_targets K ids step p s = Inr (t, s') \<and>
    progress_of K s0 (seen \<union> set us) (cs @ map (\<lambda>u. (u, step)) (fresh seen us)) (\<lambda>u. w u \<or> u \<in> set us \<and> u \<notin> seen) s'"
  using assms(1,3)
proof (induction arbitrary: seen cs w s rule: targets_text.induct)
  case (last_target p us t)
  obtain v h s' where "parse_thread_id p (fst (ids p)) (snd (ids p)) = Inr (Some t, v, h)"
    and "vcont_target K step (sint v) (sint h) s = Inr s'" and "t \<noteq> []"
    and "progress_of K s0 (seen \<union> set us) (cs @ map (\<lambda>u. (u, step)) (fresh seen us)) (\<lambda>u. w u \<or> u \<in> set us \<and> u \<notin> seen) s'"
    by (rule naming_step [OF last_target(1) assms(2) last_target(3)])
  then show ?case
    using last_target(2) by (cases t) simp_all
next
  case (more_targets p us q vs t)
  obtain v h s1 where parse: "parse_thread_id p (fst (ids p)) (snd (ids p)) = Inr (Some q, v, h)"
    and run: "vcont_target K step (sint v) (sint h) s = Inr s1" and "q \<noteq> []"
    and s1: "progress_of K s0 (seen \<union> set us) (cs @ map (\<lambda>u. (u, step)) (fresh seen us)) (\<lambda>u. w u \<or> u \<in> set us \<and> u \<notin> seen) s1"
    by (rule naming_step [OF more_targets(1) assms(2) more_targets(5)])
  obtain s2 where s2: "vcont_targets K ids step q s1 = Inr (t, s2)"
    "progress_of K s0 (seen \<union> set us \<union> set vs) ((cs @ map (\<lambda>u. (u, step)) (fresh seen us)) @ map (\<lambda>u. (u, step)) (fresh (seen \<union> set us) vs))
       (\<lambda>u. (w u \<or> u \<in> set us \<and> u \<notin> seen) \<or> u \<in> set vs \<and> u \<notin> seen \<union> set us) s2"
    using more_targets.IH [OF s1] by blast
  have new: "fresh seen (us @ vs) = fresh seen us @ fresh (seen \<union> set us) vs"
    by (induction us arbitrary: seen) (simp_all add: insert_absorb)
  have "seen \<union> set us \<union> set vs = seen \<union> set (us @ vs)"
    "(\<lambda>u. (w u \<or> u \<in> set us \<and> u \<notin> seen) \<or> u \<in> set vs \<and> u \<notin> seen \<union> set us) = (\<lambda>u. w u \<or> u \<in> set (us @ vs) \<and> u \<notin> seen)"
    by auto
  with s2 new have "progress_of K s0 (seen \<union> set (us @ vs)) (cs @ map (\<lambda>u. (u, step)) (fresh seen (us @ vs)))
      (\<lambda>u. w u \<or> u \<in> set (us @ vs) \<and> u \<notin> seen) s2"
    by simp
  moreover have "vcont_targets K ids step (ch CHR '':'' # p) s = Inr (t, s2)"
    using more_targets(2) \<open>q \<noteq> []\<close> parse run s2(1) by (cases q) simp_all
  ultimately show ?case
    by blast
qed

lemma request_step:
  assumes "vcont_text ids s0 p as" and "gdb_wf s0" and "progress_of K s0 seen cs w s"
  shows "\<exists>s' seen'. vcont_actions K ids p b s = Inr (b, s') \<and> progress_of K s0 seen' (cs @ decided seen as) (woken seen w as) s'"
  using assms(1,3)
proof (induction arbitrary: seen cs w s rule: vcont_text.induct)
  case (end_of_packet r)
  then show ?case
    by auto
next
  case (action p us t as step)
  have start: "progress_of K s0 seen cs (\<lambda>_. \<not> step) (set_wakeups (\<not> step) s)"
    by (rule progress_wakeups [OF action.prems])
  obtain s1 where run: "vcont_targets K ids step p (set_wakeups (\<not> step) s) = Inr (t, s1)"
    and s1: "progress_of K s0 (seen \<union> set us) (cs @ map (\<lambda>u. (u, step)) (fresh seen us)) (\<lambda>u. \<not> step \<or> u \<in> set us \<and> u \<notin> seen) s1"
    using targets_step [OF action(1) assms(2) start, of step] by auto
  obtain s2 seen' where s2: "vcont_actions K ids t b s1 = Inr (b, s2)"
    "progress_of K s0 seen' (cs @ decided seen ((step, us) # as)) (woken seen w ((step, us) # as)) s2"
    using action.IH [OF s1] by (auto simp: woken_Cons)
  moreover have "vcont_actions K ids (ch CHR '';'' # ch (if step then CHR ''s'' else CHR ''c'') # p) b s = Inr (b, s2)"
    using run s2(1) by (cases step) simp_all
  ultimately show ?case
    by blast
qed

lemma fresh_distinct: "distinct us \<Longrightarrow> set us \<inter> seen = {} \<Longrightarrow> fresh seen us = us"
  by (induction us arbitrary: seen) auto

lemma vcont_request:
  assumes "gdb_wf s" and "length b = BUFSIZE" and "vcont_text ids s (ch CHR '';'' # p) as"
  shows "\<exists>s'. gdb_handle_packet K uc ids (str ''vCont;'' @ p) b d s = Inr (finish True d (reply b [], s')) \<and>
    ks s' = steppings K s (decided {} as) (ks s) \<and> thread_list s' = thread_list s \<and> target_thread s' = target_thread s \<and>
    (\<forall>(i, j) \<in> set (thread_list s). thr s' i j = (thr s i j)\<lparr>
       t_ss_enabled := (t_ss_enabled (thr s i j) \<or> ((i, j), True) \<in> set (decided {} as)),
       t_wakeup := woken {} (\<lambda>(i, j). t_wakeup (thr s i j)) as (i, j)\<rparr>)"
proof -
  let ?w = "\<lambda>(i, j). t_wakeup (thr s i j)"
  have "(\<lambda>j. if (i, j) \<in> set (thread_list s) then (thr s i j)\<lparr>t_ss_enabled := (t_ss_enabled (thr s i j) \<or> ((i, j), True) \<in> set []),
      t_wakeup := ?w (i, j)\<rparr> else thr s i j) = i_threads (inferiors s i)" for i
    by (simp add: fun_eq_iff)
  then have start: "progress_of K s {} [] ?w (s\<lparr>handled := (\<lambda>_ _. False)\<rparr>)"
    by (simp add: progress_of_def steppings_def)
  obtain s' seen where run: "vcont_actions K ids (ch CHR '';'' # p) (reply b []) (s\<lparr>handled := (\<lambda>_ _. False)\<rparr>) = Inr (reply b [], s')"
    and s': "progress_of K s seen (decided {} as) (woken {} ?w as) s'"
    using request_step [OF assms(3,1) start, where b = "reply b []"] unfolding append_Nil by blast
  moreover have "gdb_handle_packet K uc ids (str ''vCont;'' @ p) b d s = Inr (finish True d (reply b [], s'))"
    by (simp only: vcont_packet_eq [OF assms(2)] run bindR_Inr)
  moreover have "thread_list s' = thread_list s"
    by (rule thread_list_cong) (simp_all add: progress_sel [OF s'])
  ultimately show ?thesis
    by (intro exI [of _ s']) (auto simp: progress_of_def)
qed


text \<open>Anywhere but at the end of the packet, \<open>-1\<close> is not read past: the code compares three
  characters, so that the dash is left to be read again, as the next action.\<close>

lemma all_threads_only_at_end:
  assumes "list_all is_hex ds" and "length ds = 1 \<or> length ds = 2" and "c \<noteq> 0"
  shows "parse_thread_id (ch CHR ''p'' # ds @ ch CHR ''.'' # ch CHR ''-'' # ch CHR ''1'' # c # r) g h =
    Inr (Some (ch CHR ''-'' # ch CHR ''1'' # c # r), id_value ds g, -1)"
proof -
  obtain x xs where "ds = x # xs"
    using assms(2) by (cases ds) auto
  with assms(1) have "starts (ds @ p) ''-1'' 3 = Inr False" for p
    using is_hex_not [of x] starts_other [of x "CHR ''-''" "xs @ p" "''1''" 2] by (simp add: numeral_3_eq_3 numeral_2_eq_2)
  moreover have "ch CHR ''.'' \<notin> set ds"
    using assms(1) is_hex_not by (auto simp: list_all_iff)
  then have "skip_dot (ds @ ch CHR ''.'' # p) 0 = Inr (p, length ds)" for p
    using skip_dot_skip [of ds p 0] by simp
  moreover have "starts (ch CHR ''-'' # ch CHR ''1'' # c # r) ''-1'' 3 = Inr False"
    using assms(3) by (simp add: starts_rec starts_0)
  moreover have "read_id (ch CHR ''-'' # p) 0 h = Inr (- 1)" for p
    by (simp add: read_id_def hexchar_to_int_def)
  ultimately show ?thesis
    unfolding parse_thread_id_def nextR_simps bindR_Inr prod.case
    by (simp add: read_id_digits [OF assms(2)] Let_def hexchar_to_int_def)
qed

text \<open>A step of one thread: \<open>vCont;s:\<close> with a thread turns single-stepping on for that
  thread alone and marks it, and of all registered threads only it, to be woken up when the
  system is resumed, which it asks for.\<close>

lemma vcont_steps_one_thread:
  assumes "gdb_wf s" and "(i, j) \<in> set (thread_list s)" and "t_gdb_id (thr s i j) = of_nat (j + 1)"
    and "length b = BUFSIZE" and "p = ch CHR ''p'' # ds @ ch CHR ''.'' # es @ 0 # r" and "names ds es (fst (ids p)) (snd (ids p)) s i j"
  shows "\<exists>x. gdb_handle_packet K uc ids (str ''vCont;'' @ ch CHR ''s'' # ch CHR '':'' # p) b d s = Inr x \<and> resumed x \<and> content (out x) = [] \<and>
    ks (st x) = TCB_ConfigureSingleStepping K (ks s) (t_tcb (thr s i j)) 0 1 \<and> t_ss_enabled (thr (st x) i j) \<and>
    thread_list (st x) = thread_list s \<and> target_thread (st x) = target_thread s \<and>
    (\<forall>(i', j') \<in> set (thread_list s). t_wakeup (thr (st x) i' j') = ((i', j') = (i, j)))"
proof -
  have "naming ids s p [(i, j)] (0 # r)"
    by (rule naming.one [where ids = ids and ds = ds and es = es, OF assms(5,6) _ _ assms(2,3)]) (simp_all add: is_hex_def hexchar_to_int_def)
  then have "targets_text ids s (ch CHR '':'' # p) [(i, j)] (0 # r)"
    by (rule targets_text.last_target) simp
  from vcont_text.action [OF this vcont_text.end_of_packet, of True]
  have "vcont_text ids s (ch CHR '';'' # ch CHR ''s'' # ch CHR '':'' # p) [(True, [(i, j)])]"
    by simp
  note run = vcont_request [OF assms(1,4) this, of K uc d]
  with assms(2) show ?thesis
    by - (elim exE conjE, intro exI conjI, assumption, auto simp: steppings_def)
qed

text \<open>Continuing an inferior: \<open>vCont;c:\<close> with all threads of an inferior marks every
  registered thread of the system to be woken up, and turns single-stepping off, in the order
  of the table, for each thread of that inferior.\<close>

lemma vcont_continues_inferior:
  assumes "gdb_wf s" and "i < MAX_PDS" and "i_enabled (inferiors s i)" and "length b = BUFSIZE"
    and "list_all is_hex ds" and "length ds = 1 \<or> length ds = 2"
    and "p = ch CHR ''p'' # ds @ ch CHR ''.'' # ch CHR ''-'' # ch CHR ''1'' # 0 # r" and "sint (id_value ds (fst (ids p))) = int (i + 1)"
  shows "\<exists>x. gdb_handle_packet K uc ids (str ''vCont;'' @ ch CHR ''c'' # ch CHR '':'' # p) b d s = Inr x \<and> resumed x \<and> content (out x) = [] \<and>
    ks (st x) = fold (\<lambda>j k. TCB_ConfigureSingleStepping K k (t_tcb (thr s i j)) 0 0)
      (filter (\<lambda>j. t_enabled (thr s i j)) [0..<MAX_THREADS]) (ks s) \<and>
    thread_list (st x) = thread_list s \<and> target_thread (st x) = target_thread s \<and>
    (\<forall>(i', j') \<in> set (thread_list s). t_wakeup (thr (st x) i' j'))"
proof -
  have "naming ids s p (threads_of s i) (0 # r)"
    by (rule naming.all [where ids = ids and ds = ds, OF assms(7,5,6,8,2,3)])
  then have "targets_text ids s (ch CHR '':'' # p) (threads_of s i) (0 # r)"
    by (rule targets_text.last_target) simp
  from vcont_text.action [OF this vcont_text.end_of_packet, of False]
  have "vcont_text ids s (ch CHR '';'' # ch CHR ''c'' # ch CHR '':'' # p) [(False, threads_of s i)]"
    by simp
  note vcont_request [OF assms(1,4) this, of K uc d]
  moreover have "fresh {} (threads_of s i) = threads_of s i"
    by (rule fresh_distinct) (simp_all add: threads_of_def distinct_map inj_on_def)
  ultimately show ?thesis
    by - (elim exE conjE, intro exI conjI, assumption, auto simp: steppings_def threads_of_def fold_map comp_def)
qed

section \<open>Properties\<close>

text \<open>C5: \<open>vCont\<close> packets, with any number of actions for any registered threads. The first
  action that names a thread is the one for it: single-stepping is turned on for the threads
  that are to step and off for those that are to continue, in the order the packet names them
  and once for each. The last action decides which threads run when the system is resumed,
  which the packet asks for: after a continuation all, after a step those that it is the first
  to name. No thread is lost, and the target thread stays.\<close>

theorem vcont_carries_out_request:
  assumes "gdb_wf s" and "length b = BUFSIZE" and "vcont_text ids s (ch CHR '';'' # p) as"
  shows "\<exists>x. gdb_handle_packet K uc ids (str ''vCont;'' @ p) b d s = Inr x \<and> resumed x \<and> detached x = d \<and> content (out x) = [] \<and>
    ks (st x) = steppings K s (decided {} as) (ks s) \<and> thread_list (st x) = thread_list s \<and> target_thread (st x) = target_thread s \<and>
    (\<forall>(i, j) \<in> set (thread_list s). thr (st x) i j = (thr s i j)\<lparr>
       t_ss_enabled := (t_ss_enabled (thr s i j) \<or> ((i, j), True) \<in> set (decided {} as)),
       t_wakeup := woken {} (\<lambda>(i, j). t_wakeup (thr s i j)) as (i, j)\<rparr>)"
  using vcont_request [OF assms, of K uc d] assms(2)
  by - (elim exE conjE, intro exI conjI, assumption, simp_all)

theorem vcont_carries_out_request_witness:
  "\<exists>x. gdb_handle_packet machine_kernel zero_context (\<lambda>_. (0, 0)) (str ''vCont;'' @ str ''s:p1.1;c:p1.1'' @ [0])
       (replicate BUFSIZE 7) False one_thread = Inr x \<and> resumed x \<and>
    ks (st x) = TCB_ConfigureSingleStepping machine_kernel (ks one_thread) (t_tcb (thr one_thread 0 0)) 0 1 \<and>
    t_wakeup (thr (st x) 0 0) \<and> t_ss_enabled (thr (st x) 0 0)"
proof -
  have thread: "(0, 0) \<in> set (thread_list one_thread)" "t_gdb_id (thr one_thread 0 0) = 1"
    by (simp_all add: thread_list_iff one_thread_def MAX_PDS_def MAX_THREADS_def)
  have names: "names [ch CHR ''1''] [ch CHR ''1''] 0 0 one_thread 0 0"
    by (simp add: names_def is_hex_def hexchar_to_int_def id_value_def one_thread_def)
  have one: "naming (\<lambda>_. (0, 0)) one_thread (str ''p1.1'' @ c # t) [(0, 0)] (c # t)" if "\<not> is_hex c" for c t
    using thread names that by (intro naming.one [where ds = "[ch CHR ''1'']" and es = "[ch CHR ''1'']"]) simp_all
  have targets: "targets_text (\<lambda>_. (0, 0)) one_thread (ch CHR '':'' # str ''p1.1'' @ ch CHR '';'' # t) [(0, 0)] (ch CHR '';'' # t)"
    "targets_text (\<lambda>_. (0, 0)) one_thread (ch CHR '':'' # str ''p1.1'' @ [0]) [(0, 0)] [0]" for t
    using targets_text.last_target [OF one [of "ch CHR '';''" t]] targets_text.last_target [OF one [of 0 "[]"]]
    by (simp_all add: is_hex_def hexchar_to_int_def)
  have "vcont_text (\<lambda>_. (0, 0)) one_thread (ch CHR '';'' # ch (if False then CHR ''s'' else CHR ''c'') # ch CHR '':'' # str ''p1.1'' @ [0]) [(False, [(0, 0)])]"
    by (rule action [OF targets(2) end_of_packet])
  then have "vcont_text (\<lambda>_. (0, 0)) one_thread (ch CHR '';'' # str ''c:p1.1'' @ [0]) [(False, [(0, 0)])]"
    by simp
  from action [OF targets(1) this, of True]
  have "vcont_text (\<lambda>_. (0, 0)) one_thread (ch CHR '';'' # str ''s:p1.1;c:p1.1'' @ [0]) [(True, [(0, 0)]), (False, [(0, 0)])]"
    by simp
  from vcont_carries_out_request [OF gdb_wf_one_thread _ this, of "replicate BUFSIZE 7" machine_kernel zero_context False] thread(1)
  show ?thesis
    by (auto simp: steppings_def)
qed

end
