(* ===== verification/Gdb_Resume.thy ===== *)
theory Gdb_Resume
  imports Gdb_EventLoop Gdb_Vcont
begin

text \<open>
  From a \<open>vCont\<close> frame on the wire to the threads that run: the event loop, the packet handler
  and \<open>resume_system\<close> together.
\<close>

text \<open>The kernel documents that configuring single-stepping neither starts nor stops a thread.\<close>

definition stepping_keeps_running :: "('k, 'r) kernel \<Rightarrow> ('k \<Rightarrow> u64 \<Rightarrow> bool) \<Rightarrow> bool" where
  "stepping_keeps_running K running \<longleftrightarrow> (\<forall>k tcb n on. running (TCB_ConfigureSingleStepping K k tcb n on) = running k)"

lemma steppings_running:
  assumes "stepping_keeps_running K running"
  shows "running (steppings K s cs k) = running k"
proof -
  have "running (fold (\<lambda>((i, j), step) k. TCB_ConfigureSingleStepping K k (t_tcb (thr s i j)) 0 (if step then 1 else 0)) cs k) = running k" for k
    using assms by (induction cs arbitrary: k) (auto simp: stepping_keeps_running_def)
  then show ?thesis
    by (simp add: steppings_def)
qed

lemma resumed_threads:
  assumes "scheduler K running" and "thread_list s' = thread_list s"
    and "\<forall>(i, j) \<in> set (thread_list s). thr s' i j = (thr s i j)\<lparr>t_ss_enabled := e i j, t_wakeup := w (i, j)\<rparr>"
  shows "running (ks (resume_system K s')) tcb = (running (ks s') tcb \<or>
    (\<exists>(i, j) \<in> set (thread_list s). w (i, j) \<and> t_tcb (thr s i j) = tcb))"
proof -
  have "tcb \<in> t_tcb ` {t \<in> set (live_threads s'). t_wakeup t} \<longleftrightarrow>
      (\<exists>(i, j) \<in> set (thread_list s'). t_wakeup (thr s' i j) \<and> t_tcb (thr s' i j) = tcb)"
    unfolding set_live_threads by (force simp: thread_list_iff)
  also have "\<dots> \<longleftrightarrow> (\<exists>(i, j) \<in> set (thread_list s). w (i, j) \<and> t_tcb (thr s i j) = tcb)"
    unfolding assms(2) using assms(3) by (intro bex_cong) auto
  finally show ?thesis
    by (simp add: resume_running [OF assms(1)])
qed

section \<open>Properties\<close>

text \<open>C6: Resuming, end to end. When the event loop waits for a packet and the frame of a \<open>vCont\<close>
  packet arrives, it is acknowledged and nothing else is sent, and afterwards exactly those
  threads have been started that the request wakes up: after a continuation all registered
  threads, after a step those that the last action is the first to name. No thread is stopped,
  and the event loop waits for the next packet.\<close>

theorem vcont_frame_resumes:
  assumes "scheduler K running" and "stepping_keeps_running K running" and "gdb_wf (d_lib d)" and "\<not> d_detached d"
    and "d_state d = eventState_waitingForInputEventLoop" and "d_main d = Reading Start" and "d_rx d = []"
    and "length (d_input d) = BUFSIZE" and "length (d_output d) = BUFSIZE" and "sends V (d_tcp_output_buf d) []"
    and "plain q" and "length q + 7 < BUFSIZE"
    and "vcont_text ids (d_lib d) (ch CHR '';'' # q @ 0 # drop (length q + 7) (d_input d)) as"
  shows "\<exists>d'. notified V K uc ids (arrive (frame (str ''vCont;'' @ q)) d) = Inr d' \<and> d_tx d' = d_tx d @ [ch CHR ''+''] \<and>
    (\<forall>tcb. running (ks (d_lib d')) tcb = (running (ks (d_lib d)) tcb \<or>
       (\<exists>(i, j) \<in> set (thread_list (d_lib d)). woken {} (\<lambda>(i, j). t_wakeup (thr (d_lib d) i j)) as (i, j) \<and>
          t_tcb (thr (d_lib d) i j) = tcb))) \<and>
    d_state d' = eventState_waitingForInputEventLoop \<and> d_main d' = Reading Start \<and> d_rx d' = [] \<and> \<not> d_detached d'"
proof -
  let ?s = "d_lib d" and ?t = "str ''vCont;'' @ q" and ?p = "q @ 0 # drop (length q + 7) (d_input d)"
  let ?buf = "patch (d_input d) 0 (?t @ [0])"
  have buf: "?buf = str ''vCont;'' @ ?p"
    by (simp add: patch_def eval_nat_numeral)
  have plain: "plain ?t" "length ?t < BUFSIZE - 1"
    using assms(11,12) by (simp_all add: plain_def)
  have keep: "d = interrupted K (?buf ! 0) d" "?buf ! 2 \<noteq> ch CHR '':''" "length ?buf = BUFSIZE"
    using assms(4,8,12) unfolding buf by (simp_all add: interrupted_def)
  obtain s' where run: "gdb_handle_packet K uc ids (str ''vCont;'' @ ?p) (d_output d) False ?s = Inr (finish True False (reply (d_output d) [], s'))"
    and s': "ks s' = steppings K ?s (decided {} as) (ks ?s)" "thread_list s' = thread_list ?s"
      "\<forall>(i, j) \<in> set (thread_list ?s). thr s' i j = (thr ?s i j)\<lparr>
         t_ss_enabled := (t_ss_enabled (thr ?s i j) \<or> ((i, j), True) \<in> set (decided {} as)),
         t_wakeup := woken {} (\<lambda>(i, j). t_wakeup (thr ?s i j)) as (i, j)\<rparr>"
    using vcont_request [OF assms(3,9,13), of K uc False] by blast
  let ?r = "finish True False (reply (d_output d) [], s')"
  have "packet_loop True (echoed V) (d_input d) [] (frame ?t @ []) = Inr ([ch CHR ''+''], Some (0, ?buf, []))"
    using packet_loop_frame [OF plain assms(8), of "echoed V" True "[]" "[]"] echoed_ok [OF assms(10)] keep(2) by simp
  then have got: "packet_loop True (echoed V) (d_input d) [] (frame ?t) = Inr ([ch CHR ''+''], Some (0, ?buf, if replies ?r then [ch CHR ''+''] else []))"
    by (simp add: replies_def)
  have handler: "gdb_handle_packet K uc ids ?buf (d_output d) (d_detached d) ?s = Inr ?r"
    unfolding buf using run assms(4) by simp
  have out: "0 \<in> set (out ?r)" "content (out ?r) = []"
    by (simp_all add: reply_def patch_def)
  obtain d' where "notified V K uc ids (arrive (frame ?t) d) = Inr d'"
    and "d_tx d' = d_tx d @ [ch CHR ''+''] @ (if replies ?r then frame (content (out ?r)) else [])" and lib: "d_lib d' = afterwards K ?r"
    and "d_state d' = eventState_waitingForInputEventLoop" "d_main d' = Reading Start" "d_rx d' = []" "d_detached d' = detached ?r"
    by (rule notified_request [OF assms(5-7) got _ handler keep(1) out(1)]) (use keep(3) assms(10) out(2) in \<open>simp_all add: BUFSIZE_def\<close>)
  moreover have "running (ks (d_lib d')) tcb = (running (ks ?s) tcb \<or>
      (\<exists>(i, j) \<in> set (thread_list ?s). woken {} (\<lambda>(i, j). t_wakeup (thr ?s i j)) as (i, j) \<and> t_tcb (thr ?s i j) = tcb))" for tcb
    using resumed_threads [OF assms(1) s'(2,3), of tcb] by (simp add: lib afterwards_def s'(1) steppings_running [OF assms(2)])
  ultimately show ?thesis
    by (simp add: replies_def)
qed

theorem vcont_frame_resumes_witness:
  "\<exists>d'. notified serial_variant machine_kernel zero_context (\<lambda>_. (0, 0)) (arrive (frame (str ''vCont;'' @ str ''s:p1.1''))
       (running_debugger\<lparr>d_lib := suspend_system machine_kernel one_thread\<rparr>)) = Inr d' \<and>
    d_tx d' = [ch CHR ''+''] \<and> mc_run (ks (d_lib d')) 9"
proof -
  let ?s = "suspend_system machine_kernel one_thread"
  let ?d = "running_debugger\<lparr>d_lib := ?s\<rparr>" and ?q = "str ''s:p1.1''"
  let ?t = "0 # drop (length ?q + 7) (d_input ?d)"
  have thread: "(0, 0) \<in> set (thread_list ?s)" "t_gdb_id (thr ?s 0 0) = 1" "t_tcb (thr ?s 0 0) = 9"
    by (simp_all add: thread_list_iff suspend_inferiors one_thread_def MAX_PDS_def MAX_THREADS_def)
  have wf: "gdb_wf ?s"
    using gdb_wf_one_thread by (simp add: suspend_system_def gdb_wf_ks)
  have names: "names [ch CHR ''1''] [ch CHR ''1''] 0 0 ?s 0 0"
    using thread by (simp add: names_def is_hex_def hexchar_to_int_def id_value_def)
  have "naming (\<lambda>_. (0, 0)) ?s (str ''p1.1'' @ ?t) [(0, 0)] ?t"
    using thread names by (intro naming.one [where ds = "[ch CHR ''1'']" and es = "[ch CHR ''1'']"]) (simp_all add: is_hex_def hexchar_to_int_def)
  then have "targets_text (\<lambda>_. (0, 0)) ?s (ch CHR '':'' # str ''p1.1'' @ ?t) [(0, 0)] ?t"
    by (rule targets_text.last_target) simp
  from vcont_text.action [OF this vcont_text.end_of_packet, of True]
  have req: "vcont_text (\<lambda>_. (0, 0)) (d_lib ?d) (ch CHR '';'' # ?q @ ?t) [(True, [(0, 0)])]"
    by simp
  have "stepping_keeps_running machine_kernel mc_run"
    by (simp add: stepping_keeps_running_def machine_kernel_def)
  moreover have "d_state ?d = eventState_waitingForInputEventLoop" "d_main ?d = Reading Start" "d_rx ?d = []" "\<not> d_detached ?d"
    "length (d_input ?d) = BUFSIZE" "length (d_output ?d) = BUFSIZE" "sends serial_variant (d_tcp_output_buf ?d) []" "d_tx ?d = []"
    "plain ?q" "length ?q + 7 < BUFSIZE" "gdb_wf (d_lib ?d)"
    using wf by (simp_all add: running_debugger_def start_debugger_def sends_def plain_def BUFSIZE_def)
  ultimately show ?thesis
    using vcont_frame_resumes [OF machine_laws(4) _ _ _ _ _ _ _ _ _ _ _ req, of serial_variant zero_context] thread
    by (simp del: drop_append) fastforce
qed

end
