(* ===== verification/Char_Queue.thy ===== *)
theory Char_Queue
  imports Gdb_State
begin

text \<open>
  The ring buffer of characters between the TCP callback and the debugger of the network
  example (\<open>examples/microkit_sddf_net/apps/debugger/char_queue.h\<close>): 32-bit counters that wrap
  around, an array indexed by the counters modulo its size. It refines a bounded first-in
  first-out queue, and the copying of a batch is the same as enqueueing its characters one by
  one.

  The copying routine \<open>sddf_memcpy\<close> is not in the repository; it is the parameter \<open>cp\<close> of the
  batch operation, and \<open>copies\<close> states what it is documented to do.
\<close>

section \<open>The ring buffer\<close>

record char_queue =
  q_tail :: u32
  q_head :: u32
  q_buf :: "u8 list"

definition QUEUE_CAPACITY :: nat where
  "QUEUE_CAPACITY = BUFSIZE"

text \<open>The slot of a counter.\<close>

definition slot :: "u32 \<Rightarrow> nat" where
  "slot w = unat (w mod of_nat QUEUE_CAPACITY)"

definition char_queue_length :: "char_queue \<Rightarrow> u32" where
  "char_queue_length q = q_tail q - q_head q"

definition char_queue_empty :: "char_queue \<Rightarrow> u32 \<Rightarrow> bool" where
  "char_queue_empty q local_head = (local_head = q_tail q)"

definition char_queue_full :: "char_queue \<Rightarrow> u32 \<Rightarrow> bool" where
  "char_queue_full q local_tail = (local_tail - q_head q = of_nat QUEUE_CAPACITY)"

definition char_enqueue :: "u8 \<Rightarrow> char_queue \<Rightarrow> int \<times> char_queue" where
  "char_enqueue character q =
    (if char_queue_full q (q_tail q) then (-1, q)
     else (0, q\<lparr>q_buf := (q_buf q)[slot (q_tail q) := character], q_tail := q_tail q + 1\<rparr>))"

definition char_enqueue_local :: "u32 \<Rightarrow> u8 \<Rightarrow> char_queue \<Rightarrow> int \<times> u32 \<times> char_queue" where
  "char_enqueue_local local_tail character q =
    (if char_queue_full q local_tail then (-1, local_tail, q)
     else (0, local_tail + 1, q\<lparr>q_buf := (q_buf q)[slot local_tail := character]\<rparr>))"

text \<open>The third component is the character the pointer refers to afterwards.\<close>

definition char_dequeue :: "u8 \<Rightarrow> char_queue \<Rightarrow> int \<times> char_queue \<times> u8" where
  "char_dequeue character q =
    (if char_queue_empty q (q_head q) then (-1, q, character)
     else (0, q\<lparr>q_head := q_head q + 1\<rparr>, q_buf q ! slot (q_head q)))"

definition char_dequeue_local :: "u32 \<Rightarrow> u8 \<Rightarrow> char_queue \<Rightarrow> int \<times> u32 \<times> u8" where
  "char_dequeue_local local_head character q =
    (if char_queue_empty q local_head then (-1, local_head, character)
     else (0, local_head + 1, q_buf q ! slot local_head))"

definition char_queue_free :: "char_queue \<Rightarrow> u32" where
  "char_queue_free q = of_nat QUEUE_CAPACITY - char_queue_length q"

definition char_queue_contiguous_free :: "char_queue \<Rightarrow> u32" where
  "char_queue_contiguous_free q =
    min (of_nat QUEUE_CAPACITY - q_tail q mod of_nat QUEUE_CAPACITY) (char_queue_free q)"

definition char_queue_update_shared_tail :: "u32 \<Rightarrow> char_queue \<Rightarrow> char_queue res" where
  "char_queue_update_shared_tail local_tail q =
    (let current_length = char_queue_length q;
         new_length = local_tail - q_head q
     in assertR (current_length \<le> new_length) (assertR (new_length \<le> of_nat QUEUE_CAPACITY)
          (Inr (q\<lparr>q_tail := local_tail\<rparr>))))"

text \<open>\<open>cp b p src n\<close> copies the first \<open>n\<close> bytes of \<open>src\<close> into \<open>b\<close> at \<open>p\<close>.\<close>

type_synonym copier = "u8 list \<Rightarrow> nat \<Rightarrow> u8 list \<Rightarrow> nat \<Rightarrow> u8 list res"

definition char_queue_enqueue_batch :: "copier \<Rightarrow> u32 \<Rightarrow> u8 list \<Rightarrow> char_queue \<Rightarrow> (u32 \<times> char_queue) res" where
  "char_queue_enqueue_batch cp num src q =
    (let dst = slot (q_tail q);
         avail = char_queue_free q;
         num = min num avail;
         num_prewrap = min num (char_queue_contiguous_free q);
         num_postwrap = num - num_prewrap
     in bindR (cp (q_buf q) dst src (unat num_prewrap)) (\<lambda>buf.
        bindR (if num_postwrap \<noteq> 0 then cp buf 0 (drop (unat num_prewrap) src) (unat num_postwrap) else Inr buf) (\<lambda>buf.
        bindR (char_queue_update_shared_tail (q_tail q + num) (q\<lparr>q_buf := buf\<rparr>)) (\<lambda>q. Inr (num, q)))))"

definition copies :: "copier \<Rightarrow> bool" where
  "copies cp \<longleftrightarrow> (\<forall>b p src n. p + n \<le> length b \<longrightarrow> n \<le> length src \<longrightarrow> cp b p src n = Inr (patch b p (take n src)))"

section \<open>The bounded queue it implements\<close>

datatype 'a queue_op = Enqueue 'a | Dequeue

text \<open>A run of the operations: the characters accepted, those taken out, and the final state.\<close>

fun queue_run :: "('a \<Rightarrow> 'q \<Rightarrow> bool \<times> 'q) \<Rightarrow> ('q \<Rightarrow> 'a option \<times> 'q) \<Rightarrow> 'a queue_op list \<Rightarrow> 'q \<Rightarrow> 'a list \<times> 'a list \<times> 'q" where
  "queue_run enq deq [] q = ([], [], q)"
| "queue_run enq deq (Enqueue x # ops) q =
     (let (ok, q1) = enq x q; (xs, ys, q2) = queue_run enq deq ops q1 in (if ok then x # xs else xs, ys, q2))"
| "queue_run enq deq (Dequeue # ops) q =
     (let (r, q1) = deq q; (xs, ys, q2) = queue_run enq deq ops q1
      in (xs, (case r of None \<Rightarrow> ys | Some y \<Rightarrow> y # ys), q2))"

definition spec_enq :: "nat \<Rightarrow> 'a \<Rightarrow> 'a list \<Rightarrow> bool \<times> 'a list" where
  "spec_enq cap x xs = (if length xs < cap then (True, xs @ [x]) else (False, xs))"

definition spec_deq :: "'a list \<Rightarrow> 'a option \<times> 'a list" where
  "spec_deq xs = (case xs of [] \<Rightarrow> (None, []) | x # xs \<Rightarrow> (Some x, xs))"

locale bounded_fifo =
  fixes wf :: "'q \<Rightarrow> bool" and items :: "'q \<Rightarrow> 'a list" and cap :: nat
    and enq :: "'a \<Rightarrow> 'q \<Rightarrow> bool \<times> 'q" and deq :: "'q \<Rightarrow> 'a option \<times> 'q"
  assumes enq_wf: "wf q \<Longrightarrow> wf (snd (enq x q))"
    and deq_wf: "wf q \<Longrightarrow> wf (snd (deq q))"
    and enq_spec: "wf q \<Longrightarrow> (fst (enq x q), items (snd (enq x q))) = spec_enq cap x (items q)"
    and deq_spec: "wf q \<Longrightarrow> (fst (deq q), items (snd (deq q))) = spec_deq (items q)"
begin

lemma run_wf: "wf q \<Longrightarrow> wf (snd (snd (queue_run enq deq ops q)))"
proof (induction ops arbitrary: q)
  case (Cons p ops)
  then show ?case
    using enq_wf deq_wf by (cases p) (simp_all add: split_def Let_def)
qed simp

text \<open>Refinement: the answers of a run are those of the specification on lists.\<close>

lemma run_spec:
  "wf q \<Longrightarrow> (case queue_run enq deq ops q of (xs, ys, q') \<Rightarrow> (xs, ys, items q')) =
     queue_run (spec_enq cap) spec_deq ops (items q)"
proof (induction ops arbitrary: q)
  case (Cons p ops)
  show ?case
  proof (cases p)
    case (Enqueue x)
    note IH = Cons.IH [OF enq_wf [OF Cons.prems, of x]]
    show ?thesis
      using IH by (simp add: Enqueue split_def Let_def enq_spec [OF Cons.prems, of x, symmetric])
        (metis fst_conv snd_conv)
  next
    case Dequeue
    note IH = Cons.IH [OF deq_wf [OF Cons.prems]]
    show ?thesis
      using IH by (simp add: Dequeue split_def Let_def deq_spec [OF Cons.prems, symmetric])
        (metis fst_conv snd_conv)
  qed
qed simp

text \<open>First in, first out: what was taken out, and then what is left, is what was there and
  then what was accepted.\<close>

lemma run_fifo:
  "wf q \<Longrightarrow> (case queue_run enq deq ops q of (xs, ys, q') \<Rightarrow> ys @ items q' = items q @ xs)"
proof (induction ops arbitrary: q)
  case (Cons p ops)
  show ?case
  proof (cases p)
    case (Enqueue x)
    with Cons.IH [OF enq_wf [OF Cons.prems, of x]] enq_spec [OF Cons.prems, of x] show ?thesis
      by (auto simp: split_def Let_def spec_enq_def split: if_splits)
  next
    case Dequeue
    with Cons.IH [OF deq_wf [OF Cons.prems]] deq_spec [OF Cons.prems] show ?thesis
      by (auto simp: split_def Let_def spec_deq_def split: list.splits)
  qed
qed simp

end

section \<open>The characters in the ring\<close>

definition contents :: "char_queue \<Rightarrow> u8 list" where
  "contents q = map (\<lambda>k. q_buf q ! ((unat (q_head q) + k) mod QUEUE_CAPACITY)) [0..<unat (char_queue_length q)]"

definition queue_wf :: "char_queue \<Rightarrow> bool" where
  "queue_wf q \<longleftrightarrow> length (q_buf q) = QUEUE_CAPACITY \<and> unat (char_queue_length q) \<le> QUEUE_CAPACITY"

lemma capacity: "QUEUE_CAPACITY = 2048"
  by (simp add: QUEUE_CAPACITY_def BUFSIZE_def)

lemma slot_eq: "slot w = unat w mod QUEUE_CAPACITY"
  by (simp add: slot_def capacity unat_mod_distrib)

text \<open>The counters wrap around at a multiple of the capacity.\<close>

lemma unat_add_mod: "unat (w + of_nat k :: u32) mod QUEUE_CAPACITY = (unat w + k) mod QUEUE_CAPACITY"
proof -
  have "unat (w + of_nat k :: u32) = (unat w + k) mod 2 ^ 32"
    by (simp add: unat_word_ariths unat_of_nat mod_add_right_eq)
  moreover have "QUEUE_CAPACITY dvd 2 ^ 32"
    by (simp add: capacity)
  ultimately show ?thesis
    by (simp add: mod_mod_cancel)
qed

lemma slot_tail: "slot (q_tail q) = (unat (q_head q) + unat (char_queue_length q)) mod QUEUE_CAPACITY"
  using unat_add_mod [of "q_head q" "unat (char_queue_length q)"] by (simp add: slot_eq char_queue_length_def)

lemma length_contents [simp]: "length (contents q) = unat (char_queue_length q)"
  by (simp add: contents_def)

lemma full_contents_iff: "queue_wf q \<Longrightarrow> char_queue_full q (q_tail q) \<longleftrightarrow> length (contents q) = QUEUE_CAPACITY"
  by (simp add: char_queue_full_def char_queue_length_def capacity word_unat_eq_iff)

lemma no_contents_iff: "char_queue_empty q (q_head q) \<longleftrightarrow> contents q = []"
proof -
  have "unat (q_tail q - q_head q) = 0 \<longleftrightarrow> q_head q = q_tail q"
    by (metis eq_iff_diff_eq_0 unat_eq_zero)
  then show ?thesis
    by (simp add: char_queue_empty_def contents_def char_queue_length_def)
qed

lemma slots_apart:
  assumes "k < n" "n < QUEUE_CAPACITY"
  shows "(h + k) mod QUEUE_CAPACITY \<noteq> (h + n) mod QUEUE_CAPACITY"
proof
  assume "(h + k) mod QUEUE_CAPACITY = (h + n) mod QUEUE_CAPACITY"
  then have "(h + n - (h + k)) mod QUEUE_CAPACITY = 0"
    by (metis mod_eq_0_iff_dvd mod_eq_dvd_iff_nat add_le_cancel_left assms(1) less_imp_le_nat)
  with assms show False
    by simp
qed

lemma enqueue_contents:
  fixes x :: u8
  assumes "queue_wf q" and "length (contents q) < QUEUE_CAPACITY"
  defines "q' \<equiv> snd (char_enqueue x q)"
  shows "fst (char_enqueue x q) = 0" and "queue_wf q'" and "contents q' = contents q @ [x]"
proof -
  let ?n = "unat (char_queue_length q)"
  have not_full: "\<not> char_queue_full q (q_tail q)"
    using assms by (simp add: full_contents_iff)
  then show "fst (char_enqueue x q) = 0"
    by (simp add: char_enqueue_def)
  have q': "q' = q\<lparr>q_buf := (q_buf q)[slot (q_tail q) := x], q_tail := q_tail q + 1\<rparr>"
    using not_full by (simp add: q'_def char_enqueue_def)
  have n: "?n < QUEUE_CAPACITY"
    using assms(2) by simp
  have "char_queue_length q' = char_queue_length q + 1"
    by (simp add: q' char_queue_length_def)
  moreover have "unat (char_queue_length q + 1) = Suc ?n"
    using n by (simp add: capacity unat_plus_simple word_le_nat_alt unat_word_ariths)
  ultimately have len: "unat (char_queue_length q') = Suc ?n"
    by simp
  then show "queue_wf q'"
    using assms(1) n by (simp add: queue_wf_def q')
  have "slot (q_tail q) < length (q_buf q)"
    using assms(1) by (simp add: slot_eq queue_wf_def capacity)
  moreover have "\<forall>k<?n. (unat (q_head q) + k) mod QUEUE_CAPACITY \<noteq> (unat (q_head q) + ?n) mod QUEUE_CAPACITY"
    using slots_apart [OF _ n] by blast
  ultimately show "contents q' = contents q @ [x]"
    unfolding contents_def len upt_Suc_append [OF le0] map_append by (auto simp: q' slot_tail nth_list_update)
qed

lemma enqueue_full:
  assumes "queue_wf q" and "length (contents q) = QUEUE_CAPACITY"
  shows "char_enqueue x q = (-1, q)"
  using assms by (simp add: char_enqueue_def full_contents_iff)

lemma dequeue_contents:
  fixes c :: u8
  assumes "queue_wf q" and "contents q = x # xs"
  defines "q' \<equiv> fst (snd (char_dequeue c q))"
  shows "fst (char_dequeue c q) = 0" and "queue_wf q'" and "contents q' = xs" and "snd (snd (char_dequeue c q)) = x"
proof -
  let ?n = "unat (char_queue_length q)"
  have ne: "\<not> char_queue_empty q (q_head q)"
    using assms(2) by (simp add: no_contents_iff)
  then show "fst (char_dequeue c q) = 0"
    by (simp add: char_dequeue_def)
  have q': "q' = q\<lparr>q_head := q_head q + 1\<rparr>"
    using ne by (simp add: q'_def char_dequeue_def)
  have n: "0 < ?n"
    using assms(2) length_contents [of q] by simp
  have "char_queue_length q' = char_queue_length q - 1"
    by (simp add: q' char_queue_length_def)
  then have len: "unat (char_queue_length q') = ?n - 1"
    using n unat_minus_one [of "char_queue_length q"] by (cases "char_queue_length q = 0") simp_all
  then have "unat (char_queue_length q') \<le> unat (char_queue_length q)"
    by simp
  with assms(1) show "queue_wf q'"
    by (auto simp: queue_wf_def q' simp del: One_nat_def intro: order_trans)
  have "[0..<?n] = 0 # map Suc [0..<?n - 1]"
    using n by (simp add: map_Suc_upt upt_conv_Cons)
  then have "contents q = q_buf q ! (unat (q_head q) mod QUEUE_CAPACITY) #
      map (\<lambda>k. q_buf q ! ((unat (q_head q) + Suc k) mod QUEUE_CAPACITY)) [0..<?n - 1]"
    by (simp add: contents_def comp_def)
  moreover have "(unat (q_head q + 1) + k) mod QUEUE_CAPACITY = (unat (q_head q) + Suc k) mod QUEUE_CAPACITY" for k
  proof -
    have "(unat (q_head q + 1) + k) mod QUEUE_CAPACITY = (unat (q_head q + 1) mod QUEUE_CAPACITY + k) mod QUEUE_CAPACITY"
      by (rule mod_add_left_eq [symmetric])
    also have "\<dots> = ((unat (q_head q) + 1) mod QUEUE_CAPACITY + k) mod QUEUE_CAPACITY"
      using unat_add_mod [of "q_head q" 1] by (simp only: of_nat_1)
    also have "\<dots> = (unat (q_head q) + 1 + k) mod QUEUE_CAPACITY"
      by (rule mod_add_left_eq)
    finally show ?thesis
      by simp
  qed
  then have "contents q' = map (\<lambda>k. q_buf q ! ((unat (q_head q) + Suc k) mod QUEUE_CAPACITY)) [0..<?n - 1]"
    unfolding contents_def len by (simp add: q')
  ultimately show "contents q' = xs" and "snd (snd (char_dequeue c q)) = x"
    using assms(2) ne by (simp_all add: char_dequeue_def slot_eq)
qed

lemma dequeue_empty: "contents q = [] \<Longrightarrow> char_dequeue c q = (-1, q, c)"
  by (simp add: char_dequeue_def no_contents_iff)

section \<open>The ring buffer is a bounded queue\<close>

definition ring_enq :: "u8 \<Rightarrow> char_queue \<Rightarrow> bool \<times> char_queue" where
  "ring_enq x q = (case char_enqueue x q of (r, q') \<Rightarrow> (r = 0, q'))"

definition ring_deq :: "char_queue \<Rightarrow> u8 option \<times> char_queue" where
  "ring_deq q = (case char_dequeue 0 q of (r, q', c) \<Rightarrow> (if r = 0 then Some c else None, q'))"

interpretation ring: bounded_fifo queue_wf contents QUEUE_CAPACITY ring_enq ring_deq
proof (unfold_locales, goal_cases)
  case (1 q x)
  then show ?case
    using enqueue_contents(2) [of q x] enqueue_full [of q x] queue_wf_def [of q]
    by (cases "length (contents q) = QUEUE_CAPACITY") (simp_all add: ring_enq_def split_def)
next
  case (2 q)
  then show ?case
    using dequeue_contents(2) [of q _ _ 0] dequeue_empty [of q 0]
    by (cases "contents q") (simp_all add: ring_deq_def split_def)
next
  case (3 q x)
  then show ?case
    using enqueue_contents(1,3) [of q x] enqueue_full [of q x] queue_wf_def [of q]
    by (cases "length (contents q) = QUEUE_CAPACITY") (simp_all add: ring_enq_def split_def spec_enq_def)
next
  case (4 q)
  then show ?case
    using dequeue_contents(1,3,4) [of q _ _ 0] dequeue_empty [of q 0]
    by (cases "contents q") (simp_all add: ring_deq_def split_def spec_deq_def)
qed

section \<open>Batches\<close>

text \<open>Writing characters round the ring from an index on.\<close>

fun ring_write :: "u8 list \<Rightarrow> nat \<Rightarrow> u8 list \<Rightarrow> u8 list" where
  "ring_write b p [] = b"
| "ring_write b p (v # vs) = ring_write (b[p mod QUEUE_CAPACITY := v]) (Suc p) vs"

lemma ring_write_append: "ring_write b p (vs @ ws) = ring_write (ring_write b p vs) (p + length vs) ws"
  by (induction vs arbitrary: b p) simp_all

lemma ring_write_mod: "p mod QUEUE_CAPACITY = p' mod QUEUE_CAPACITY \<Longrightarrow> ring_write b p vs = ring_write b p' vs"
proof (induction vs arbitrary: b p p')
  case (Cons v vs)
  from Cons.prems have "Suc p mod QUEUE_CAPACITY = Suc p' mod QUEUE_CAPACITY"
    by (metis mod_Suc_eq)
  from Cons.IH [OF this] Cons.prems show ?case
    by (simp only: ring_write.simps)
qed (simp only: ring_write.simps)

lemma ring_write_patch:
  "p + length vs \<le> QUEUE_CAPACITY \<Longrightarrow> length b = QUEUE_CAPACITY \<Longrightarrow> ring_write b p vs = patch b p vs"
proof (induction vs arbitrary: b p)
  case (Cons v vs)
  then show ?case
    using patch_Cons [of p b v vs] by simp
qed simp

text \<open>One by one.\<close>

definition enqueue_all :: "u8 list \<Rightarrow> char_queue \<Rightarrow> char_queue" where
  "enqueue_all vs q = fold (\<lambda>c q. snd (char_enqueue c q)) vs q"

lemma enqueue_all_Cons: "enqueue_all (v # vs) q = enqueue_all vs (snd (char_enqueue v q))"
  by (simp add: enqueue_all_def)

lemma enqueue_all_contents:
  "queue_wf q \<Longrightarrow> length (contents q) + length vs \<le> QUEUE_CAPACITY \<Longrightarrow>
     queue_wf (enqueue_all vs q) \<and> contents (enqueue_all vs q) = contents q @ vs"
proof (induction vs arbitrary: q)
  case (Cons v vs)
  then have "length (contents q) < QUEUE_CAPACITY"
    by simp
  note step = enqueue_contents(2,3) [OF Cons.prems(1) this, of v]
  then have "length (contents (snd (char_enqueue v q))) + length vs \<le> QUEUE_CAPACITY"
    using Cons.prems(2) by (simp del: length_contents)
  from Cons.IH [OF step(1) this] step(2) show ?case
    by (simp add: enqueue_all_def)
qed (simp add: enqueue_all_def)

lemma char_enqueue_room:
  assumes "queue_wf q" and "length (contents q) < QUEUE_CAPACITY"
  shows "snd (char_enqueue v q) = q\<lparr>q_buf := (q_buf q)[slot (q_tail q) := v], q_tail := q_tail q + 1\<rparr>"
proof -
  have "\<not> char_queue_full q (q_tail q)"
    unfolding full_contents_iff [OF assms(1)] using assms(2) by linarith
  then show ?thesis
    by (simp add: char_enqueue_def)
qed

lemma ring_write_tail: "ring_write b (unat (t + 1 :: u32)) vs = ring_write b (Suc (unat t)) vs"
  by (rule ring_write_mod) (use unat_add_mod [of t 1] in \<open>simp only: of_nat_1 Suc_eq_plus1\<close>)

lemma enqueue_all_eq:
  "queue_wf q \<Longrightarrow> length (contents q) + length vs \<le> QUEUE_CAPACITY \<Longrightarrow>
     enqueue_all vs q = q\<lparr>q_buf := ring_write (q_buf q) (unat (q_tail q)) vs, q_tail := q_tail q + of_nat (length vs)\<rparr>"
proof (induction vs arbitrary: q)
  case Nil
  then show ?case
    by (simp add: enqueue_all_def)
next
  case (Cons v vs)
  then have room: "length (contents q) < QUEUE_CAPACITY"
    by simp
  note step = enqueue_contents(2,3) [OF Cons.prems(1) room, of v]
  have "length (contents (snd (char_enqueue v q))) + length vs \<le> QUEUE_CAPACITY"
    unfolding step(2) using Cons.prems(2) by (simp del: length_contents)
  note IH = Cons.IH [OF step(1) this]
  show ?case
    unfolding enqueue_all_Cons IH unfolding char_enqueue_room [OF Cons.prems(1) room]
    by (simp add: ring_write_tail slot_eq)
qed

lemma free_unat:
  assumes "queue_wf q"
  shows "unat (char_queue_free q) = QUEUE_CAPACITY - length (contents q)"
proof -
  have "char_queue_length q \<le> of_nat QUEUE_CAPACITY"
    using assms by (simp add: queue_wf_def word_le_nat_alt capacity)
  then show ?thesis
    by (simp add: char_queue_free_def unat_sub capacity)
qed

lemma to_end_unat: "unat (of_nat QUEUE_CAPACITY - w mod of_nat QUEUE_CAPACITY :: u32) = QUEUE_CAPACITY - slot w"
proof -
  have "unat (w mod of_nat QUEUE_CAPACITY) < QUEUE_CAPACITY"
    by (simp add: capacity unat_mod_distrib)
  then have "w mod of_nat QUEUE_CAPACITY \<le> of_nat QUEUE_CAPACITY"
    by (simp add: word_le_nat_alt capacity)
  then show ?thesis
    by (simp add: unat_sub slot_def capacity)
qed

lemma unat_min: "unat (min a b) = min (unat a) (unat b)"
  by (simp add: min_def word_le_nat_alt)

lemma copiesD: "copies cp \<Longrightarrow> p + n \<le> length b \<Longrightarrow> n \<le> length src \<Longrightarrow> cp b p src n = Inr (patch b p (take n src))"
  by (simp add: copies_def)

lemma slot_bound: "slot w < QUEUE_CAPACITY"
  by (simp add: slot_eq capacity)

text \<open>A write round the ring is two copies, up to the end of the array and from its start.\<close>

lemma ring_write_two:
  assumes "length b = QUEUE_CAPACITY" and "length vs \<le> QUEUE_CAPACITY"
    and "pre = min (length vs) (QUEUE_CAPACITY - slot w)"
  shows "ring_write b (unat w) vs = patch (patch b (slot w) (take pre vs)) 0 (drop pre vs)"
proof -
  define b1 where "b1 = patch b (slot w) (take pre vs)"
  have fits: "slot w + length (take pre vs) \<le> QUEUE_CAPACITY"
    using slot_bound [of w] assms(3) unfolding length_take by linarith
  have "ring_write b (unat w) vs = ring_write b (slot w) (take pre vs @ drop pre vs)"
    unfolding append_take_drop_id by (rule ring_write_mod) (simp add: slot_eq)
  also have "\<dots> = ring_write b1 (slot w + length (take pre vs)) (drop pre vs)"
    unfolding ring_write_append ring_write_patch [OF fits assms(1)] b1_def ..
  also have "\<dots> = patch b1 0 (drop pre vs)"
  proof (cases "pre = length vs")
    case True
    then show ?thesis
      by simp
  next
    case False
    then have "slot w + length (take pre vs) = QUEUE_CAPACITY"
      using assms(3) slot_bound [of w] by (simp add: min_def split: if_splits)
    then have "(slot w + length (take pre vs)) mod QUEUE_CAPACITY = 0 mod QUEUE_CAPACITY"
      by simp
    note ends = ring_write_mod [OF this]
    have "length b1 = QUEUE_CAPACITY"
      using fits assms(1) by (simp add: b1_def)
    with assms(2) show ?thesis
      unfolding ends by (simp add: ring_write_patch)
  qed
  finally show ?thesis
    by (simp only: b1_def)
qed

lemma batch_copies:
  assumes cp: "copies cp" and len: "length b = QUEUE_CAPACITY" "n \<le> length src" "n \<le> QUEUE_CAPACITY"
    and pre: "unat pre = min n (QUEUE_CAPACITY - slot w)" and post: "unat post = n - unat pre"
  shows "bindR (cp b (slot w) src (unat pre)) (\<lambda>b1.
      if post \<noteq> 0 then cp b1 0 (drop (unat pre) src) (unat post) else Inr b1) = Inr (ring_write b (unat w) (take n src))"
proof -
  define b1 where "b1 = patch b (slot w) (take (unat pre) src)"
  have fits: "slot w + unat pre \<le> length b" "unat pre \<le> length src" "unat pre \<le> n"
    using slot_bound [of w] pre len by linarith+
  then have b1: "cp b (slot w) src (unat pre) = Inr b1" "length b1 = QUEUE_CAPACITY"
    using copiesD [OF cp fits(1,2)] len(1) by (simp_all add: b1_def)
  have "ring_write b (unat w) (take n src) = patch (patch b (slot w) (take (unat pre) (take n src))) 0 (drop (unat pre) (take n src))"
    by (rule ring_write_two) (use len pre in simp_all)
  also have "\<dots> = patch b1 0 (take (unat post) (drop (unat pre) src))"
    using fits(3) by (simp add: b1_def post drop_take min_def)
  finally have ring: "ring_write b (unat w) (take n src) = patch b1 0 (take (unat post) (drop (unat pre) src))" .
  show ?thesis
  proof (cases "post = 0")
    case True
    then show ?thesis
      unfolding ring b1(1) by simp
  next
    case False
    have "unat post \<le> length (drop (unat pre) src)" "0 + unat post \<le> length b1"
      using post len(2,3) b1(2) fits(3) by simp_all
    from copiesD [OF cp this(2,1)] False show ?thesis
      unfolding ring b1(1) by simp
  qed
qed

lemma enqueue_batch_eq:
  assumes wf: "queue_wf q" and cp: "copies cp" and src: "unat num \<le> length src"
    and n: "n = min (unat num) (QUEUE_CAPACITY - length (contents q))"
  shows "char_queue_enqueue_batch cp num src q = Inr (of_nat n, enqueue_all (take n src) q)"
proof -
  define m where "m = min num (char_queue_free q)"
  define pre where "pre = min m (char_queue_contiguous_free q)"
  have m: "unat m = n"
    by (simp only: m_def n unat_min free_unat [OF wf])
  have pre: "unat pre = min n (QUEUE_CAPACITY - slot (q_tail q))"
  proof -
    have "unat pre = min (unat m) (min (QUEUE_CAPACITY - slot (q_tail q)) (QUEUE_CAPACITY - length (contents q)))"
      by (simp only: pre_def char_queue_contiguous_free_def unat_min to_end_unat free_unat [OF wf])
    moreover have "min (min a b) (min c b) = min (min a b) c" for a b c :: nat
      by (simp add: min_def)
    ultimately show ?thesis
      by (simp only: m n)
  qed
  have "pre \<le> m"
    by (simp add: pre_def)
  then have post: "unat (m - pre) = n - unat pre"
    by (simp add: unat_sub m)
  have len: "length (q_buf q) = QUEUE_CAPACITY" "length (contents q) \<le> QUEUE_CAPACITY"
    using wf by (simp_all add: queue_wf_def)
  have room: "n \<le> length src" "n \<le> QUEUE_CAPACITY" "length (contents q) + n \<le> QUEUE_CAPACITY"
    using src len(2) n by linarith+
  define b where "b = ring_write (q_buf q) (unat (q_tail q)) (take n src)"
  have taken: "length (take n src) = n" "of_nat n = m"
    using room(1) by (simp_all add: m [symmetric])
  have all: "enqueue_all (take n src) q = q\<lparr>q_buf := b, q_tail := q_tail q + m\<rparr>"
    using enqueue_all_eq [OF wf, of "take n src"] room(3) unfolding taken b_def by blast
  have "unat (char_queue_length q + m) = length (contents q) + n"
    using room(3) m by (simp add: capacity unat_word_ariths)
  moreover have "char_queue_length q + m = q_tail q + m - q_head q"
    by (simp add: char_queue_length_def)
  ultimately have grown: "unat (q_tail q + m - q_head q) = length (contents q) + n"
    by simp
  have "char_queue_length q \<le> q_tail q + m - q_head q" "q_tail q + m - q_head q \<le> of_nat QUEUE_CAPACITY"
    unfolding word_le_nat_alt grown using room(3) by (simp_all add: capacity)
  then have tail: "char_queue_update_shared_tail (q_tail q + m) (q\<lparr>q_buf := b\<rparr>) = Inr (q\<lparr>q_buf := b, q_tail := q_tail q + m\<rparr>)"
    by (simp add: char_queue_update_shared_tail_def char_queue_length_def)
  note copied = batch_copies [OF cp len(1) room(1,2) pre post, folded b_def]
  have "char_queue_enqueue_batch cp num src q =
      bindR (bindR (cp (q_buf q) (slot (q_tail q)) src (unat pre)) (\<lambda>b1.
        if m - pre \<noteq> 0 then cp b1 0 (drop (unat pre) src) (unat (m - pre)) else Inr b1))
        (\<lambda>b. bindR (char_queue_update_shared_tail (q_tail q + m) (q\<lparr>q_buf := b\<rparr>)) (\<lambda>q. Inr (m, q)))"
    by (simp only: char_queue_enqueue_batch_def Let_def m_def [symmetric] pre_def [symmetric] bindR_assoc)
  then show ?thesis
    unfolding copied all taken by (simp only: bindR_Inr tail)
qed

section \<open>The TCP callback\<close>

text \<open>
  What \<open>tcp_recv_gdb\<close> does with the payload of a segment. \<open>pc\<close> stands for lwIP's
  \<open>pbuf_copy_partial\<close>, and \<open>tmp\<close> for what the array on the stack held before.
\<close>

definition tcp_recv_gdb :: "copier \<Rightarrow> copier \<Rightarrow> u8 list \<Rightarrow> u8 list \<Rightarrow> char_queue \<Rightarrow> char_queue res" where
  "tcp_recv_gdb pc cp tmp payload q =
    bindR (pc tmp 0 payload (length payload)) (\<lambda>tmp.
    bindR (put tmp (length payload) 0) (\<lambda>tmp.
    bindR (strnlen tmp BUFSIZE) (\<lambda>n.
    bindR (char_queue_enqueue_batch cp (of_nat n) tmp q) (\<lambda>(_, q). Inr q))))"

lemma tcp_recv_data:
  assumes laws: "copies pc" "copies cp" and wf: "queue_wf q" and tmp: "length tmp = BUFSIZE"
    and payload: "length payload < BUFSIZE" "0 \<notin> set payload"
  shows "tcp_recv_gdb pc cp tmp payload q = Inr (enqueue_all (take (QUEUE_CAPACITY - length (contents q)) payload) q)"
proof -
  let ?t = "patch tmp 0 (payload @ [0])"
  have fill: "pc tmp 0 payload (length payload) = Inr (patch tmp 0 payload)"
    using copiesD [OF laws(1), of 0 "length payload" tmp payload] payload(1) tmp by simp
  have "put (patch tmp 0 payload) (length payload) 0 = Inr (patch (patch tmp 0 payload) (0 + length payload) [0])"
    using payload(1) tmp by (simp add: put_patch)
  then have end_put: "put (patch tmp 0 payload) (length payload) 0 = Inr ?t"
    using patch_patch [of 0 payload tmp "[0]"] payload(1) tmp by simp
  have len: "strnlen ?t BUFSIZE = Inr (length payload)"
    using strnlen_content [of ?t BUFSIZE] payload by (simp add: content_patch) (simp add: nth_patch_zero)
  have num: "unat (of_nat (length payload) :: u32) = length payload"
    using payload(1) by (simp add: BUFSIZE_def unat_of_nat)
  define n where "n = min (length payload) (QUEUE_CAPACITY - length (contents q))"
  have "char_queue_enqueue_batch cp (of_nat (length payload)) ?t q = Inr (of_nat n, enqueue_all (take n ?t) q)"
    by (rule enqueue_batch_eq [OF wf laws(2)]) (use payload(1) tmp in \<open>simp_all add: num n_def\<close>)
  moreover have "take n ?t = take (QUEUE_CAPACITY - length (contents q)) payload"
    by (simp add: nth_patch_zero n_def min_def)
  ultimately show ?thesis
    unfolding tcp_recv_gdb_def fill bindR_Inr end_put len by simp
qed

section \<open>Properties\<close>

text \<open>C16: The ring buffer refines a bounded first-in first-out queue. For any interleaving of
  enqueue and dequeue calls, however long and wherever the wrapping 32-bit counters start, the
  accepted characters, the characters taken out and the final contents are those of a queue
  of at most 2048 characters, and nothing is lost, duplicated or reordered.\<close>

theorem char_queue_is_fifo:
  assumes "queue_wf q" and "queue_run ring_enq ring_deq ops q = (xs, ys, q')"
  shows "queue_run (spec_enq QUEUE_CAPACITY) spec_deq ops (contents q) = (xs, ys, contents q') \<and>
    ys @ contents q' = contents q @ xs \<and> queue_wf q'"
  using ring.run_spec [OF assms(1), of ops] ring.run_fifo [OF assms(1), of ops] ring.run_wf [OF assms(1), of ops] assms(2) by simp

text \<open>An empty queue whose counters are about to wrap around.\<close>

definition queue_before_wrap :: char_queue where
  "queue_before_wrap = \<lparr>q_tail = -1, q_head = -1, q_buf = replicate QUEUE_CAPACITY 0\<rparr>"

lemma queue_before_wrap_wf: "queue_wf queue_before_wrap" "contents queue_before_wrap = []"
  by (simp_all add: queue_wf_def contents_def char_queue_length_def queue_before_wrap_def)

theorem char_queue_is_fifo_witness:
  "\<exists>q'. queue_run ring_enq ring_deq [Enqueue 65, Enqueue 66, Dequeue] queue_before_wrap = ([65, 66], [65], q') \<and>
    contents q' = [66] \<and> queue_wf q'"
proof -
  obtain xs ys q' where run: "queue_run ring_enq ring_deq [Enqueue 65, Enqueue 66, Dequeue] queue_before_wrap = (xs, ys, q')"
    by (metis prod.collapse)
  from char_queue_is_fifo [OF queue_before_wrap_wf(1) this] run show ?thesis
    by (auto simp: queue_before_wrap_wf(2) spec_enq_def spec_deq_def capacity)
qed

text \<open>Enqueueing a batch is the same as enqueueing its characters one by one until the queue
  is full, also when the batch or the counters wrap around; the assertions on the new tail
  never fail, and the result is the number of characters taken.\<close>

lemma batch_is_repeated_enqueue:
  assumes "queue_wf q" and "copies cp" and "unat num \<le> length src"
    and "n = min (unat num) (QUEUE_CAPACITY - length (contents q))"
  shows "char_queue_enqueue_batch cp num src q = Inr (of_nat n, fold (\<lambda>c q. snd (char_enqueue c q)) (take n src) q) \<and>
    contents (fold (\<lambda>c q. snd (char_enqueue c q)) (take n src) q) = contents q @ take n src"
proof -
  have "length (contents q) \<le> QUEUE_CAPACITY"
    using assms(1) by (simp add: queue_wf_def)
  then have "length (contents q) + length (take n src) \<le> QUEUE_CAPACITY"
    unfolding length_take using assms(4) by linarith
  from enqueue_all_contents [OF assms(1) this] enqueue_batch_eq [OF assms] show ?thesis
    by (simp add: enqueue_all_def)
qed

definition plain_copy :: copier where
  "plain_copy b p src n = (if p + n \<le> length b \<and> n \<le> length src then Inr (patch b p (take n src)) else Inl OutOfBounds)"

lemma plain_copies: "copies plain_copy"
  by (simp add: copies_def plain_copy_def)

text \<open>The callback for received data appends the payload of a segment to the queue as far as
  it fits; what does not fit is lost without notice. A payload as large as the array on the
  stack is terminated past the end of the array.\<close>

lemma received_data_is_queued:
  assumes "copies pc" and "copies cp" and "queue_wf q" and "length tmp = BUFSIZE" and "0 \<notin> set payload"
    and "length payload \<le> BUFSIZE"
  shows "if length payload = BUFSIZE then tcp_recv_gdb pc cp tmp payload q = Inl OutOfBounds
    else \<exists>q'. tcp_recv_gdb pc cp tmp payload q = Inr q' \<and> queue_wf q' \<and>
      contents q' = contents q @ take (QUEUE_CAPACITY - length (contents q)) payload"
proof (cases "length payload = BUFSIZE")
  case True
  have "pc tmp 0 payload (length payload) = Inr payload"
    using copiesD [OF assms(1), of 0 "length payload" tmp payload] True assms(4) by (simp add: patch_def)
  then show ?thesis
    using True by (simp add: tcp_recv_gdb_def put_def)
next
  case False
  let ?p = "take (QUEUE_CAPACITY - length (contents q)) payload"
  have "length (contents q) \<le> QUEUE_CAPACITY"
    using assms(3) by (simp add: queue_wf_def)
  then have "length (contents q) + length ?p \<le> QUEUE_CAPACITY"
    unfolding length_take by linarith
  from enqueue_all_contents [OF assms(3) this] tcp_recv_data [OF assms(1-4) _ assms(5)] False assms(6) show ?thesis
    by simp
qed

end
