(* ===== verification/Gdb_Network.thy ===== *)
theory Gdb_Network
  imports Gdb_Debugger Char_Queue
begin

text \<open>
  The event handlers of the network example
  (\<open>examples/microkit_sddf_net/apps/debugger/debugger.c\<close>, \<open>tcp.c\<close>): the event loop of
  \<open>Gdb_EventLoop\<close> fed from the ring buffer that the TCP callbacks fill. lwIP is not in the
  repository: a notification carries the callbacks it makes while it processes what has been
  received. The field \<open>d_rx\<close> of the debugger is not used here; the ring buffer takes its place.
\<close>

section \<open>Characters from the ring buffer\<close>

definition net_gdb_get_char :: "char_queue \<Rightarrow> (u8 \<times> char_queue) option" where
  "net_gdb_get_char q =
    (if char_queue_empty q (q_head q) then None
     else case char_dequeue 0 q of (_, q, c) \<Rightarrow> Some (c, q))"

lemma get_char_decreases:
  assumes "net_gdb_get_char q = Some (c, q')"
  shows "unat (char_queue_length q') < unat (char_queue_length q)"
proof -
  have "q_tail q - q_head q \<noteq> 0" and q': "q' = q\<lparr>q_head := q_head q + 1\<rparr>"
    using assms by (auto simp: net_gdb_get_char_def char_dequeue_def char_queue_empty_def split: if_splits)
  then have "unat (q_tail q - q_head q - 1) < unat (q_tail q - q_head q)"
    using unat_minus_one [of "q_tail q - q_head q"] by (simp add: unat_gt_0)
  then show ?thesis
    by (simp add: q' char_queue_length_def diff_diff_add)
qed

function net_run_main ::
  "('k, 'r) kernel \<Rightarrow> 'r user_context_scheme \<Rightarrow> (cptr \<Rightarrow> u32 \<times> u32) \<Rightarrow> char_queue \<Rightarrow> 'k debugger \<Rightarrow> (char_queue \<times> 'k debugger) res"
where
  "net_run_main K uc ids q d = (case net_gdb_get_char q of
      None \<Rightarrow> Inr (q, d\<lparr>d_state := eventState_waitingForInputEventLoop\<rparr>)
    | Some (c, q) \<Rightarrow> bindR (main_char net_variant K uc ids c d) (net_run_main K uc ids q))"
  by pat_completeness auto
termination
  by (relation "measure (\<lambda>(K, uc, ids, q, d). unat (char_queue_length q))") (auto intro: get_char_decreases)

function net_run_fault :: "char_queue \<Rightarrow> nat \<Rightarrow> nat \<Rightarrow> 'k debugger \<Rightarrow> (char_queue \<times> 'k debugger) res" where
  "net_run_fault q x y d = (case net_gdb_get_char q of
      None \<Rightarrow> Inr (q, d\<lparr>d_state := eventState_waitingForInputFault, d_fault := Some (x, y)\<rparr>)
    | Some (c, q) \<Rightarrow>
        if c = ch CHR ''+'' then Inr (q, d\<lparr>d_state := eventState_waitingForInputEventLoop, d_fault := None\<rparr>)
        else bindR (send_output net_variant x y d) (\<lambda>(x, y, d). net_run_fault q x y d))"
  by pat_completeness auto
termination
  by (relation "measure (\<lambda>(q, x, y, d). unat (char_queue_length q))") (auto intro: get_char_decreases)

declare net_run_main.simps [simp del] net_run_fault.simps [simp del]

section \<open>Events\<close>

record 'k net_debugger =
  n_debugger :: "'k debugger"
  n_queue :: char_queue
  tcp_initialized :: bool
  debugger_initialized :: bool

datatype lwip_event = Accept | Segment "u8 list"

definition tcp_accept_gdb :: "'k net_debugger \<Rightarrow> 'k net_debugger" where
  "tcp_accept_gdb n = n\<lparr>tcp_initialized := True\<rparr>"

fun process_rx :: "copier \<Rightarrow> copier \<Rightarrow> u8 list \<Rightarrow> lwip_event list \<Rightarrow> 'k net_debugger \<Rightarrow> 'k net_debugger res" where
  "process_rx pc cp tmp [] n = Inr n"
| "process_rx pc cp tmp (Accept # es) n = process_rx pc cp tmp es (tcp_accept_gdb n)"
| "process_rx pc cp tmp (Segment payload # es) n =
     bindR (tcp_recv_gdb pc cp tmp payload (n_queue n)) (\<lambda>q. process_rx pc cp tmp es (n\<lparr>n_queue := q\<rparr>))"

text \<open>The two coroutines are switched to as in the serial example.\<close>

definition net_switch :: "('k, 'r) kernel \<Rightarrow> 'r user_context_scheme \<Rightarrow> (cptr \<Rightarrow> u32 \<times> u32) \<Rightarrow> 'k net_debugger \<Rightarrow> 'k net_debugger res" where
  "net_switch K uc ids n =
    (let d = n_debugger n
     in bindR (if d_state d = eventState_waitingForInputFault
           then case d_fault d of
                  None \<Rightarrow> Inl NullDeref
                | Some (x, y) \<Rightarrow> net_run_fault (n_queue n) x y (d\<lparr>d_state := eventState_none\<rparr>)
           else Inr (n_queue n, d)) (\<lambda>(q, d).
        bindR (if d_state d = eventState_waitingForInputEventLoop
               then net_run_main K uc ids q (d\<lparr>d_state := eventState_none\<rparr>)
               else Inr (q, d)) (\<lambda>(q, d). Inr (n\<lparr>n_queue := q, n_debugger := d\<rparr>))))"

definition gdb_connected :: "('k, 'r) kernel \<Rightarrow> 'r user_context_scheme \<Rightarrow> (cptr \<Rightarrow> u32 \<times> u32) \<Rightarrow> 'k net_debugger \<Rightarrow> 'k net_debugger res" where
  "gdb_connected K uc ids n =
    bindR (net_run_main K uc ids (n_queue n) ((n_debugger n)\<lparr>d_main := Reading Start\<rparr>)) (\<lambda>(q, d).
    Inr (n\<lparr>n_queue := q, n_debugger := d, debugger_initialized := True\<rparr>))"

text \<open>
  A notification on the receive channel (\<open>Some\<close>, with the callbacks of lwIP) or another one. What
  the handlers of the other channels do does not touch this state: \<open>transmit\<close> is in
  \<open>Gdb_Backlog\<close>, the timeouts are lwIP's.
\<close>

definition net_notified ::
  "copier \<Rightarrow> copier \<Rightarrow> u8 list \<Rightarrow> ('k, 'r) kernel \<Rightarrow> 'r user_context_scheme \<Rightarrow> (cptr \<Rightarrow> u32 \<times> u32) \<Rightarrow>
     lwip_event list option \<Rightarrow> 'k net_debugger \<Rightarrow> 'k net_debugger res"
where
  "net_notified pc cp tmp K uc ids rx n =
    bindR (case rx of
        None \<Rightarrow> Inr n
      | Some es \<Rightarrow> bindR (process_rx pc cp tmp es n) (\<lambda>n.
          if debugger_initialized n then net_switch K uc ids n else Inr n)) (\<lambda>n.
    if tcp_initialized n \<and> \<not> debugger_initialized n then gdb_connected K uc ids n else Inr n)"

definition net_fault :: "('k, 'r) kernel \<Rightarrow> u64 \<Rightarrow> u64 \<Rightarrow> 'k net_debugger \<Rightarrow> (bool option \<times> 'k net_debugger) res" where
  "net_fault K child label n =
    (let d = n_debugger n; s = suspend_system K (d_lib d)
     in bindR (gdb_handle_fault K child 0 label (d_output d) s) (\<lambda>(err, have_reply, b, s).
        bindR (send_output net_variant 0 0 (d\<lparr>d_lib := s, d_output := b\<rparr>)) (\<lambda>(x, y, d).
        bindR (net_run_fault (n_queue n) x y d) (\<lambda>(q, d).
        Inr (have_reply, n\<lparr>n_queue := q, n_debugger := d\<rparr>)))))"

definition net_init :: "('k, 'r) kernel \<Rightarrow> u64 \<Rightarrow> u64 \<Rightarrow> 'k \<Rightarrow> 'k net_debugger res" where
  "net_init K base_vspace base_tcb k =
    bindR (iterR (register_debugee K base_vspace base_tcb) [0..<NUM_DEBUGEES] (start_debugger k)) (\<lambda>d.
    Inr \<lparr>n_debugger = d\<lparr>d_lib := suspend_system K (d_lib d)\<rparr>,
      n_queue = \<lparr>q_tail = 0, q_head = 0, q_buf = replicate BUFSIZE 0\<rparr>,
      tcp_initialized = False, debugger_initialized = False\<rparr>)"

section \<open>The ring buffer as the receive queue\<close>

text \<open>
  What the coroutines need of the queue they read from: it holds a list of characters, and gives
  them in order until there are none.
\<close>

locale char_source =
  fixes get :: "'q \<Rightarrow> (u8 \<times> 'q) option" and wf :: "'q \<Rightarrow> bool" and chars :: "'q \<Rightarrow> u8 list"
  assumes get_none: "wf q \<Longrightarrow> chars q = [] \<Longrightarrow> get q = None"
    and get_some: "wf q \<Longrightarrow> chars q = c # s \<Longrightarrow> \<exists>q'. get q = Some (c, q') \<and> wf q' \<and> chars q' = s"
begin

lemma drain_induct [consumes 1, case_names empty next_char]:
  assumes "wf q"
    and empty: "\<And>q d. wf q \<Longrightarrow> chars q = [] \<Longrightarrow> get q = None \<Longrightarrow> P q d"
    and next_char: "\<And>q c q' d. wf q \<Longrightarrow> chars q = c # chars q' \<Longrightarrow> get q = Some (c, q') \<Longrightarrow> wf q' \<Longrightarrow> (\<And>d. P q' d) \<Longrightarrow> P q d"
  shows "P q d"
  using assms(1)
proof (induction "chars q" arbitrary: q d)
  case Nil
  then show ?case
    using empty get_none by simp
next
  case (Cons c s)
  then obtain q' where "get q = Some (c, q')" "wf q'" "chars q' = s"
    using get_some by metis
  with Cons show ?case
    by (intro next_char [of q c q']) simp_all
qed

end

lemma get_char_empty: "contents q = [] \<Longrightarrow> net_gdb_get_char q = None"
  by (simp add: net_gdb_get_char_def no_contents_iff)

lemma get_char_next:
  assumes "queue_wf q" and "contents q = c # s"
  shows "\<exists>q'. net_gdb_get_char q = Some (c, q') \<and> queue_wf q' \<and> contents q' = s"
proof -
  note deq = dequeue_contents [OF assms, of 0]
  have "net_gdb_get_char q = Some (c, fst (snd (char_dequeue 0 q)))"
    using deq(4) assms(2) by (simp add: net_gdb_get_char_def no_contents_iff split_def)
  then show ?thesis
    using deq(2,3) by blast
qed

interpretation tcp_input: char_source net_gdb_get_char queue_wf contents
  by unfold_locales (auto intro: get_char_empty get_char_next)

text \<open>The steps of the coroutines leave the field \<open>d_rx\<close> alone.\<close>

lemma main_char_rx:
  assumes "main_char V K uc ids c d = Inr d'"
  shows "d_rx d' = d_rx d"
  using main_char_waiting [where V = V and K = K and uc = uc and ids = ids and c = c and x = "d_rx d" and y = "d_state d" and d = d]
    assms by simp (metis debugger.ext_inject debugger.surjective debugger.update_convs(6,9))

lemma send_output_rx: "send_output V x y d = Inr (x', y', d') \<Longrightarrow> d_rx d' = d_rx d"
  by (auto simp: send_output_def bindR_eq_Inr_iff)

text \<open>What a run over the ring buffer comes to, given the run over its contents.\<close>

definition drains :: "'k debugger res \<Rightarrow> (char_queue \<times> 'k debugger) res \<Rightarrow> bool" where
  "drains m r \<longleftrightarrow> (case m of
      Inl e \<Rightarrow> r = Inl e
    | Inr d \<Rightarrow> \<exists>q. r = Inr (q, d\<lparr>d_rx := []\<rparr>) \<and> queue_wf q \<and> contents q = d_rx d)"

lemma drains_bind: "(\<And>a. m = Inr a \<Longrightarrow> drains (f a) (g a)) \<Longrightarrow> drains (bindR m f) (bindR m g)"
  by (cases m) (simp_all add: drains_def)

lemma net_run_main_drains:
  assumes "queue_wf q" and "d_rx d = []"
  shows "drains (run_main net_variant K uc ids (contents q) d) (net_run_main K uc ids q d)"
  using assms
proof (induction q d rule: tcp_input.drain_induct)
  case (empty q d)
  then show ?case
    by (simp add: net_run_main.simps [of K uc ids q d] drains_def)
next
  case (next_char q c q' d)
  then have "drains (run_main net_variant K uc ids (contents q') d1) (net_run_main K uc ids q' d1)"
    if "main_char net_variant K uc ids c d = Inr d1" for d1
    using main_char_rx [OF that] by simp
  then show ?case
    using next_char.hyps by (simp add: net_run_main.simps [of K uc ids q d] drains_bind)
qed

lemma net_run_fault_drains:
  assumes "queue_wf q" and "d_rx d = []"
  shows "drains (run_fault net_variant (contents q) x y d) (net_run_fault q x y d)"
proof -
  have "d_rx d = [] \<longrightarrow> drains (run_fault net_variant (contents q) x y d) (net_run_fault q x y d)"
    using assms(1)
  proof (induction q "(x, y, d)" arbitrary: x y d rule: tcp_input.drain_induct)
    case (empty q)
    then show ?case
      by (simp add: net_run_fault.simps [of q x y d] drains_def)
  next
    case (next_char q c q')
    then have "drains (case a of (x, y, d) \<Rightarrow> run_fault net_variant (contents q') x y d) (case a of (x, y, d) \<Rightarrow> net_run_fault q' x y d)"
      if "send_output net_variant x y d = Inr a" "d_rx d = []" for a
      using send_output_rx that by (cases a) fastforce
    then show ?case
      using next_char.hyps by (cases "c = ch CHR ''+''") (auto simp: net_run_fault.simps [of q x y d] drains_bind drains_def [of "Inr _"])
  qed
  with assms(2) show ?thesis
    by simp
qed

lemma drains_result:
  "drains m r \<Longrightarrow> case m of Inl e \<Rightarrow> bindR r h = Inl e
     | Inr d \<Rightarrow> \<exists>q. bindR r h = h (q, d\<lparr>d_rx := []\<rparr>) \<and> queue_wf q \<and> contents q = d_rx d"
  by (cases m) (auto simp: drains_def)

text \<open>Switching to the coroutines is the notification of the serial example.\<close>

lemma net_switch_notified:
  fixes n :: "'k net_debugger"
  assumes "queue_wf (n_queue n)" and "d_rx (n_debugger n) = []"
  shows "case notified net_variant K uc ids ((n_debugger n)\<lparr>d_rx := contents (n_queue n)\<rparr>) of
      Inl e \<Rightarrow> net_switch K uc ids n = Inl e
    | Inr d \<Rightarrow> \<exists>q. net_switch K uc ids n = Inr (n\<lparr>n_queue := q, n_debugger := d\<lparr>d_rx := []\<rparr>\<rparr>) \<and> queue_wf q \<and> contents q = d_rx d"
proof -
  let ?d = "n_debugger n" and ?q = "n_queue n"
  let ?m = "if d_state ?d = eventState_waitingForInputFault
      then case d_fault ?d of None \<Rightarrow> Inl NullDeref | Some (x, y) \<Rightarrow> run_fault net_variant (contents ?q) x y (?d\<lparr>d_state := eventState_none\<rparr>)
      else Inr (?d\<lparr>d_rx := contents ?q\<rparr>)"
  let ?r = "if d_state ?d = eventState_waitingForInputFault
      then case d_fault ?d of None \<Rightarrow> Inl NullDeref | Some (x, y) \<Rightarrow> net_run_fault ?q x y (?d\<lparr>d_state := eventState_none\<rparr>)
      else Inr (?q, ?d)"
  let ?f = "\<lambda>d. if d_state d = eventState_waitingForInputEventLoop then run_main net_variant K uc ids (d_rx d) d else Inr d"
  let ?g = "\<lambda>(q, d). if d_state d = eventState_waitingForInputEventLoop
      then net_run_main K uc ids q (d\<lparr>d_state := eventState_none\<rparr>) else Inr (q, d)"
  have fault: "drains (run_fault net_variant (contents ?q) x y (?d\<lparr>d_state := eventState_none\<rparr>)) (net_run_fault ?q x y (?d\<lparr>d_state := eventState_none\<rparr>))"
    for x y
    using net_run_fault_drains [OF assms(1), of "?d\<lparr>d_state := eventState_none\<rparr>" x y] assms(2) by simp
  have first: "drains ?m ?r"
    using fault assms by (auto simp: drains_def [of "Inl _"] drains_def [of "Inr _"] split: option.split)
  have second: "drains (?f d) (?g (q, d\<lparr>d_rx := []\<rparr>))" if "queue_wf q" "contents q = d_rx d" for q and d :: "'k debugger"
    using net_run_main_drains [OF that(1), of "d\<lparr>d_rx := [], d_state := eventState_none\<rparr>" K uc ids] that by (simp add: drains_def [of "Inr d"])
  have both: "drains (bindR ?m ?f) (bindR ?r ?g)"
  proof (cases ?m)
    case (Inl e)
    with first show ?thesis
      by (simp add: drains_def del: if_split)
  next
    case (Inr d)
    with first obtain q where "?r = Inr (q, d\<lparr>d_rx := []\<rparr>)" "queue_wf q" "contents q = d_rx d"
      by (auto simp: drains_def simp del: if_split)
    with Inr second show ?thesis
      by (simp del: if_split)
  qed
  have run: "notified net_variant K uc ids (?d\<lparr>d_rx := contents ?q\<rparr>) = bindR ?m ?f"
    by (auto simp: notified_eq split: option.split intro!: bindR_cong)
  have switch: "net_switch K uc ids n = bindR (bindR ?r ?g) (\<lambda>(q, d). Inr (n\<lparr>n_queue := q, n_debugger := d\<rparr>))"
    by (simp add: net_switch_def Let_def bindR_assoc split_def)
  show ?thesis
    using drains_result [OF both, where h = "\<lambda>(q, d). Inr (n\<lparr>n_queue := q, n_debugger := d\<rparr>)"]
    unfolding run switch prod.case .
qed

section \<open>Properties\<close>

text \<open>C40: What arrives over the network reaches the event loop. When a segment is received, the
  debugger does what it does on the serial line when the characters that were queued and the
  payload, as far as the queue has room, arrive there: same replies, same state, same fault if
  there is one; what it does not consume is left in the queue in order.\<close>

theorem segment_reaches_event_loop:
  assumes "copies pc" and "copies cp" and "queue_wf (n_queue n)" and "d_rx (n_debugger n) = []" and "length tmp = BUFSIZE"
    and "0 \<notin> set payload" and "length payload < BUFSIZE" and "debugger_initialized n"
  shows "case notified net_variant K uc ids ((n_debugger n)\<lparr>d_rx := contents (n_queue n) @
        take (QUEUE_CAPACITY - length (contents (n_queue n))) payload\<rparr>) of
      Inl e \<Rightarrow> net_notified pc cp tmp K uc ids (Some [Segment payload]) n = Inl e
    | Inr d \<Rightarrow> \<exists>q. net_notified pc cp tmp K uc ids (Some [Segment payload]) n = Inr (n\<lparr>n_queue := q, n_debugger := d\<lparr>d_rx := []\<rparr>\<rparr>) \<and>
        queue_wf q \<and> contents q = d_rx d"
proof -
  obtain q where q: "tcp_recv_gdb pc cp tmp payload (n_queue n) = Inr q" "queue_wf q"
    "contents q = contents (n_queue n) @ take (QUEUE_CAPACITY - length (contents (n_queue n))) payload"
    using received_data_is_queued [OF assms(1-3,5,6)] assms(7) by auto
  let ?n = "n\<lparr>n_queue := q\<rparr>"
  have "net_notified pc cp tmp K uc ids (Some [Segment payload]) n = bindR (net_switch K uc ids ?n) (\<lambda>n.
      if tcp_initialized n \<and> \<not> debugger_initialized n then gdb_connected K uc ids n else Inr n)"
    using q(1) assms(8) by (simp add: net_notified_def)
  then show ?thesis
    using net_switch_notified [of ?n K uc ids] q(2,3) assms(4,8) by (auto split: sum.splits)
qed

definition connected_debugger :: "machine net_debugger" where
  "connected_debugger = \<lparr>n_debugger = running_debugger, n_queue = \<lparr>q_tail = 0, q_head = 0, q_buf = replicate BUFSIZE 0\<rparr>,
     tcp_initialized = True, debugger_initialized = True\<rparr>"

theorem segment_reaches_event_loop_witness:
  "\<exists>q. net_notified plain_copy plain_copy (replicate BUFSIZE 7) machine_kernel zero_context (\<lambda>_. (0, 0)) (Some [Segment (str ''+$'')]) connected_debugger =
      Inr (connected_debugger\<lparr>n_queue := q, n_debugger := running_debugger\<lparr>d_main := Reading (Body 0 0)\<rparr>\<rparr>) \<and> contents q = []"
proof -
  have empty: "queue_wf (n_queue connected_debugger)" "contents (n_queue connected_debugger) = []"
    by (simp_all add: connected_debugger_def queue_wf_def contents_def char_queue_length_def QUEUE_CAPACITY_def)
  have d: "d_rx (n_debugger connected_debugger) = []" "debugger_initialized connected_debugger" "n_debugger connected_debugger = running_debugger"
    by (simp_all add: connected_debugger_def running_debugger_def start_debugger_def)
  have run: "notified net_variant machine_kernel zero_context (\<lambda>_. (0, 0)) (running_debugger\<lparr>d_rx := str ''+$''\<rparr>) =
      Inr (running_debugger\<lparr>d_main := Reading (Body 0 0)\<rparr>)"
    by (simp add: notified_def running_debugger_def start_debugger_def main_char_def)
  have room: "take (QUEUE_CAPACITY - length []) (str ''+$'') = str ''+$''"
    by (simp add: QUEUE_CAPACITY_def BUFSIZE_def)
  have "length (replicate BUFSIZE (7 :: u8)) = BUFSIZE" "0 \<notin> set (str ''+$'')" "length (str ''+$'') < BUFSIZE"
    by (simp_all add: BUFSIZE_def)
  from segment_reaches_event_loop [OF plain_copies plain_copies empty(1) d(1) this d(2), of machine_kernel zero_context "\<lambda>_. (0, 0)"]
  have "\<exists>q. net_notified plain_copy plain_copy (replicate BUFSIZE 7) machine_kernel zero_context (\<lambda>_. (0, 0)) (Some [Segment (str ''+$'')]) connected_debugger =
      Inr (connected_debugger\<lparr>n_queue := q, n_debugger := (running_debugger\<lparr>d_main := Reading (Body 0 0)\<rparr>)\<lparr>d_rx := []\<rparr>\<rparr>) \<and> queue_wf q \<and>
      contents q = d_rx (running_debugger\<lparr>d_main := Reading (Body 0 0)\<rparr>)"
    unfolding empty(2) d(3) append_Nil room run sum.case .
  then show ?thesis
    by (simp add: running_debugger_def start_debugger_def) blast
qed

section \<open>The debugger over time\<close>

text \<open>The array \<open>tmp\<close> of the callback is on the stack: it holds anything, and has its size.\<close>

inductive net_step :: "copier \<Rightarrow> copier \<Rightarrow> ('k, 'r) kernel \<Rightarrow> 'k net_debugger \<Rightarrow> 'k net_debugger \<Rightarrow> bool" for pc cp K where
  notification: "net_notified pc cp tmp K uc ids rx n = Inr n' \<Longrightarrow> net_step pc cp K n n'"
| a_fault: "net_fault K child label n = Inr (hr, n') \<Longrightarrow> net_step pc cp K n n'"
| elsewhere: "net_step pc cp K n (n\<lparr>n_debugger := (n_debugger n)\<lparr>d_lib := (d_lib (n_debugger n))\<lparr>ks := k\<rparr>\<rparr>\<rparr>)"

inductive net_reachable :: "copier \<Rightarrow> copier \<Rightarrow> ('k, 'r) kernel \<Rightarrow> 'k net_debugger \<Rightarrow> bool" for pc cp K where
  started: "net_init K base_vspace base_tcb k = Inr n \<Longrightarrow> net_reachable pc cp K n"
| step: "net_reachable pc cp K n \<Longrightarrow> net_step pc cp K n n' \<Longrightarrow> net_reachable pc cp K n'"

definition net_inv :: "'k net_debugger \<Rightarrow> bool" where
  "net_inv n \<longleftrightarrow> queue_wf (n_queue n) \<and> d_rx (n_debugger n) = [] \<and> debugger_inv (n_debugger n) \<and>
     (debugger_initialized n \<longrightarrow> waits (n_debugger n) \<and> contents (n_queue n) = [])"

lemma inv_rx [simp]: "debugger_inv (d\<lparr>d_rx := r\<rparr>) = debugger_inv d" "waits (d\<lparr>d_rx := r\<rparr>) = waits d"
  by (simp_all add: debugger_inv_def waits_def)

lemma drains_InrE:
  assumes "drains m r" and "r = Inr (q, d')"
  obtains d where "m = Inr d" and "d' = d\<lparr>d_rx := []\<rparr>" and "queue_wf q" and "contents q = d_rx d"
  using assms by (auto simp: drains_def split: sum.splits)

text \<open>The callbacks keep the queue, whatever arrives.\<close>

lemma strnlen_le: "strnlen s n = Inr l \<Longrightarrow> l \<le> length s \<and> l \<le> n"
  by (induction s n arbitrary: l rule: strnlen.induct) (auto simp: bindR_eq_Inr_iff split: if_splits)

lemma tcp_recv_wf:
  assumes "copies cp" and "queue_wf q" and "tcp_recv_gdb pc cp tmp payload q = Inr q'"
  shows "queue_wf q'"
proof -
  obtain t n m where n: "strnlen t BUFSIZE = Inr n" and enq: "char_queue_enqueue_batch cp (of_nat n) t q = Inr (m, q')"
    using assms(3) by (auto simp: tcp_recv_gdb_def bindR_eq_Inr_iff)
  let ?k = "min n (QUEUE_CAPACITY - length (contents q))"
  have num: "unat (of_nat n :: u32) = n"
    using strnlen_le [OF n] by (simp add: BUFSIZE_def unat_of_nat)
  have "q' = enqueue_all (take ?k t) q"
    using enqueue_batch_eq [OF assms(2,1), of "of_nat n" t ?k] enq strnlen_le [OF n] by (simp add: num)
  moreover have "length (contents q) + length (take ?k t) \<le> QUEUE_CAPACITY"
    using assms(2) unfolding queue_wf_def length_take length_contents by linarith
  ultimately show ?thesis
    using enqueue_all_contents [OF assms(2)] by simp
qed

lemma process_rx_keeps:
  "process_rx pc cp tmp es n = Inr n' \<Longrightarrow> copies cp \<Longrightarrow> queue_wf (n_queue n) \<Longrightarrow>
     queue_wf (n_queue n') \<and> n_debugger n' = n_debugger n \<and> debugger_initialized n' = debugger_initialized n \<and>
     (tcp_initialized n \<longrightarrow> tcp_initialized n')"
proof (induction es arbitrary: n)
  case (Cons e es)
  show ?case
  proof (cases e)
    case Accept
    then show ?thesis
      using Cons.IH [of "tcp_accept_gdb n"] Cons.prems by (simp add: tcp_accept_gdb_def)
  next
    case (Segment payload)
    then obtain q where "tcp_recv_gdb pc cp tmp payload (n_queue n) = Inr q" "process_rx pc cp tmp es (n\<lparr>n_queue := q\<rparr>) = Inr n'"
      using Cons.prems(1) by (auto simp: bindR_eq_Inr_iff)
    then show ?thesis
      using Cons.IH [of "n\<lparr>n_queue := q\<rparr>"] Cons.prems tcp_recv_wf by auto
  qed
qed simp

text \<open>The steps keep the invariant.\<close>

lemma net_switch_inv:
  assumes "net_switch K uc ids n = Inr n'" and "queue_wf (n_queue n)" and "d_rx (n_debugger n) = []"
    and "debugger_inv (n_debugger n)" and "waits (n_debugger n)" and "debugger_initialized n"
  shows "net_inv n' \<and> debugger_initialized n' = debugger_initialized n \<and> tcp_initialized n' = tcp_initialized n"
proof -
  let ?d = "(n_debugger n)\<lparr>d_rx := contents (n_queue n)\<rparr>"
  obtain d q where run: "notified net_variant K uc ids ?d = Inr d" and n': "n' = n\<lparr>n_queue := q, n_debugger := d\<lparr>d_rx := []\<rparr>\<rparr>"
    and q: "queue_wf q" "contents q = d_rx d"
    using net_switch_notified [OF assms(2,3), of K uc ids] assms(1) by (auto split: sum.splits)
  have "debugger_inv d \<and> waits d \<and> d_rx d = []"
    using assms(4,5) by (intro notified_inv [OF run] variants_ok) simp_all
  with n' q show ?thesis
    by (simp add: net_inv_def)
qed

lemma gdb_connected_inv:
  assumes "gdb_connected K uc ids n = Inr n'" and "net_inv n"
  shows "net_inv n' \<and> debugger_initialized n' \<and> tcp_initialized n' = tcp_initialized n"
proof -
  let ?d = "(n_debugger n)\<lparr>d_main := Reading Start\<rparr>"
  obtain q d' where run: "net_run_main K uc ids (n_queue n) ?d = Inr (q, d')"
    and n': "n' = n\<lparr>n_queue := q, n_debugger := d', debugger_initialized := True\<rparr>"
    using assms(1) by (auto simp: gdb_connected_def bindR_eq_Inr_iff)
  have inv: "queue_wf (n_queue n)" "d_rx ?d = []" "debugger_inv ?d"
    using assms(2) by (simp_all add: net_inv_def debugger_inv_def)
  obtain d where d: "run_main net_variant K uc ids (contents (n_queue n)) ?d = Inr d" "d' = d\<lparr>d_rx := []\<rparr>"
    "queue_wf q" "contents q = d_rx d"
    by (rule drains_InrE [OF net_run_main_drains [OF inv(1,2)] run])
  with run_main_inv [OF d(1) inv(3) variants_ok(2)] run_main_stops [OF d(1)] n' show ?thesis
    by (simp add: net_inv_def)
qed

lemma net_notified_inv:
  assumes "net_notified pc cp tmp K uc ids rx n = Inr n'" and "net_inv n" and "copies cp"
    and "debugger_initialized n = tcp_initialized n"
  shows "net_inv n' \<and> debugger_initialized n' = tcp_initialized n'"
proof -
  obtain n1 where first: "(case rx of None \<Rightarrow> Inr n
      | Some es \<Rightarrow> bindR (process_rx pc cp tmp es n) (\<lambda>n. if debugger_initialized n then net_switch K uc ids n else Inr n)) = Inr n1"
    and rest: "(if tcp_initialized n1 \<and> \<not> debugger_initialized n1 then gdb_connected K uc ids n1 else Inr n1) = Inr n'"
    using assms(1) by (auto simp: net_notified_def bindR_eq_Inr_iff)
  have "net_inv n1 \<and> (debugger_initialized n1 \<longrightarrow> tcp_initialized n1)"
  proof (cases rx)
    case (Some es)
    then obtain m where m: "process_rx pc cp tmp es n = Inr m"
      and switch: "(if debugger_initialized m then net_switch K uc ids m else Inr m) = Inr n1"
      using first by (auto simp: bindR_eq_Inr_iff)
    have inv: "queue_wf (n_queue n)" "d_rx (n_debugger n) = []" "debugger_inv (n_debugger n)" "debugger_initialized n \<longrightarrow> waits (n_debugger n)"
      using assms(2) by (simp_all add: net_inv_def)
    note keeps = process_rx_keeps [OF m assms(3) inv(1)]
    show ?thesis
    proof (cases "debugger_initialized m")
      case True
      with switch have switched: "net_switch K uc ids m = Inr n1"
        by simp
      have "net_inv n1 \<and> debugger_initialized n1 = debugger_initialized m \<and> tcp_initialized n1 = tcp_initialized m"
        by (rule net_switch_inv [OF switched]) (use keeps inv True in simp_all)
      with keeps True assms(4) show ?thesis
        by simp
    next
      case False
      with switch keeps inv show ?thesis
        by (auto simp: net_inv_def)
    qed
  qed (use first assms(2,4) in simp)
  with rest gdb_connected_inv [of K uc ids n1 n'] show ?thesis
    by (auto split: if_splits)
qed

lemma net_fault_inv:
  assumes "net_fault K child label n = Inr (hr, n')" and "net_inv n"
  shows "net_inv n' \<and> debugger_initialized n' = debugger_initialized n \<and> tcp_initialized n' = tcp_initialized n"
proof -
  let ?d = "n_debugger n"
  have inv: "queue_wf (n_queue n)" "d_rx ?d = []" "debugger_inv ?d"
    using assms(2) by (simp_all add: net_inv_def)
  obtain err b s x y d1 q d' where run: "gdb_handle_fault K child 0 label (d_output ?d) (suspend_system K (d_lib ?d)) = Inr (err, hr, b, s)"
    and sent: "send_output net_variant 0 0 (?d\<lparr>d_lib := s, d_output := b\<rparr>) = Inr (x, y, d1)"
    and wait: "net_run_fault (n_queue n) x y d1 = Inr (q, d')" and n': "n' = n\<lparr>n_queue := q, n_debugger := d'\<rparr>"
    using assms(1) by (auto simp: net_fault_def Let_def bindR_eq_Inr_iff)
  have "gdb_inv s"
    using inv(3) by (intro gdb_handle_fault_inv [OF _ run]) (simp add: debugger_inv_def gdb_inv_suspend)
  then have d1: "debugger_inv d1" "d_rx d1 = []"
    using inv send_output_keeps [OF sent] send_output_rx [OF sent] by (simp_all add: debugger_inv_def)
  obtain d where d: "run_fault net_variant (contents (n_queue n)) x y d1 = Inr d" "d' = d\<lparr>d_rx := []\<rparr>"
    "queue_wf q" "contents q = d_rx d"
    by (rule drains_InrE [OF net_run_fault_drains [OF inv(1) d1(2)] wait])
  have "contents q = []" if "debugger_initialized n"
    using that assms(2) d(1,4) by (auto simp: net_inv_def)
  with run_fault_inv [OF d(1) d1(1)] d n' show ?thesis
    by (simp add: net_inv_def)
qed

lemma net_init_inv:
  assumes "net_init K base_vspace base_tcb k = Inr n"
  shows "net_inv n \<and> \<not> debugger_initialized n \<and> \<not> tcp_initialized n"
proof -
  have start: "length (d_output (start_debugger k)) = BUFSIZE" "registered base_vspace base_tcb 0 (d_lib (start_debugger k))"
      "gdb_inv (d_lib (start_debugger k))"
    by (simp_all add: start_debugger_def registered_start gdb_inv_init)
  have "NUM_DEBUGEES \<le> MAX_PDS"
    by (simp add: NUM_DEBUGEES_def MAX_PDS_def)
  then obtain s b where "iterR (register_debugee K base_vspace base_tcb) [0..<NUM_DEBUGEES] (start_debugger k) =
      Inr ((start_debugger k)\<lparr>d_lib := s, d_output := b\<rparr>)" and "gdb_inv s"
    using register_debugees [OF start] by blast
  with assms show ?thesis
    by (auto simp: net_init_def net_inv_def debugger_inv_def start_debugger_def gdb_inv_suspend input_ok_start queue_wf_def
        char_queue_length_def QUEUE_CAPACITY_def)
qed

text \<open>C18: The debugger of the network example keeps listening. In every state that callbacks of
  lwIP, in any order and with any payload, notifications and faults can lead to, the ring buffer
  and the input buffer are intact and the library's tables are consistent; the event loop has
  been started exactly if a connection has been accepted, and then nothing received is left
  unread and the debugger waits for input, in the fault message only if there is one.\<close>

theorem network_keeps_listening:
  assumes "copies cp" and "net_reachable pc cp K n"
  shows "queue_wf (n_queue n) \<and> input_ok (d_input (n_debugger n)) \<and> gdb_inv (d_lib (n_debugger n)) \<and>
    debugger_initialized n = tcp_initialized n \<and>
    (debugger_initialized n \<longrightarrow> contents (n_queue n) = [] \<and> d_state (n_debugger n) \<noteq> eventState_none \<and>
       (d_state (n_debugger n) = eventState_waitingForInputFault \<longrightarrow> d_fault (n_debugger n) \<noteq> None))"
proof -
  have "net_inv n \<and> debugger_initialized n = tcp_initialized n"
    using assms(2)
  proof (induction rule: net_reachable.induct)
    case (started base_vspace base_tcb k n)
    then show ?case
      using net_init_inv [OF started] by simp
  next
    case (step n n')
    from step.hyps(2) step.IH show ?case
    proof (induction rule: net_step.induct)
      case (notification tmp uc ids rx n n')
      then show ?case
        using net_notified_inv [OF notification(1) _ assms(1)] by blast
    next
      case (a_fault child label n hr n')
      then show ?case
        using net_fault_inv [OF a_fault(1)] by auto
    qed (simp add: net_inv_def debugger_inv_def waits_def gdb_inv_ks)
  qed
  then show ?thesis
    by (auto simp: net_inv_def debugger_inv_def waits_def)
qed

theorem network_keeps_listening_witness:
  "\<exists>n n'. net_init machine_kernel 138 202 machine0 = Inr n \<and>
    net_notified plain_copy plain_copy (replicate BUFSIZE 7) machine_kernel zero_context (\<lambda>_. (0, 0)) (Some [Accept]) n = Inr n' \<and>
    debugger_initialized n' \<and> contents (n_queue n') = [] \<and> d_state (n_debugger n') \<noteq> eventState_none"
proof -
  have "\<exists>n. net_init machine_kernel 138 202 machine0 = Inr n \<and> contents (n_queue n) = []"
    using register_debugees [of "start_debugger machine0" 138 202 NUM_DEBUGEES machine_kernel]
    by (auto simp: net_init_def start_debugger_def registered_start gdb_inv_init NUM_DEBUGEES_def MAX_PDS_def contents_def char_queue_length_def)
  then obtain n where n: "net_init machine_kernel 138 202 machine0 = Inr n" "contents (n_queue n) = []"
    by blast
  have "\<not> debugger_initialized n"
    using net_init_inv [OF n(1)] by simp
  then obtain n' where n': "net_notified plain_copy plain_copy (replicate BUFSIZE 7) machine_kernel zero_context (\<lambda>_. (0, 0)) (Some [Accept]) n = Inr n'"
    "debugger_initialized n'"
    using get_char_empty [OF n(2)] by (simp add: net_notified_def tcp_accept_gdb_def gdb_connected_def net_run_main.simps)
  have "net_reachable plain_copy plain_copy machine_kernel n'"
    by (rule net_reachable.step [OF net_reachable.started [OF n(1)] net_step.notification [OF n'(1)]])
  from network_keeps_listening [OF plain_copies this] n(1) n' show ?thesis
    by blast
qed

end
