(* ===== verification/Gdb_Backlog.thy ===== *)
theory Gdb_Backlog
  imports Gdb_Prelude
begin

text \<open>
  The backlog of packets that wait for a transmit buffer in the network example
  (\<open>enqueue_pbufs\<close> and \<open>transmit\<close> in \<open>examples/microkit_sddf_net/apps/debugger/debugger.c\<close>): a
  list linked through the field \<open>next_chain\<close> of lwIP's packets, with pointers to its first and
  its last element.

  lwIP and sDDF are not in the repository. The calls to them are recorded in the order they
  are made; \<open>act\<close> is what a call does to their state, and \<open>empty_free\<close> reads from it whether
  the queue of free buffers is empty, which may change at any time. A packet is a number.
\<close>

section \<open>The code\<close>

datatype tx_call = Transmit nat | Free nat | Ref nat | RequestSignal | CancelSignal

record 'n tx_env =
  act :: "tx_call \<Rightarrow> 'n \<Rightarrow> 'n"
  empty_free :: "'n \<Rightarrow> bool \<times> 'n"

record 'n backlog =
  b_head :: "nat option"
  b_tail :: "nat option"
  b_next :: "nat \<Rightarrow> nat option"
  b_net :: 'n
  b_calls :: "tx_call list"

definition call :: "'n tx_env \<Rightarrow> tx_call \<Rightarrow> 'n backlog \<Rightarrow> 'n backlog" where
  "call E c s = s\<lparr>b_net := act E c (b_net s), b_calls := b_calls s @ [c]\<rparr>"

definition enqueue_pbufs :: "'n tx_env \<Rightarrow> nat \<Rightarrow> 'n backlog \<Rightarrow> 'n backlog res" where
  "enqueue_pbufs E p s =
    (let s = call E RequestSignal s
     in bindR (case b_head s of
            None \<Rightarrow> Inr (s\<lparr>b_head := Some p\<rparr>)
          | Some _ \<Rightarrow> (case b_tail s of None \<Rightarrow> Inl NullDeref | Some t \<Rightarrow> Inr (s\<lparr>b_next := (b_next s)(t := Some p)\<rparr>)))
        (\<lambda>s. Inr (call E (Ref p) (s\<lparr>b_tail := Some p\<rparr>))))"

text \<open>\<open>head != NULL && !net_queue_empty_free(...)\<close>, which reads the queue only if there is a packet.\<close>

definition can_send :: "'n tx_env \<Rightarrow> 'n backlog \<Rightarrow> bool \<times> 'n backlog" where
  "can_send E s =
    (case b_head s of
       None \<Rightarrow> (False, s)
     | Some _ \<Rightarrow> (case empty_free E (b_net s) of (e, n) \<Rightarrow> (\<not> e, s\<lparr>b_net := n\<rparr>)))"

definition send_head :: "'n tx_env \<Rightarrow> nat \<Rightarrow> 'n backlog \<Rightarrow> 'n backlog" where
  "send_head E h s =
    (let s = call E (Transmit h) s;
         s = s\<lparr>b_head := b_next s h\<rparr>;
         s = (if b_head s = None then s\<lparr>b_tail := None\<rparr> else s)
     in call E (Free h) s)"

text \<open>The inner loop need not end: a cyclic list would be sent for ever.\<close>

partial_function (option) send_all :: "'n tx_env \<Rightarrow> 'n backlog \<Rightarrow> 'n backlog option" where
  "send_all E s =
    (case can_send E s of (go, s) \<Rightarrow>
     if go then send_all E (send_head E (the (b_head s)) s) else Some s)"

partial_function (option) transmit :: "'n tx_env \<Rightarrow> 'n backlog \<Rightarrow> 'n backlog option" where
  "transmit E s =
    Option.bind (send_all E s) (\<lambda>s.
    case can_send E s of (go, s) \<Rightarrow>
    case can_send E (call E (if b_head s = None \<or> go then CancelSignal else RequestSignal) s) of (go, s) \<Rightarrow>
    if go then transmit E (call E CancelSignal s) else Some s)"

section \<open>The list of packets\<close>

fun linked :: "(nat \<Rightarrow> nat option) \<Rightarrow> nat list \<Rightarrow> bool" where
  "linked nxt [] = True"
| "linked nxt [p] = (nxt p = None)"
| "linked nxt (p # q # ps) = (nxt p = Some q \<and> linked nxt (q # ps))"

definition pending :: "nat list \<Rightarrow> 'n backlog \<Rightarrow> bool" where
  "pending ps s \<longleftrightarrow> distinct ps \<and> linked (b_next s) ps \<and> b_head s = (case ps of [] \<Rightarrow> None | p # _ \<Rightarrow> Some p) \<and>
     b_tail s = (if ps = [] then None else Some (last ps))"

lemma call_sel [simp]: "b_head (call E c s) = b_head s" "b_tail (call E c s) = b_tail s" "b_next (call E c s) = b_next s"
  "b_calls (call E c s) = b_calls s @ [c]" "b_net (call E c s) = act E c (b_net s)"
  by (simp_all add: call_def)

lemma pending_call [simp]: "pending ps (call E c s) = pending ps s"
  by (simp add: pending_def)

lemma linked_update: "p \<notin> set ps \<Longrightarrow> linked (nxt(p := x)) ps = linked nxt ps"
  by (induction nxt ps rule: linked.induct) auto

lemma linked_append: "ps \<noteq> [] \<Longrightarrow> distinct ps \<Longrightarrow> linked nxt ps \<Longrightarrow> p \<notin> set ps \<Longrightarrow> nxt p = None \<Longrightarrow>
    linked (nxt(last ps := Some p)) (ps @ [p])"
proof (induction nxt ps rule: linked.induct)
  case (3 nxt q r ps)
  then have "(nxt(last (r # ps) := Some p)) q = Some r"
    using last_in_set [of "r # ps"] by auto
  with 3 show ?case
    by simp
qed auto

lemma linked_next: "linked nxt (p # ps) \<Longrightarrow> nxt p = (case ps of [] \<Rightarrow> None | q # _ \<Rightarrow> Some q) \<and> linked nxt ps"
  by (cases ps) simp_all

lemma enqueue_pending:
  assumes "pending ps s" and "p \<notin> set ps" and "b_next s p = None"
  obtains s' where "enqueue_pbufs E p s = Inr s'" and "pending (ps @ [p]) s'" and "b_calls s' = b_calls s @ [RequestSignal, Ref p]"
proof (cases ps)
  case Nil
  with assms show thesis
    by (intro that [of "call E (Ref p) ((call E RequestSignal s)\<lparr>b_head := Some p, b_tail := Some p\<rparr>)"])
      (simp_all add: enqueue_pbufs_def pending_def)
next
  case (Cons q qs)
  then have "linked ((b_next s)(last ps := Some p)) (ps @ [p])"
    using assms by (intro linked_append) (simp_all add: pending_def)
  with Cons assms show thesis
    by (intro that [of "call E (Ref p) ((call E RequestSignal s)\<lparr>b_next := (b_next s)(last ps := Some p), b_tail := Some p\<rparr>)"])
      (simp_all add: enqueue_pbufs_def pending_def)
qed

lemma send_head_pending:
  assumes "pending (p # ps) s"
  shows "pending ps (send_head E p s)" and "b_calls (send_head E p s) = b_calls s @ [Transmit p, Free p]"
  using assms linked_next [of "b_next s" p ps] by (auto simp: pending_def send_head_def Let_def split: list.splits)

section \<open>Sending\<close>

text \<open>What sDDF documents: only this client takes buffers from the free queue, so once it has
  been seen to hold one, it does until the next transmission.\<close>

definition free_stable :: "'n tx_env \<Rightarrow> bool" where
  "free_stable E \<longleftrightarrow> (\<forall>n. \<not> fst (empty_free E n) \<longrightarrow>
     \<not> fst (empty_free E (snd (empty_free E n))) \<and> \<not> fst (empty_free E (act E CancelSignal n)))"

definition sent :: "nat list \<Rightarrow> tx_call list" where
  "sent ps = concat (map (\<lambda>p. [Transmit p, Free p]) ps)"

text \<open>No packet is left, or the queue was last seen without a free buffer.\<close>

definition waits :: "'n tx_env \<Rightarrow> 'n backlog \<Rightarrow> bool" where
  "waits E s \<longleftrightarrow> b_head s = None \<or> (\<exists>n. empty_free E n = (True, b_net s))"

lemma can_send_pending:
  assumes "pending ps s" and "can_send E s = (go, s')"
  shows "pending ps s'" and "b_calls s' = b_calls s" and "go \<Longrightarrow> ps \<noteq> []" and "\<not> go \<Longrightarrow> waits E s'"
  using assms by (auto simp: can_send_def pending_def waits_def split: option.splits list.splits prod.splits)

lemma send_all_pending:
  "pending ps s \<Longrightarrow> \<exists>k s'. send_all E s = Some s' \<and> k \<le> length ps \<and> pending (drop k ps) s' \<and> b_calls s' = b_calls s @ sent (take k ps) \<and>
     (fst (can_send E s) \<longrightarrow> 0 < k)"
proof (induction ps arbitrary: s)
  case Nil
  obtain go s' where s': "can_send E s = (go, s')"
    by (cases "can_send E s")
  with can_send_pending [OF Nil s'] show ?case
    by (subst send_all.simps) (auto simp: sent_def)
next
  case (Cons p ps)
  obtain go s' where s': "can_send E s = (go, s')"
    by (cases "can_send E s")
  note pend = can_send_pending [OF Cons.prems s']
  show ?case
  proof (cases go)
    case True
    have "b_head s' = Some p"
      using pend(1) by (simp add: pending_def)
    with True s' have run: "send_all E s = send_all E (send_head E p s')"
      by (subst send_all.simps) simp
    obtain k s1 where "send_all E (send_head E p s') = Some s1" "k \<le> length ps" "pending (drop k ps) s1"
      "b_calls s1 = b_calls (send_head E p s') @ sent (take k ps)"
      using Cons.IH [OF send_head_pending(1) [OF pend(1)]] by blast
    then show ?thesis
      using run send_head_pending(2) [OF pend(1)] pend(2)
      by (intro exI [of _ "Suc k"] exI [of _ s1]) (simp add: sent_def)
  next
    case False
    with s' pend Cons.prems show ?thesis
      by (subst send_all.simps) (auto simp: sent_def intro!: exI [of _ 0])
  qed
qed

fun is_signal :: "tx_call \<Rightarrow> bool" where
  "is_signal RequestSignal = True"
| "is_signal CancelSignal = True"
| "is_signal _ = False"

text \<open>The calls about packets, without those about signals.\<close>

definition packet_calls :: "'n backlog \<Rightarrow> tx_call list" where
  "packet_calls s = filter (\<lambda>c. \<not> is_signal c) (b_calls s)"

lemma filter_sent: "filter (\<lambda>c. \<not> is_signal c) (sent ps) = sent ps"
  by (induction ps) (simp_all add: sent_def)

lemma sent_append: "sent (ps @ qs) = sent ps @ sent qs"
  by (simp add: sent_def)

lemma can_send_stable:
  assumes "free_stable E" and "can_send E s = (True, s')"
  shows "fst (can_send E s')" and "fst (can_send E (call E CancelSignal s'))" and "b_head s' \<noteq> None"
  using assms by (auto simp: can_send_def free_stable_def split: option.splits prod.splits) (metis fst_conv snd_conv)+

text \<open>One round of the outer loop.\<close>

lemma transmit_round:
  assumes law: "free_stable E" and "pending ps s"
  obtains k s' where "k \<le> length ps" and "fst (can_send E s) \<longrightarrow> 0 < k" and "pending (drop k ps) s'"
    and "packet_calls s' = packet_calls s @ sent (take k ps)"
    and "transmit E s = Some s' \<and> last (b_calls s') = (if k = length ps then CancelSignal else RequestSignal) \<and> waits E s' \<or>
      transmit E s = transmit E s' \<and> fst (can_send E s')"
proof -
  obtain k s1 where all: "send_all E s = Some s1" and k: "k \<le> length ps" "fst (can_send E s) \<longrightarrow> 0 < k"
    and p1: "pending (drop k ps) s1" "b_calls s1 = b_calls s @ sent (take k ps)"
    using send_all_pending [OF assms(2)] by blast
  obtain go s2 where s2: "can_send E s1 = (go, s2)"
    by (cases "can_send E s1")
  note p2 = can_send_pending [OF p1(1) s2]
  let ?c = "if b_head s2 = None \<or> go then CancelSignal else RequestSignal"
  obtain go' s3 where s3: "can_send E (call E ?c s2) = (go', s3)"
    by (cases "can_send E (call E ?c s2)")
  have "pending (drop k ps) (call E ?c s2)"
    using p2(1) by simp
  note p3 = can_send_pending [OF this s3]
  have run: "transmit E s = (if go' then transmit E (call E CancelSignal s3) else Some s3)"
    by (subst transmit.simps) (simp add: all s2 s3)
  have calls: "packet_calls s3 = packet_calls s @ sent (take k ps)"
    using p1(2) p2(2) p3(2) by (simp add: packet_calls_def filter_sent)
  show thesis
  proof (cases go')
    case True
    then have "fst (can_send E (call E CancelSignal s3))"
      using can_send_stable(2) [OF law, of "call E ?c s2" s3] s3 by simp
    then show thesis
      using True run p3(1) calls k by (intro that [of k "call E CancelSignal s3"]) (simp_all add: packet_calls_def)
  next
    case False
    have "\<not> go"
    proof
      assume go
      then have "fst (can_send E (call E CancelSignal s2))"
        using can_send_stable(2) [OF law, of s1 s2] s2 by simp
      with \<open>go\<close> False s3 show False
        by simp
    qed
    moreover have "b_head s2 = None \<longleftrightarrow> k = length ps"
      using p2(1) k(1) by (auto simp: pending_def split: list.splits)
    ultimately show thesis
      using False run p3 calls k p2(2) p1(2) by (intro that [of k s3]) simp_all
  qed
qed

lemma transmit_ready:
  assumes law: "free_stable E"
  shows "pending ps s \<Longrightarrow> fst (can_send E s) \<Longrightarrow> \<exists>k s'. transmit E s = Some s' \<and> k \<le> length ps \<and> pending (drop k ps) s' \<and>
    packet_calls s' = packet_calls s @ sent (take k ps) \<and> last (b_calls s') = (if k = length ps then CancelSignal else RequestSignal) \<and> waits E s'"
proof (induction "length ps" arbitrary: ps s rule: less_induct)
  case less
  obtain k s1 where k: "k \<le> length ps" "0 < k" and p: "pending (drop k ps) s1" "packet_calls s1 = packet_calls s @ sent (take k ps)"
    and more: "transmit E s = Some s1 \<and> last (b_calls s1) = (if k = length ps then CancelSignal else RequestSignal) \<and> waits E s1 \<or>
      transmit E s = transmit E s1 \<and> fst (can_send E s1)"
    using transmit_round [OF law less.prems(1)] less.prems(2) by metis
  from more show ?case
  proof
    assume "transmit E s = transmit E s1 \<and> fst (can_send E s1)"
    moreover have "length (drop k ps) < length ps"
      using k by simp
    ultimately obtain k' s2 where "transmit E s = Some s2" "k' \<le> length (drop k ps)" "pending (drop k' (drop k ps)) s2"
      "packet_calls s2 = packet_calls s1 @ sent (take k' (drop k ps))"
      "last (b_calls s2) = (if k' = length (drop k ps) then CancelSignal else RequestSignal)" "waits E s2"
      using less.hyps [of "drop k ps" s1] p(1) by auto
    then show ?thesis
      using k(1) p(2) by (intro exI [of _ "k + k'"] exI [of _ s2]) (auto simp: take_add sent_append add.commute [of k' k])
  qed (use k p in blast)
qed

section \<open>Properties\<close>

text \<open>C17: The backlog is a queue and \<open>transmit\<close> always returns. A packet that is enqueued comes
  last, if its link is empty and it is not in the backlog already. Transmitting sends packets
  from the front, in the order they were enqueued, each once, releases each after it has been
  sent, and keeps the others; when it returns, the signal for free buffers is requested exactly
  if there are packets left, and packets are left only if the queue was last seen to hold no
  free buffer.\<close>

theorem backlog_is_fifo:
  assumes "free_stable E" and "pending ps s" and "p \<notin> set ps" and "b_next s p = None"
  shows "\<exists>s1 k s2. enqueue_pbufs E p s = Inr s1 \<and> transmit E s1 = Some s2 \<and> k \<le> length ps + 1 \<and>
    pending (drop k (ps @ [p])) s2 \<and> packet_calls s2 = packet_calls s @ Ref p # sent (take k (ps @ [p])) \<and>
    last (b_calls s2) = (if k = length ps + 1 then CancelSignal else RequestSignal) \<and>
    (k < length ps + 1 \<longrightarrow> (\<exists>n. empty_free E n = (True, b_net s2)))"
proof -
  let ?ps = "ps @ [p]"
  obtain s1 where s1: "enqueue_pbufs E p s = Inr s1" "pending ?ps s1" "b_calls s1 = b_calls s @ [RequestSignal, Ref p]"
    by (rule enqueue_pending [OF assms(2-4)])
  have ref: "packet_calls s1 = packet_calls s @ [Ref p]"
    using s1(3) by (simp add: packet_calls_def)
  obtain k s2 where k: "k \<le> length ?ps" and p2: "pending (drop k ?ps) s2" "packet_calls s2 = packet_calls s1 @ sent (take k ?ps)"
    and more: "transmit E s1 = Some s2 \<and> last (b_calls s2) = (if k = length ?ps then CancelSignal else RequestSignal) \<and> waits E s2 \<or>
      transmit E s1 = transmit E s2 \<and> fst (can_send E s2)"
    by (rule transmit_round [OF assms(1) s1(2)])
  have left: "\<exists>n. empty_free E n = (True, b_net s')" if "pending (drop k ?ps) s'" "waits E s'" "k < length ps + 1" for k s'
    using that by (cases "drop k ?ps") (auto simp: pending_def waits_def)
  from more show ?thesis
  proof
    assume "transmit E s1 = Some s2 \<and> last (b_calls s2) = (if k = length ?ps then CancelSignal else RequestSignal) \<and> waits E s2"
    with s1(1) k p2 ref left [OF p2(1)] show ?thesis
      by - (rule exI [of _ s1], rule exI [of _ k], rule exI [of _ s2], simp)
  next
    assume again: "transmit E s1 = transmit E s2 \<and> fst (can_send E s2)"
    obtain k' s3 where "transmit E s2 = Some s3" "k' \<le> length (drop k ?ps)" "pending (drop k' (drop k ?ps)) s3"
      "packet_calls s3 = packet_calls s2 @ sent (take k' (drop k ?ps))"
      "last (b_calls s3) = (if k' = length (drop k ?ps) then CancelSignal else RequestSignal)" "waits E s3"
      using transmit_ready [OF assms(1) p2(1)] again by blast
    moreover from this have "k' + k < length ps + 1 \<longrightarrow> (\<exists>n. empty_free E n = (True, b_net s3))"
      using left [of "k' + k" s3] by (simp only: drop_drop) blast
    moreover have "k + k' \<le> length ?ps" "k + k' = length ?ps \<longleftrightarrow> k' = length (drop k ?ps)"
      using \<open>k' \<le> length (drop k ?ps)\<close> k by auto
    moreover have "drop (k + k') ?ps = drop k' (drop k ?ps)" "take (k + k') ?ps = take k ?ps @ take k' (drop k ?ps)"
      by (simp only: drop_drop add.commute) (rule take_add)
    ultimately show ?thesis
      using s1(1) again p2(2) ref
      by - (rule exI [of _ s1], rule exI [of _ "k + k'"], rule exI [of _ s3], simp add: sent_append add.commute)
  qed
qed

text \<open>An environment with room for a given number of packets.\<close>

definition room :: "nat tx_env" where
  "room = \<lparr>act = (\<lambda>c n. case c of Transmit _ \<Rightarrow> n - 1 | _ \<Rightarrow> n), empty_free = (\<lambda>n. (n = 0, n))\<rparr>"

definition no_backlog :: "'n \<Rightarrow> 'n backlog" where
  "no_backlog n = \<lparr>b_head = None, b_tail = None, b_next = (\<lambda>_. None), b_net = n, b_calls = []\<rparr>"

lemma room_stable: "free_stable room"
  by (simp add: free_stable_def room_def)

lemma no_backlog_pending: "pending [] (no_backlog n)"
  by (simp add: pending_def no_backlog_def)

theorem backlog_is_fifo_witness:
  "\<exists>s1 k s2. enqueue_pbufs room 7 (no_backlog 0) = Inr s1 \<and> transmit room s1 = Some s2 \<and> k \<le> 1 \<and>
    pending (drop k [7]) s2 \<and> packet_calls s2 = Ref 7 # sent (take k [7])"
  using backlog_is_fifo [OF room_stable no_backlog_pending, of 7 0] by (simp add: no_backlog_def packet_calls_def) metis

text \<open>The link of a packet is not reset when the packet leaves the backlog. After two packets
  have been sent, the first one enqueued again and sent takes the second one with it, which is
  sent and released a second time although it was enqueued, and its count raised, only once.\<close>

lemma stale_link_is_followed:
  "map_option packet_calls
     (case bindR (enqueue_pbufs room 1 (no_backlog 9)) (enqueue_pbufs room 2) of
        Inl e \<Rightarrow> None
      | Inr s \<Rightarrow> Option.bind (transmit room s) (\<lambda>s. case enqueue_pbufs room 1 s of Inl e \<Rightarrow> None | Inr s \<Rightarrow> transmit room s)) =
   Some [Ref 1, Ref 2, Transmit 1, Free 1, Transmit 2, Free 2, Ref 1, Transmit 1, Free 1, Transmit 2, Free 2]"
  by (simp add: enqueue_pbufs_def no_backlog_def call_def room_def transmit.simps send_all.simps can_send_def send_head_def packet_calls_def)

end
