(* ===== verification/Gdb_Uart.thy ===== *)
theory Gdb_Uart
  imports Gdb_Prelude
begin

unbundle bit_operations_syntax

text \<open>
  The polling driver of the serial port, \<open>lib/uart/uart.c\<close> of the integrated example. The
  registers of the device are a parameter: a read and a write of the 32-bit register at an
  address, both of which may change the state of the device, since reading takes a character
  out of the receive buffer and time passes from one read to the next. \<open>line\<close> states what the
  data sheet promises of the two buffers; it is relative to an observer who knows the
  characters that were put on the line, those that will arrive, and how long the device stays
  busy.
\<close>

section \<open>Registers\<close>

definition UART_OFFSET :: u64 where "UART_OFFSET = 0x4c0"
definition UART_WFIFO :: u64 where "UART_WFIFO = 0x0"
definition UART_RFIFO :: u64 where "UART_RFIFO = 0x4"
definition UART_CTRL :: u64 where "UART_CTRL = 0x8"
definition UART_STATUS :: u64 where "UART_STATUS = 0xC"

definition UART_TX_FULL :: u32 where "UART_TX_FULL = push_bit 21 1"
definition UART_RX_EMPTY :: u32 where "UART_RX_EMPTY = push_bit 20 1"
definition UART_CONTROL_TX_ENABLE :: u32 where "UART_CONTROL_TX_ENABLE = push_bit 12 1"

text \<open>The virtual address of the device's page is a global that the system description sets.\<close>

record 'd uart =
  uart_base_vaddr :: u64
  reg_read :: "u64 \<Rightarrow> 'd \<Rightarrow> u32 \<times> 'd"
  reg_write :: "u64 \<Rightarrow> u32 \<Rightarrow> 'd \<Rightarrow> 'd"

definition reg :: "'d uart \<Rightarrow> u64 \<Rightarrow> u64" where
  "reg U offset = uart_base_vaddr U + UART_OFFSET + offset"

section \<open>The driver\<close>

definition uart_init :: "'d uart \<Rightarrow> 'd \<Rightarrow> 'd" where
  "uart_init U d =
    (case reg_read U (reg U UART_CTRL) d of (v, d) \<Rightarrow>
     reg_write U (reg U UART_CTRL) (v OR UART_CONTROL_TX_ENABLE) d)"

text \<open>The loops wait until a bit of the status register is clear, possibly for ever.\<close>

partial_function (option) wait_while :: "'d uart \<Rightarrow> u32 \<Rightarrow> 'd \<Rightarrow> 'd option" where
  "wait_while U bits d =
    (case reg_read U (reg U UART_STATUS) d of (v, d) \<Rightarrow>
     if v AND bits \<noteq> 0 then wait_while U bits d else Some d)"

definition uart_get_char :: "'d uart \<Rightarrow> 'd \<Rightarrow> (u32 \<times> 'd) option" where
  "uart_get_char U d =
    Option.bind (wait_while U UART_RX_EMPTY d) (\<lambda>d. Some (reg_read U (reg U UART_RFIFO) d))"

function uart_put_char :: "'d uart \<Rightarrow> u32 \<Rightarrow> 'd \<Rightarrow> 'd option" where
  "uart_put_char U c d =
    Option.bind (wait_while U UART_TX_FULL d) (\<lambda>d.
    let d = reg_write U (reg U UART_WFIFO) c d
    in if c = 13 then uart_put_char U 10 d else Some d)"
  by pat_completeness auto
termination
  by (relation "measure (\<lambda>(U, c, d). if c = 13 then 1 else 0)") auto

declare uart_put_char.simps [simp del]

fun uart_put_str :: "'d uart \<Rightarrow> cptr \<Rightarrow> 'd \<Rightarrow> 'd option res" where
  "uart_put_str U [] d = Inl OutOfBounds"
| "uart_put_str U (c # s) d =
    (if c = 0 then Inr (Some d)
     else case uart_put_char U (ucast c) d of None \<Rightarrow> Inr None | Some d \<Rightarrow> uart_put_str U s d)"

section \<open>The line\<close>

text \<open>
  An observer of a device: the characters sent, those still to arrive, and how many more
  reads of the status register will find the transmit buffer full or the receive buffer empty.
\<close>

record 'd observer =
  sent :: "'d \<Rightarrow> u32 list"
  incoming :: "'d \<Rightarrow> u8 list"
  tx_wait :: "'d \<Rightarrow> nat"
  rx_wait :: "'d \<Rightarrow> nat"

text \<open>
  What reading the status register tells, and what it changes: it does not touch the characters,
  a transmit buffer that is full drains, and one that has room keeps it; a character that is
  on its way arrives, and the receive buffer stays empty only if nothing is.
\<close>

definition status_law :: "'d uart \<Rightarrow> 'd observer \<Rightarrow> bool" where
  "status_law U W \<longleftrightarrow> (\<forall>d v d'. reg_read U (reg U UART_STATUS) d = (v, d') \<longrightarrow>
     sent W d' = sent W d \<and> incoming W d' = incoming W d \<and>
     (v AND UART_TX_FULL = 0 \<longleftrightarrow> tx_wait W d = 0) \<and> tx_wait W d' \<le> tx_wait W d - 1 \<and>
     (v AND UART_RX_EMPTY = 0 \<longleftrightarrow> incoming W d \<noteq> [] \<and> rx_wait W d = 0) \<and>
     rx_wait W d' \<le> rx_wait W d - 1)"

definition fifo_law :: "'d uart \<Rightarrow> 'd observer \<Rightarrow> bool" where
  "fifo_law U W \<longleftrightarrow>
     (\<forall>d c. tx_wait W d = 0 \<longrightarrow>
        sent W (reg_write U (reg U UART_WFIFO) c d) = sent W d @ [c] \<and>
        incoming W (reg_write U (reg U UART_WFIFO) c d) = incoming W d) \<and>
     (\<forall>d c cs. incoming W d = c # cs \<and> rx_wait W d = 0 \<longrightarrow>
        (case reg_read U (reg U UART_RFIFO) d of (v, d') \<Rightarrow>
           v = ucast c \<and> incoming W d' = cs \<and> sent W d' = sent W d))"

definition line :: "'d uart \<Rightarrow> 'd observer \<Rightarrow> bool" where
  "line U W \<longleftrightarrow> status_law U W \<and> fifo_law U W"

text \<open>What the driver puts on the line for a character: a carriage return gets a line feed.\<close>

definition crlf :: "u32 \<Rightarrow> u32 list" where
  "crlf c = (if c = 13 then [13, 10] else [c])"


section \<open>Waiting\<close>

lemma status_lawD:
  assumes "line U W" "reg_read U (reg U UART_STATUS) d = (v, d')"
  shows "sent W d' = sent W d" "incoming W d' = incoming W d"
    "v AND UART_TX_FULL = 0 \<longleftrightarrow> tx_wait W d = 0" "tx_wait W d' \<le> tx_wait W d - 1"
    "v AND UART_RX_EMPTY = 0 \<longleftrightarrow> incoming W d \<noteq> [] \<and> rx_wait W d = 0" "rx_wait W d' \<le> rx_wait W d - 1"
  using assms by (auto simp: line_def status_law_def)

lemma wait_while_step:
  "reg_read U (reg U UART_STATUS) d = (v, d') \<Longrightarrow>
     wait_while U bits d = (if v AND bits \<noteq> 0 then wait_while U bits d' else Some d')"
  by (simp add: wait_while.simps [of U bits d])

lemma wait_tx:
  assumes "line U W"
  shows "\<exists>d'. wait_while U UART_TX_FULL d = Some d' \<and> tx_wait W d' = 0 \<and> sent W d' = sent W d \<and> incoming W d' = incoming W d"
proof (induction "tx_wait W d" arbitrary: d rule: less_induct)
  case less
  obtain v d1 where rd: "reg_read U (reg U UART_STATUS) d = (v, d1)"
    by (cases "reg_read U (reg U UART_STATUS) d")
  note law = status_lawD [OF assms rd]
  show ?case
  proof (cases "tx_wait W d = 0")
    case True
    with law wait_while_step [OF rd, of UART_TX_FULL] show ?thesis
      by simp
  next
    case False
    with law have "tx_wait W d1 < tx_wait W d"
      by linarith
    from less [OF this] False law wait_while_step [OF rd, of UART_TX_FULL] show ?thesis
      by auto
  qed
qed

lemma wait_rx:
  assumes "line U W" "incoming W d \<noteq> []"
  shows "\<exists>d'. wait_while U UART_RX_EMPTY d = Some d' \<and> rx_wait W d' = 0 \<and> sent W d' = sent W d \<and> incoming W d' = incoming W d"
  using assms(2)
proof (induction "rx_wait W d" arbitrary: d rule: less_induct)
  case less
  obtain v d1 where rd: "reg_read U (reg U UART_STATUS) d = (v, d1)"
    by (cases "reg_read U (reg U UART_STATUS) d")
  note law = status_lawD [OF assms(1) rd]
  show ?case
  proof (cases "rx_wait W d = 0")
    case True
    with less.prems law wait_while_step [OF rd, of UART_RX_EMPTY] show ?thesis
      by auto
  next
    case False
    with law have "rx_wait W d1 < rx_wait W d"
      by linarith
    from less.hyps [OF this] less.prems False law wait_while_step [OF rd, of UART_RX_EMPTY] show ?thesis
      by auto
  qed
qed

text \<open>With nothing on its way, the loop does not end: if it does, something was.\<close>

lemma wait_rx_returns:
  assumes "wait_while U bits d = Some d'" "bits = UART_RX_EMPTY" "line U W"
  shows "incoming W d \<noteq> []"
  using assms
proof (induction rule: wait_while.raw_induct [rotated, consumes 1, case_names step])
  case (step wait U bits d d')
  obtain v d1 where rd: "reg_read U (reg U UART_STATUS) d = (v, d1)"
    by (cases "reg_read U (reg U UART_STATUS) d")
  note law = status_lawD [OF step.prems(2) rd]
  show ?case
  proof (cases "v AND bits = 0")
    case False
    with step rd have "incoming W d1 \<noteq> []"
      by auto
    with law show ?thesis
      by simp
  qed (use law step.prems in simp)
qed

section \<open>Characters\<close>

lemma uart_get_char_next:
  assumes "line U W" "incoming W d = c # cs"
  shows "\<exists>d'. uart_get_char U d = Some (ucast c, d') \<and> incoming W d' = cs \<and> sent W d' = sent W d"
proof -
  obtain d1 where d1: "wait_while U UART_RX_EMPTY d = Some d1" "rx_wait W d1 = 0" "sent W d1 = sent W d"
      "incoming W d1 = c # cs"
    using wait_rx [OF assms(1), of d] assms(2) by auto
  obtain v d2 where rd: "reg_read U (reg U UART_RFIFO) d1 = (v, d2)"
    by (cases "reg_read U (reg U UART_RFIFO) d1")
  from assms(1) d1 rd have "v = ucast c \<and> incoming W d2 = cs \<and> sent W d2 = sent W d1"
    unfolding line_def fifo_law_def by fastforce
  with d1 rd show ?thesis
    by (simp add: uart_get_char_def)
qed

lemma uart_get_char_none:
  assumes "line U W" "incoming W d = []"
  shows "uart_get_char U d = None"
proof (cases "wait_while U UART_RX_EMPTY d")
  case (Some d')
  from wait_rx_returns [OF Some refl assms(1)] assms(2) show ?thesis
    by simp
qed (simp add: uart_get_char_def)

lemma put_char_plain:
  assumes "line U W" "c \<noteq> 13"
  shows "\<exists>d'. uart_put_char U c d = Some d' \<and> sent W d' = sent W d @ [c] \<and> incoming W d' = incoming W d"
proof -
  obtain d1 where d1: "wait_while U UART_TX_FULL d = Some d1" "tx_wait W d1 = 0" "sent W d1 = sent W d"
      "incoming W d1 = incoming W d"
    using wait_tx [OF assms(1), of d] by auto
  with assms show ?thesis
    by (simp add: uart_put_char.simps [of U c d] line_def fifo_law_def)
qed

lemma put_char_sends:
  assumes "line U W"
  shows "\<exists>d'. uart_put_char U c d = Some d' \<and> sent W d' = sent W d @ crlf c \<and> incoming W d' = incoming W d"
proof (cases "c = 13")
  case True
  obtain d1 where d1: "wait_while U UART_TX_FULL d = Some d1" "tx_wait W d1 = 0" "sent W d1 = sent W d"
      "incoming W d1 = incoming W d"
    using wait_tx [OF assms, of d] by auto
  let ?d2 = "reg_write U (reg U UART_WFIFO) 13 d1"
  from d1 assms have "sent W ?d2 = sent W d @ [13]" "incoming W ?d2 = incoming W d"
    by (simp_all add: line_def fifo_law_def)
  with put_char_plain [OF assms, of 10 ?d2] d1(1) True show ?thesis
    by (auto simp: uart_put_char.simps [of U 13 d] crlf_def)
qed (use put_char_plain [OF assms] in \<open>simp add: crlf_def\<close>)

lemma put_str_sends:
  assumes "line U W" "0 \<notin> set t"
  shows "\<exists>d'. uart_put_str U (t @ 0 # r) d = Inr (Some d') \<and>
    sent W d' = sent W d @ concat (map (\<lambda>c. crlf (ucast c)) t) \<and> incoming W d' = incoming W d"
  using assms(2)
proof (induction t arbitrary: d)
  case (Cons c t)
  obtain d1 where d1: "uart_put_char U (ucast c) d = Some d1" "sent W d1 = sent W d @ crlf (ucast c)"
      "incoming W d1 = incoming W d"
    using put_char_sends [OF assms(1)] by blast
  from Cons.IH [of d1] Cons.prems d1 show ?case
    by auto
qed simp

section \<open>A device\<close>

text \<open>A device with one character of transmit buffer, which is busy for two polls after each
  character, and a receiver that takes three polls for each.\<close>

record port =
  p_sent :: "u32 list"
  p_incoming :: "u8 list"
  p_tx :: nat
  p_rx :: nat

definition port_status :: "port \<Rightarrow> u32" where
  "port_status p = (if p_tx p = 0 then 0 else UART_TX_FULL) OR (if p_incoming p \<noteq> [] \<and> p_rx p = 0 then 0 else UART_RX_EMPTY)"

definition port_read :: "u64 \<Rightarrow> port \<Rightarrow> u32 \<times> port" where
  "port_read a p =
    (if a = UART_OFFSET + UART_STATUS then (port_status p, p\<lparr>p_tx := p_tx p - 1, p_rx := p_rx p - 1\<rparr>)
     else if a = UART_OFFSET + UART_RFIFO
     then (case p_incoming p of [] \<Rightarrow> (0, p) | c # cs \<Rightarrow> (ucast c, p\<lparr>p_incoming := cs, p_rx := 3\<rparr>))
     else (0, p))"

definition port_write :: "u64 \<Rightarrow> u32 \<Rightarrow> port \<Rightarrow> port" where
  "port_write a v p = (if a = UART_OFFSET + UART_WFIFO \<and> p_tx p = 0 then p\<lparr>p_sent := p_sent p @ [v], p_tx := 2\<rparr> else p)"

definition port_uart :: "port uart" where
  "port_uart = \<lparr>uart_base_vaddr = 0, reg_read = port_read, reg_write = port_write\<rparr>"

definition port_observer :: "port observer" where
  "port_observer = \<lparr>sent = p_sent, incoming = p_incoming, tx_wait = p_tx, rx_wait = p_rx\<rparr>"

lemmas uart_regs = UART_OFFSET_def UART_WFIFO_def UART_RFIFO_def UART_CTRL_def UART_STATUS_def

lemma port_line: "line port_uart port_observer"
  unfolding line_def status_law_def fifo_law_def
  by (auto simp: port_uart_def port_observer_def reg_def port_read_def port_write_def port_status_def
      uart_regs UART_TX_FULL_def UART_RX_EMPTY_def)

section \<open>Properties\<close>

text \<open>C26: The driver is a serial line. A string is sent completely and in order, with a line
  feed after each carriage return, whenever the transmit buffer has room and not before, and
  nothing that arrives meanwhile is lost. Reading a character takes the next one that arrives
  and waits for it; if none ever arrives, it waits for ever.\<close>

theorem uart_is_serial_line:
  assumes "line U W" and "0 \<notin> set t"
  shows "(\<exists>d'. uart_put_str U (t @ 0 # r) d = Inr (Some d') \<and>
      sent W d' = sent W d @ concat (map (\<lambda>c. crlf (ucast c)) t) \<and> incoming W d' = incoming W d) \<and>
    (case incoming W d of
       [] \<Rightarrow> uart_get_char U d = None
     | c # cs \<Rightarrow> \<exists>d'. uart_get_char U d = Some (ucast c, d') \<and> incoming W d' = cs \<and> sent W d' = sent W d)"
  using put_str_sends [OF assms] uart_get_char_next [OF assms(1)] uart_get_char_none [OF assms(1)]
  by (simp split: list.split)

theorem uart_is_serial_line_witness:
  "\<exists>d. uart_put_str port_uart (str ''OK'' @ [13, 0]) \<lparr>p_sent = [], p_incoming = [36, 35], p_tx = 1, p_rx = 2\<rparr> = Inr (Some d) \<and>
     p_sent d = [79, 75, 13, 10] \<and> p_incoming d = [36, 35] \<and>
   (\<exists>d'. uart_get_char port_uart \<lparr>p_sent = [], p_incoming = [36, 35], p_tx = 1, p_rx = 2\<rparr> = Some (36, d') \<and> p_incoming d' = [35])"
  using uart_is_serial_line [OF port_line, of "str ''OK'' @ [13]" "[]"
      "\<lparr>p_sent = [], p_incoming = [36, 35], p_tx = 1, p_rx = 2\<rparr>"]
  by (auto simp: port_observer_def crlf_def)

end
