(* ===== verification/Gdb_Numbers.thy ===== *)
theory Gdb_Numbers
  imports Gdb_Printf
begin

unbundle bit_operations_syntax

text \<open>
  Printed floating-point numbers: what a format shows for a number, which precisions the
  conversions survive, and which characters they write.
\<close>

section \<open>Precisions\<close>

text \<open>At most 32 zeros are taken off the precision before it indexes the table of powers.\<close>

lemma limit_precision_index: "snd (limit_precision prec) < 10 \<longleftrightarrow> prec < 42"
proof -
  have "unat (snd (limit_precision prec)) = unat prec - min 32 (unat prec - 9)"
    by (simp add: limit_precision_def PRINTF_FTOA_BUFFER_SIZE_def Let_def unat_sub word_le_nat_alt unat_of_nat min_def)
  then show ?thesis
    by (auto simp: word_less_nat_alt min_def)
qed

lemma ftoa_number_precision:
  assumes "is_finite d" "0 \<le> val d" "val d \<le> 1000000000"
  shows "if prec < 42 then \<exists>cs. ftoa_number d prec = Inr cs else ftoa_number d prec = Inl OutOfBounds"
proof -
  obtain buf p where p: "limit_precision prec = (buf, p)"
    by (cases "limit_precision prec")
  show ?thesis
  proof (cases "prec < 42")
    case True
    then have "p < 10"
      using limit_precision_index [of prec] p by simp
    with split_round_val [OF assms this] True p show ?thesis
      by (simp add: ftoa_number_def map_prod_def split_def)
  next
    case False
    then have "pow10 p = Inl OutOfBounds"
      using limit_precision_index [of prec] p by (simp add: pow10_def)
    moreover have "\<exists>w. to_int d = Inr w"
      using to_int_val [OF assms(1)] assms(2,3) by simp
    ultimately show ?thesis
      using False p by (auto simp: ftoa_number_def split_round_def)
  qed
qed

lemma fixed_text_precision_limit:
  assumes "is_finite d" "\<bar>val d\<bar> \<le> 1000000000"
  shows "if has flags FLAGS_PRECISION \<and> 42 \<le> prec then fixed_text d prec width flags = Inl OutOfBounds
    else \<exists>cs. fixed_text d prec width flags = Inr cs"
proof -
  note m = magnitude_val [OF assms(1)]
  have "0 \<le> val (if flt d 0 then fsub 0 d else d)" "val (if flt d 0 then fsub 0 d else d) \<le> 1000000000"
    unfolding m(3) using assms(2) by simp_all
  note n = ftoa_number_precision [OF m(2) this]
  show ?thesis
    using n [of prec] n [of PRINTF_DEFAULT_FLOAT_PRECISION]
    by (auto simp: fixed_text_def Let_def split_def PRINTF_DEFAULT_FLOAT_PRECISION_def not_less split: if_splits)
qed

text \<open>Infinities and the numbers that are none have no precision.\<close>

lemma small_text_precision:
  assumes "is_finite d \<Longrightarrow> \<bar>val d\<bar> \<le> 1000000000"
  shows "if is_finite d \<and> has flags FLAGS_PRECISION \<and> 42 \<le> prec then small_text d prec width flags = Inl OutOfBounds
    else \<exists>cs. small_text d prec width flags = Inr cs"
proof (cases "is_finite d")
  case True
  then have "\<not> is_nan d" "\<not> flt d (fneg DBL_MAX)" "\<not> flt DBL_MAX d"
    using special_iff [of d] by (simp_all add: special_def)
  with fixed_text_precision_limit [OF True assms [OF True]] True show ?thesis
    by (simp add: small_text_def)
next
  case False
  then have "is_nan d \<or> flt d (fneg DBL_MAX) \<or> flt DBL_MAX d"
    using finiteI by blast
  with False show ?thesis
    by (auto simp: small_text_def)
qed

lemma no_adapt: "\<not> has flags FLAGS_ADAPT_EXP \<Longrightarrow> flags AND NOT FLAGS_ADAPT_EXP = flags"
  by (simp add: has_def bit_eq_iff) (auto simp: bit_simps)

lemma etoa_plan_precision:
  assumes "is_finite d" "\<not> has flags FLAGS_ADAPT_EXP"
  shows "\<exists>d' fwidth e m. etoa_plan d prec width flags =
    Inr (d', if has flags FLAGS_PRECISION then prec else PRINTF_DEFAULT_FLOAT_PRECISION, fwidth, flags, e, m)"
proof -
  let ?v = "if flt d 0 then fneg d else d"
  have "is_finite ?v" "0 \<le> val ?v"
    using assms(1) by (auto simp: flt_val)
  from etoa_exponent_scales [OF this] obtain e F where "etoa_exponent ?v = Inr (e, F)"
    by blast
  with assms(2) show ?thesis
    by (auto simp: etoa_plan_def Let_def)
qed

lemma etoa_text_precision:
  assumes "\<not> has flags FLAGS_ADAPT_EXP"
  shows "if is_finite d \<and> has flags FLAGS_PRECISION \<and> 42 \<le> prec then etoa_text d prec width flags = Inl OutOfBounds
    else \<exists>cs. etoa_text d prec width flags = Inr cs"
proof (cases "is_finite d")
  case True
  obtain d' fwidth e m where plan: "etoa_plan d prec width flags =
      Inr (d', if has flags FLAGS_PRECISION then prec else PRINTF_DEFAULT_FLOAT_PRECISION, fwidth, flags, e, m)"
    using etoa_plan_precision [OF True assms] by blast
  from etoa_plan_scaled [OF True this] have d': "is_finite d'" "\<bar>val d'\<bar> \<le> 1000000000"
    by simp_all
  from small_text_precision [of d' flags "if has flags FLAGS_PRECISION then prec else PRINTF_DEFAULT_FLOAT_PRECISION" fwidth]
    d' True plan show ?thesis
    by (auto simp: etoa_text_def special_iff no_adapt [OF assms] split: if_splits)
qed (use small_text_precision [of d flags prec width] in \<open>simp add: etoa_text_def special_iff\<close>)

lemma ftoa_text_precision:
  assumes "\<not> has flags FLAGS_ADAPT_EXP"
  shows "if is_finite d \<and> has flags FLAGS_PRECISION \<and> 42 \<le> prec then ftoa_text d prec width flags = Inl OutOfBounds
    else \<exists>cs. ftoa_text d prec width flags = Inr cs"
proof (cases "is_finite d \<and> large d")
  case False
  then have "is_finite d \<Longrightarrow> \<bar>val d\<bar> \<le> 1000000000"
    using large_iff [of d] by simp
  from small_text_precision [OF this] False show ?thesis
    by (auto simp: ftoa_text_def special_iff)
qed (use etoa_text_precision [OF assms] in \<open>simp add: ftoa_text_def special_iff\<close>)

section \<open>Characters\<close>

definition printable :: "u8 \<Rightarrow> bool" where
  "printable c \<longleftrightarrow> 32 \<le> c \<and> c < 127"

lemma printable_digit: "printable (digit n)"
  unfolding printable_def digit_def by (simp add: word_le_nat_alt word_less_nat_alt unat_word_ariths unat_of_nat)

lemma printable_text:
  "list_all printable (rev_text buf width flags) \<longleftrightarrow> list_all printable buf"
  by (auto simp: rev_text_def printable_def list_all_iff)

lemma digit_ucast: "48 + ucast (u mod 10 :: u64) = digit (unat (u mod 10))"
proof -
  have "unat (u mod 10) mod 10 = unat (u mod 10)"
    by (simp add: unat_mod_distrib)
  then show ?thesis
    by (simp add: digit_def)
qed

lemma printable_whole_digits: "list_all printable buf \<Longrightarrow> list_all printable (whole_digits w buf)"
proof (induction w buf rule: whole_digits.induct)
  case (1 w buf)
  have "word_of_int (48 + w mod 10) = digit (nat (w mod 10))"
    by (simp add: digit_def)
  then have c: "printable (word_of_int (48 + w mod 10))"
    by (simp only: printable_digit)
  show ?case
  proof (cases "length buf < PRINTF_FTOA_BUFFER_SIZE")
    case True
    with 1 c have "w div 10 \<noteq> 0 \<Longrightarrow> list_all printable (whole_digits (w div 10) (buf @ [word_of_int (48 + w mod 10)]))"
      by (simp only: list_all_append list.pred_inject simp_thms)
    with True 1(2) c show ?thesis
      by (subst whole_digits.simps) (simp only: Let_def if_True list_all_append list.pred_inject simp_thms split: if_split, blast)
  qed (use 1 in \<open>subst whole_digits.simps; simp\<close>)
qed

lemma printable_frac_digits: "list_all printable buf \<Longrightarrow> list_all printable (fst (frac_digits u count buf))"
proof (induction u count buf rule: frac_digits.induct)
  case (1 u count buf)
  have "48 + ucast (u mod 10) = digit (unat (u mod 10))"
    by (rule digit_ucast)
  with printable_digit have "printable (48 + ucast (u mod 10))"
    by simp
  with 1 show ?case
    by (subst frac_digits.simps) (simp add: Let_def)
qed

lemma printable_zeros: "list_all printable buf \<Longrightarrow> list_all printable (ftoa_zeros n buf)"
  by (auto simp: ftoa_zeros_def list_all_iff printable_def)

lemma printable_push: "list_all printable buf \<Longrightarrow> printable c \<Longrightarrow> list_all printable (ftoa_push c buf)"
  by (simp add: ftoa_push_def)

lemma printable_ftoa_number: "ftoa_number d prec = Inr buf \<Longrightarrow> list_all printable buf"
proof -
  assume n: "ftoa_number d prec = Inr buf"
  obtain b p where p: "limit_precision prec = (b, p)"
    by (cases "limit_precision prec")
  have b: "list_all printable b"
    using p by (auto simp: limit_precision_def Let_def printable_def list_all_iff)
  obtain w u where "buf = (if p = 0 then whole_digits (round_whole d w) b else whole_digits w (ftoa_fraction u p b))"
    using n p by (auto simp: ftoa_number_def bindR_eq_Inr_iff)
  moreover have "list_all printable (ftoa_fraction u p b)"
    using printable_frac_digits [OF b, of u p]
    by (cases "frac_digits u p b") (simp add: ftoa_fraction_def printable_push printable_zeros printable_def)
  ultimately show ?thesis
    using b by (simp add: printable_whole_digits)
qed

lemma printable_sign: "list_all printable buf \<Longrightarrow> list_all printable (ftoa_sign buf neg flags)"
  by (simp add: ftoa_sign_def printable_push printable_def)

lemma printable_fixed_text: "fixed_text d prec width flags = Inr cs \<Longrightarrow> list_all printable cs"
proof -
  assume t: "fixed_text d prec width flags = Inr cs"
  then obtain buf width' d' prec' neg where b: "ftoa_number d' prec' = Inr buf"
      "cs = rev_text (ftoa_sign (fst (ftoa_pad buf neg width flags)) neg flags) width' flags"
    by (auto simp: fixed_text_def Let_def bindR_eq_Inr_iff split_def)
  from printable_ftoa_number [OF b(1)] have "list_all printable (fst (ftoa_pad buf neg width flags))"
    by (simp add: ftoa_pad_def Let_def printable_zeros)
  then have "list_all printable (ftoa_sign (fst (ftoa_pad buf neg width flags)) neg flags)"
    by (rule printable_sign)
  with b(2) show ?thesis
    by (simp add: printable_text)
qed

lemma printable_small_text: "small_text d prec width flags = Inr cs \<Longrightarrow> list_all printable cs"
  by (auto simp: small_text_def printable_text printable_def intro: printable_fixed_text split: if_splits)

lemma printable_ntoa_digits: "list_all printable buf \<Longrightarrow> list_all printable (ntoa_digits upper 10 v buf)"
proof (induction upper "10 :: u64" v buf rule: ntoa_digits.induct)
  case (1 upper v buf)
  have "unat (v mod 10) < 10"
    by (simp add: unat_mod_distrib)
  then have "v mod 10 < 10"
    by (simp add: word_less_nat_alt)
  then have "digit_char upper (v mod 10) = digit (unat (v mod 10))"
    by (simp add: digit_char_def digit_ucast)
  with printable_digit have "printable (digit_char upper (v mod 10))"
    by simp
  with 1 show ?case
    by (subst ntoa_digits.simps) (simp add: Let_def)
qed

lemma printable_ntoa_text: "list_all printable (ntoa_text v neg 10 0 width flags)"
proof -
  have butlast: "list_all printable (butlast b)" if "list_all printable b" for b
    using that by (auto simp: list_all_iff dest: in_set_butlastD)
  have zeros: "list_all printable (pad_zeros n b)" if "list_all printable b" for n b
    using that by (auto simp: pad_zeros_def list_all_iff printable_def)
  have hash: "list_all printable (ntoa_hash b 10 0 w f)" if "list_all printable b" for b w f
    using that by (simp add: ntoa_hash_def Let_def push_char_def printable_def butlast)
  have sign: "list_all printable (ntoa_sign b neg f)" if "list_all printable b" for b f
    using that by (simp add: ntoa_sign_def printable_def)
  have pad: "list_all printable (fst (ntoa_pad b neg 0 w f))" if "list_all printable b" for b w f
    using that by (simp add: ntoa_pad_def Let_def zeros)
  show ?thesis
    unfolding ntoa_text_def Let_def
    by (simp add: split_def printable_text sign hash pad printable_ntoa_digits)
qed

lemma printable_suffix_text: "list_all printable (suffix_text n e m width flags)"
  by (auto simp: suffix_text_def Let_def printable_ntoa_text printable_def [of "_ :: u8"] list_all_iff [of printable "replicate _ _"])

lemma printable_etoa_text: "etoa_text d prec width flags = Inr cs \<Longrightarrow> list_all printable cs"
  by (auto simp: etoa_text_def bindR_eq_Inr_iff printable_suffix_text intro: printable_small_text split: if_splits)

lemma printable_ftoa_text: "ftoa_text d prec width flags = Inr cs \<Longrightarrow> list_all printable cs"
  by (auto simp: ftoa_text_def intro: printable_small_text printable_etoa_text split: if_splits)

section \<open>Properties\<close>

lemma small_slot:
  assumes "p < (10 :: u64)"
  shows "ucast p < (10 :: u32)" "unat (ucast p :: u32) = unat p" "\<not> 0 < sint (ucast p :: u32) \<Longrightarrow> ucast p = (0 :: u32)"
proof -
  have p: "unat p < 10"
    using assms by (simp add: word_less_nat_alt)
  show u: "unat (ucast p :: u32) = unat p"
    using p by (simp add: unsigned_ucast_eq take_bit_nat_eq_self)
  then show "ucast p < (10 :: u32)"
    using p by (simp add: word_less_nat_alt)
  assume s: "\<not> 0 < sint (ucast p :: u32)"
  have "sint (ucast p :: u32) = int (unat p)"
    unfolding sint_uint uint_nat u
    by (rule signed_take_bit_int_eq_self) (use assms in \<open>simp_all add: word_less_def order_trans [of _ 0]\<close>)
  with s have "unat p = 0"
    by linarith
  with u show "ucast p = (0 :: u32)"
    by (simp add: unat_eq_zero)
qed

lemma read_precision_star:
  assumes "p < 10"
  shows "read_spec (46 # 42 # 102 # f) (Slot p # args) = Inr (102 # f, FLAGS_PRECISION, 0, ucast p, args)"
  using small_slot(3) [OF assms]
  by (simp add: read_spec_def read_width_def read_precision_def read_length_def is_digit_def Let_def)

lemma format_precision:
  assumes "p < 10"
  shows "format_text (cstr ''%.*f'') [Slot p, Dbl d] = ftoa_text d (ucast p) 0 FLAGS_PRECISION"
  by (cases "ftoa_text d (ucast p) 0 FLAGS_PRECISION")
    (simp_all add: cstr_def format_text.simps read_precision_star [OF assms] spec_text_def)

text \<open>C24: With a precision below ten, the format \<open>%.*f\<close> prints a number of at most \<open>10 ^ 9\<close> as the
  decimal numeral with that many digits after the point that is nearest to the number: it is
  off by at most half a unit of the last digit, plus the error of one multiplication. The
  exception is a fraction that comes out exactly half a unit below one. It is rounded up to a
  digit too many, and what is printed is that digit among zeros, with neither a point nor the
  integral part.\<close>

theorem float_is_printed:
  assumes "is_finite d" and "\<bar>val d\<bar> \<le> 1000000000" and "p < 10"
  shows "if half_carry \<bar>val d\<bar> (unat p)
    then format_text (cstr ''%.*f'') [Slot p, Dbl d] = Inr (carry_text (unat p))
    else \<exists>n. format_text (cstr ''%.*f'') [Slot p, Dbl d] = Inr (sign_text d @ decimal (unat p) n) \<and>
      \<bar>of_nat n - \<bar>val d\<bar> * 10 ^ unat p\<bar> \<le> 1 / 2 + 1 / 2 ^ 23"
proof -
  have p: "ucast p < (10 :: u32)" "unat (ucast p :: u32) = unat p"
    by (rule small_slot [OF assms(3)])+
  show ?thesis
    using ftoa_text_carry [OF assms(1,2) p(1)] ftoa_text_decimal [OF assms(1,2) p(1)]
    by (simp add: format_precision [OF assms(3)] p(2))
qed


theorem float_is_printed_witness:
  "(\<exists>n. format_text (cstr ''%.*f'') [Slot 2, Dbl (literal (5 / 2))] = Inr (decimal 2 n) \<and>
     \<bar>of_nat n - 250 :: rat\<bar> \<le> 1 / 2 + 1 / 2 ^ 23) \<and>
   format_text (cstr ''%.*f'') [Slot 1, Dbl (literal 0.95)] = Inr (str ''00000000000000000000000000000010'')"
proof
  have d: "is_finite (literal (5 / 2))" "val (literal (5 / 2)) = 5 / 2" "\<not> half_carry (5 / 2) 2" "unat (2 :: u64) = 2"
    by code_simp+
  have e: "is_finite (literal 0.95)" "\<bar>val (literal 0.95)\<bar> \<le> 1000000000" "half_carry \<bar>val (literal 0.95)\<bar> (unat (1 :: u64))"
      "carry_text (unat (1 :: u64)) = str ''00000000000000000000000000000010''"
    by code_simp+
  show "\<exists>n. format_text (cstr ''%.*f'') [Slot 2, Dbl (literal (5 / 2))] = Inr (decimal 2 n) \<and>
     \<bar>of_nat n - 250 :: rat\<bar> \<le> 1 / 2 + 1 / 2 ^ 23"
    using float_is_printed [OF d(1), of 2] d(2-4) by (simp add: sign_text_def)
  show "format_text (cstr ''%.*f'') [Slot 1, Dbl (literal 0.95)] = Inr (str ''00000000000000000000000000000010'')"
    using float_is_printed [OF e(1,2), of 1] e(3,4) by (simp only: if_True) simp
qed

text \<open>C25: \<open>%f\<close> and \<open>%e\<close> print every number, also infinities and values that are none, unless a
  precision of 42 or more is asked for a finite one; then the table of powers is read out of
  bounds. In particular the two conversions, which call each other, always return.\<close>

theorem float_precision_limit:
  assumes "\<not> has flags FLAGS_ADAPT_EXP"
  shows "if is_finite d \<and> has flags FLAGS_PRECISION \<and> 42 \<le> prec
    then ftoa out_null idx maxlen d prec width flags s = Inl OutOfBounds \<and>
      etoa out_null idx maxlen d prec width flags s = Inl OutOfBounds
    else (\<exists>n. ftoa out_null idx maxlen d prec width flags s = Inr (n, s)) \<and>
      (\<exists>n. etoa out_null idx maxlen d prec width flags s = Inr (n, s))"
proof -
  have "\<exists>n. out_all out_null cs idx maxlen s = Inr (n, s)" for cs
    by (induction cs arbitrary: idx) (simp_all add: out_null_def)
  then show ?thesis
    using ftoa_text_precision [OF assms, of d prec width] etoa_text_precision [OF assms, of d prec width]
    by (auto simp: ftoa_output etoa_output)
qed

theorem float_precision_limit_witness:
  "ftoa out_null 0 80 (literal 2.5) 42 0 FLAGS_PRECISION () = Inl OutOfBounds \<and>
   (\<exists>n. etoa out_null 0 80 (literal 2.5) 41 0 FLAGS_PRECISION () = Inr (n, ()))"
proof -
  have "\<not> has FLAGS_PRECISION FLAGS_ADAPT_EXP" "has FLAGS_PRECISION FLAGS_PRECISION" "is_finite (literal 2.5)"
    by code_simp+
  then show ?thesis
    using float_precision_limit [of FLAGS_PRECISION "literal 2.5" 42 0 80 0 "()"]
      float_precision_limit [of FLAGS_PRECISION "literal 2.5" 41 0 80 0 "()"] by simp
qed

text \<open>C38: What the conversions of floating-point numbers write are printable characters, and as
  many as they count: none is lost on an output device that drops NUL characters.\<close>

theorem float_output_printable:
  assumes "ftoa out_char idx maxlen d prec width flags chars = Inr (n, chars1)"
    and "etoa out_char idx maxlen d prec width flags chars = Inr (m, chars2)"
  shows "\<exists>cs ds. chars1 = chars @ cs \<and> n = idx + length cs \<and> list_all printable cs \<and>
    chars2 = chars @ ds \<and> m = idx + length ds \<and> list_all printable ds"
proof -
  have out: "out_all out_char cs idx maxlen chars = Inr (idx + length cs, chars @ cs)" if "list_all printable cs" for cs
    using that by (induction cs arbitrary: idx chars) (auto simp: out_char_def printable_def)
  from assms obtain cs ds where "ftoa_text d prec width flags = Inr cs" "etoa_text d prec width flags = Inr ds"
      "out_all out_char cs idx maxlen chars = Inr (n, chars1)" "out_all out_char ds idx maxlen chars = Inr (m, chars2)"
    by (auto simp: ftoa_output etoa_output bindR_eq_Inr_iff)
  then show ?thesis
    using printable_ftoa_text printable_etoa_text out by fastforce
qed

theorem float_output_printable_witness:
  "\<exists>cs ds. ftoa out_char 0 80 (literal (5 / 2)) 3 0 FLAGS_PRECISION [] = Inr (length cs, cs) \<and> list_all printable cs \<and>
     etoa out_char 0 80 (literal (5 / 2)) 3 0 FLAGS_PRECISION [] = Inr (length ds, ds) \<and> list_all printable ds"
proof -
  let ?d = "literal (5 / 2)"
  have "\<not> has FLAGS_PRECISION FLAGS_ADAPT_EXP" "has FLAGS_PRECISION FLAGS_PRECISION" "is_finite ?d"
    by code_simp+
  then obtain cs ds where "ftoa_text ?d 3 0 FLAGS_PRECISION = Inr cs" "etoa_text ?d 3 0 FLAGS_PRECISION = Inr ds"
    using ftoa_text_precision [of FLAGS_PRECISION ?d 3 0] etoa_text_precision [of FLAGS_PRECISION ?d 3 0] by auto
  then obtain n m chars1 chars2 where "ftoa out_char 0 80 ?d 3 0 FLAGS_PRECISION [] = Inr (n, chars1)"
      "etoa out_char 0 80 ?d 3 0 FLAGS_PRECISION [] = Inr (m, chars2)"
    using char_sink.out_all_holds [of "[]" "[]" "[]"] by (auto simp: ftoa_output etoa_output)
  from this float_output_printable [OF this] show ?thesis
    by auto
qed

section \<open>Zero in exponential form\<close>

text \<open>The estimate takes zero for a number of the least exponent.\<close>

lemma etoa_exponent_zero: "\<exists>F. etoa_exponent 0 = Inr (- 308, F) \<and> is_finite F \<and> 0 < val F"
proof -
  define M where "M = ((0 :: double) AND 0xFFFFFFFFFFFFF) OR push_bit 52 1023"
  have "between 1 2 M"
    using significand [of 0] unfolding M_def between_def by (simp add: less_imp_le)
  note log = betweenD [OF log10_approx_val [of "- 1023", OF _ this, simplified]]
  have "truncate (val (log10_approx (- 1023) M)) = - 307"
    using log(2,3) by (simp add: truncate_def ceiling_eq_iff)
  moreover have "to_int (log10_approx (- 1023) M) = Inr (truncate (val (log10_approx (- 1023) M)))"
    using log by (intro to_int_val) simp_all
  ultimately have x: "to_int (log10_approx (- 1023) M) = Inr (- 307)"
    by simp
  obtain e F where F: "etoa_exponent 0 = Inr (e, F)" "is_finite F" "0 < val F"
    using etoa_exponent_scales [of 0] by auto
  from F(1) have "e = - 308 \<or> e = - 307 \<and> \<not> flt 0 F"
    unfolding etoa_exponent_def Let_def M_def [symmetric] by (auto simp: x bindR_eq_Inr_iff split: if_splits)
  with F have "e = - 308"
    by (auto simp: flt_val)
  with F show ?thesis
    by blast
qed

lemma positive_sign:
  assumes "0 < val d"
  shows "\<not> negative d"
proof
  assume "negative d"
  moreover have "0 \<le> of_int (fraction_bits d) * two_to e" "0 \<le> of_int (2 ^ 52 + fraction_bits d) * two_to e" for e
    using field_bounds(3) [of d] by (intro mult_nonneg_nonneg; simp)+
  ultimately have "val d \<le> 0"
    by (simp add: val_def del: of_int_add)
  with assms show False
    by simp
qed

lemma zero_with_exponent: "etoa_text 0 prec 0 0 = Inr (str ''0.000000e-308'')"
proof -
  obtain F where F: "etoa_exponent 0 = Inr (- 308, F)" "is_finite F" "0 < val F"
    using etoa_exponent_zero by blast
  have no: "\<not> has 0 f" for f
    by (simp add: has_def)
  have "fdiv 0 F = 0"
    using F(2,3) positive_sign [OF F(3)] by (simp add: fdiv_def finite_not_special to_double_def negative_def)
  then have "etoa_plan 0 prec 0 0 = Inr (0, 6, 0, 0, - 308, 5)"
    using F by (simp add: etoa_plan_def no flt_val Let_def PRINTF_DEFAULT_FLOAT_PRECISION_def)
  moreover have "small_text 0 6 0 (0 AND NOT FLAGS_ADAPT_EXP) = Inr (str ''0.000000'')" "suffix_text 8 (- 308) 5 0 0 = str ''e-308''"
    by code_simp+
  moreover have "length (str ''0.000000'') = 8"
    by simp
  ultimately show ?thesis
    unfolding etoa_text_def by (simp add: special_iff del: str_Cons length_str) (simp add: str_def)
qed

end
