(* ===== verification/Spec2Isabelle.thy ===== *)
theory Spec2Isabelle
  imports Gdb_Framing Gdb_Memchr Gdb_InfMem Gdb_System Gdb_Session Gdb_Resume Gdb_Network Gdb_Backlog Gdb_Uart
    Gdb_Numbers
begin

text \<open>
  A model of libgdb, a GDB stub for component systems on seL4, and of the debugger components
  that the repository's examples build on it.

  \<^bold>\<open>The program.\<close> GDB talks to a \<^emph>\<open>debugger\<close> component over a serial line or a TCP connection.
  The component reads framed packets, hands each to the library and sends the library's answer.
  The library (\<open>src/gdb.c\<close>, \<open>src/arch/arm/64/gdb.c\<close>) keeps a table of \<^emph>\<open>inferiors\<close>, each with a
  table of \<^emph>\<open>threads\<close>, software breakpoints, hardware breakpoints and watchpoints, and carries
  out packets through the system calls of the kernel: memory of another address space word by
  word, breakpoint registers, registers and scheduling of other threads. A fault of a debugged
  thread is delivered to the component, which asks the library for a stop reply, stops all
  threads and sends it. \<open>src/util.c\<close> and \<open>src/printf.c\<close> are the freestanding routines that the
  rest uses.

  \<^bold>\<open>The model.\<close> Functions of the source are HOL functions of the same names. State is passed
  explicitly: \<open>'k gdb\<close> (\<open>Gdb_State\<close>) is the globals of \<open>gdb.c\<close> together with the kernel's state
  \<open>ks\<close>, \<open>'k debugger\<close> (\<open>Gdb_EventLoop\<close>) and \<open>net_debugger\<close> (\<open>Gdb_Network\<close>) the globals of the
  examples. Integers are words of their width, except those that the code bounds by a loop or a
  buffer size, which are natural numbers. Pointers to inferiors and threads are indices, \<open>None\<close>
  is null. A pointer into a string that is only read forward is the rest of the string
  (\<open>cptr\<close>); an array that is written is a list with checked writes. What has no defined
  continuation in C (a null pointer dereferenced, an array left, an overflow of a signed integer) and a failed
  assertion is a value of type \<open>fault\<close>, and a function that can run into one returns \<open>'a res\<close>. A local variable that
  the code leaves uninitialised is an argument, so that a theorem holds for all its values or
  says which it needs.

  \<^bold>\<open>Parts.\<close>
  \<^item> \<open>Gdb_Prelude\<close>: words, faults, results, strings, byte arrays, bytes of words; the
    collections \<open>res_simps\<close> and \<open>buf_simps\<close>.
  \<^item> \<open>Gdb_Util\<close>: \<open>strlcpy\<close>, \<open>strncmp\<close>, \<open>strnlen\<close> and the hexadecimal conversions of
    \<open>src/util.c\<close>. The locale \<open>byte_codec\<close> is what an encoding of bytes as two digits has to
    provide; it is interpreted by the code's digits (\<open>hex\<close>). \<open>Gdb_Memory\<close> and \<open>Gdb_Memchr\<close>:
    \<open>memset\<close> and \<open>memchr\<close> with their loops over machine words and their alignment arithmetic,
    equal to the bytewise fill and search.
  \<^item> \<open>src/printf.c\<close>. \<open>Gdb_Out\<close>: the output functions and the integer conversions. The locale
    \<open>sink\<close> is the contract of an output function; it is interpreted by the four of the code.
    \<open>Gdb_Double\<close>: the type \<open>double\<close>, IEEE binary64 on the bits of a word, each operation being
    the exact rational result rounded to nearest, ties to even; and an interval arithmetic for
    it (collection \<open>between_*\<close>). \<open>Gdb_Float\<close>: \<open>_ftoa\<close> and \<open>_etoa\<close>. \<open>Gdb_Decimal\<close>: decimal
    numerals, and that \<open>_ftoa\<close> writes the nearest one. \<open>Gdb_Printf\<close>: the format interpreter,
    the character, string and pointer conversions and the entry points, related to a function
    that gives the text without a sink. \<open>Gdb_Numbers\<close>: what the formats print for a number.
  \<^item> \<open>Gdb_State\<close>: the records and constants of \<open>include/gdb.h\<close> and the kernel interface.
    \<open>Gdb_Kernel\<close>: the laws about the kernel that theorems assume, each a named predicate
    (\<open>word_memory\<close>, \<open>breakpoint_unit\<close>, \<open>breakpoints_keep_memory\<close>, \<open>scheduler\<close>,
    \<open>register_file\<close>), and \<open>machine_kernel\<close>, a kernel that obeys all of them and that the
    witnesses run on.
  \<^item> \<open>Gdb_Regs\<close>, \<open>Gdb_Arch\<close>: \<open>src/arch/arm/64/gdb.c\<close>, the text of registers, breakpoints,
    watchpoints, single-stepping, and the memory of the inferior. \<open>Gdb_Breakpoints\<close>: software
    breakpoints refine a set of addresses over a ghost memory that never changes.
    \<open>Gdb_Hardware\<close>, \<open>Gdb_Release\<close>: hardware breakpoints and watchpoints are two
    interpretations of the locale \<open>hw_table\<close> (and of its extension \<open>hw_table_clear\<close>); the table
    and the registers of all threads are in step. \<open>Gdb_InfMem\<close>: what the memory transfers do.
  \<^item> \<open>Gdb_Registry\<close>: registration, lookup and exit in \<open>src/gdb.c\<close>, suspension and resumption
    of the system. The locale \<open>id_table\<close> is the contract of a table with distinct client
    identifiers, interpreted by the inferiors and by the threads of each inferior. \<open>Gdb_Reply\<close>:
    the text of replies in the output buffer. \<open>Gdb_Parse\<close>: the parsers of operands.
    \<open>Gdb_Handlers\<close>: every packet handler and the dispatch \<open>gdb_handle_packet\<close>. \<open>Gdb_Control\<close>:
    \<open>H\<close>, \<open>T\<close> and malformed \<open>vCont\<close>. \<open>Gdb_Vcont\<close>: an inductive grammar of \<open>vCont\<close> packets,
    their meaning as a request, and that the handler refines it. \<open>Gdb_Faults\<close>: stop replies.
    \<open>Gdb_Detach\<close>: \<open>D\<close>. \<open>Gdb_Shape\<close>: the invariant \<open>gdb_inv\<close> and that every packet and fault
    keeps it (collection \<open>shape_intros\<close>).
    \<open>Gdb_System\<close>: the functions of \<open>gdb.h\<close> as an inductive step relation \<open>api_step\<close>; the
    invariant holds in every reachable state.
  \<^item> \<open>Gdb_Transport\<close>: \<open>get_packet\<close> and \<open>put_packet\<close> of the three examples, on a whole input.
    \<open>Gdb_EventLoop\<close>: the two coroutines of the serial and the network example and the handlers
    \<open>init\<close>, \<open>notified\<close> and \<open>fault\<close>, as a machine that waits between characters; what differs
    between the examples is the record \<open>variant\<close>. \<open>Gdb_Framing\<close>: a grammar of the input
    stream, and that \<open>get_packet\<close> and the coroutine read what it says. \<open>Gdb_Debugger\<close>: the
    component over time, as a step relation. \<open>Gdb_Session\<close>: whole sessions, from the characters
    on the wire to the memory of the inferiors. \<open>Gdb_Resume\<close>: from a \<open>vCont\<close> frame to the threads that run.
  \<^item> \<open>Char_Queue\<close>: the ring buffer \<open>char_queue.h\<close>, an interpretation of the locale
    \<open>bounded_fifo\<close>. \<open>Gdb_Network\<close>: the event handlers of the network example, fed from it.
    \<open>Gdb_Backlog\<close>: the linked list of packets that wait for a transmit buffer. \<open>Gdb_Uart\<close>: the
    polling driver of the integrated example.

  \<^bold>\<open>What is proved.\<close> The theorems with a number are the properties; they go from single
  routines to the composition.
  \<^item> Routines: the exact effect of \<open>memset\<close>, \<open>memchr\<close> and \<open>snprintf\<close>, including truncation;
    round trips of hexadecimal text, registers, thread identifiers and addresses; which numeral
    a floating-point number is printed as, how far it is off, and for which precisions.
  \<^item> Packets: the reply and the effect on memory, registers, breakpoints and thread flags of
    each kind of packet, and the replies to packets that fail. Some of these statements say
    that the code does not do what it is meant to do (\<open>longer_write_is_misplaced\<close>,
    \<open>failed_write_is_acknowledged\<close>, \<open>sw_duplicate_keeps_brk\<close>, \<open>vcont_without_thread\<close>).
  \<^item> State: tables stay consistent, hardware registers stay in step with the tables, a new
    thread inherits those breakpoints of its inferior that the kernel accepts, and detaching
    leaves programs and registers as they were before debugging.
  \<^item> Examples: what is read is what a grammar of packets says, also when the reader is suspended
    in the middle of a packet; framing survives noise and damage, requests are answered, a fault is reported until GDB acknowledges it, an
    interrupt stops the system, and the network path delivers what the serial line would;
    both debuggers always come back to wait for input.

  \<^bold>\<open>Termination.\<close> No definition has a fuel parameter. Loops over a packet end because the rest of
  the packet gets shorter, loops over words because their count or the distance to the limit
  does, the loops over the ring buffer because its length does; \<open>function\<close> with a measure
  where recursion is not structural. The event loop of the examples never ends; a machine that
  consumes the characters that have arrived and then waits takes its place, and
  \<open>debugger_keeps_listening\<close> states that it always comes to wait. The two loops of \<open>transmit\<close>
  follow links in memory, which could form a cycle, and test a queue that another component
  changes; they are \<open>partial_function\<close>, and \<open>backlog_is_fifo\<close> shows that they return. So is the
  loop that waits for the serial port, and \<open>uart_is_serial_line\<close> says when it returns and when
  it never does. \<open>_ftoa\<close> and \<open>_etoa\<close> call each other: a number above \<open>10 ^ 9\<close> is scaled and
  handed back. The recursion ends because the scaled number is at most \<open>10 ^ 6\<close>, which an error
  analysis of the estimate of the exponent shows (\<open>etoa_exponent_scales\<close>).

  \<^bold>\<open>Parameters.\<close> The kernel; the routines \<open>sddf_memcpy\<close> and \<open>pbuf_copy_partial\<close>, with the law
  \<open>copies\<close>; the transmit queue of sDDF, with the law \<open>free_stable\<close>, that a queue of free
  buffers that is not empty stays so until a packet is sent; the callbacks that lwIP makes while
  it handles received data; the registers of the serial port, with the law \<open>line\<close>. The compiler's
  part in floating-point arithmetic is fixed: every operation is rounded to \<open>double\<close>, none is
  contracted with its neighbour.

  \<^bold>\<open>Not modelled.\<close>
  \<^item> The event handlers of the integrated example: they are written for an earlier interface
    of the library (\<open>inferiors[i].wakeup\<close>, \<open>gdb_handle_packet\<close> with two arguments) and do not
    fit the \<open>gdb.h\<close> of this repository. Its packet layer is in \<open>Gdb_Transport\<close>, its driver in
    \<open>Gdb_Uart\<close>.
  \<^item> The rest of \<open>tcp.c\<close> and of the network example's \<open>debugger.c\<close>: setting up lwIP and the
    sDDF queues, calls into code that is not in the repository.
  \<^item> The debugged programs of the examples, the host tool that splits a serial line,
    configuration headers, build files and system descriptions.
\<close>

end
